(* ===== verification/LLAM_Prelude.thy ===== *)
theory LLAM_Prelude
  imports Main "HOL-Library.Word"
begin

text \<open>
  Shared vocabulary of the LLAM development: the fixed-width integer types of the C sources, the
  \<open>errno\<close> values the runtime uses, the environment the operating system gives the code, and the
  generic list and word lemmas that the component theories use. The C code runs loops of the shape
  \<^verbatim>\<open>for (i = 0; i < N; ++i) if (cond(table[i])) { ...; break; }\<close>
  over every slot table; \<open>first_index\<close> is that loop.
\<close>

unbundle bit_operations_syntax

section \<open>Machine types\<close>

type_synonym u8 = "8 word"
type_synonym u32 = "32 word"
type_synonym u64 = "64 word"

abbreviation UINT64_MAX :: u64 where
  "UINT64_MAX \<equiv> - 1"

abbreviation UINT32_MAX :: u32 where
  "UINT32_MAX \<equiv> - 1"

section \<open>Error numbers\<close>

text \<open>
  Fallible functions return \<open>Inl e\<close> where the C returns \<^verbatim>\<open>-1\<close> with \<^verbatim>\<open>errno = e\<close>.
  \<open>E_OK\<close> is the value 0, which occurs only where the code stores an error code in a structure;
  \<open>EOTHER n\<close> is any further number the operating system may report. \<open>UNDEFINED\<close> is no error
  number: it marks a branch on which the C program would access memory outside an array, and the
  well-formedness theorems show that it is never returned.
\<close>

datatype errno =
    E_OK | EINVAL | EACCES | ENOSPC | EOVERFLOW | ENOMEM | EIO | EBUSY | EPIPE | EAGAIN
  | EMSGSIZE | ENOTSUP | EBADF | EXDEV | ETIMEDOUT | ECANCELED | EPERM | EDEADLK | EEXIST | ENAMETOOLONG | EOTHER nat | UNDEFINED

type_synonym 'a result = "errno + 'a"

section \<open>The operating-system environment\<close>

text \<open>
  What the code asks of the operating system is an input of the model: a finite record of the
  answers it will get, consumed from the front. An exhausted list means the request fails for
  entropy and clocks, and succeeds for memory.
\<close>

record os_env =
  os_entropy :: "u64 option list"
  os_clock :: "(u32 \<times> u32) option list"
  os_calloc :: "bool list"
  os_pid :: u32
  os_frame_addr :: u64
  os_key_addr :: u64
  os_token_addr :: u64
  os_fallback_counter :: u64

definition os_take_entropy :: "os_env \<Rightarrow> u64 option \<times> os_env" where
  "os_take_entropy os =
     (case os_entropy os of
        [] \<Rightarrow> (None, os)
      | e # es \<Rightarrow> (e, os\<lparr>os_entropy := es\<rparr>))"

definition os_take_clock :: "os_env \<Rightarrow> (u32 \<times> u32) option \<times> os_env" where
  "os_take_clock os =
     (case os_clock os of
        [] \<Rightarrow> (None, os)
      | c # cs \<Rightarrow> (c, os\<lparr>os_clock := cs\<rparr>))"

definition os_take_calloc :: "os_env \<Rightarrow> bool \<times> os_env" where
  "os_take_calloc os =
     (case os_calloc os of
        [] \<Rightarrow> (True, os)
      | c # cs \<Rightarrow> (c, os\<lparr>os_calloc := cs\<rparr>))"

section \<open>The slot-scan loop\<close>

fun first_index :: "('a \<Rightarrow> bool) \<Rightarrow> 'a list \<Rightarrow> nat option" where
  "first_index P [] = None"
| "first_index P (x # xs) = (if P x then Some 0 else map_option Suc (first_index P xs))"

lemma first_index_None [simp]: "first_index P xs = None \<longleftrightarrow> (\<forall>x\<in>set xs. \<not> P x)"
  by (induction xs) auto

lemma first_index_SomeD:
  "first_index P xs = Some i \<Longrightarrow> i < length xs \<and> P (xs ! i) \<and> (\<forall>j<i. \<not> P (xs ! j))"
proof (induction xs arbitrary: i)
  case (Cons x xs)
  show ?case
  proof (cases "P x")
    case True
    with Cons.prems show ?thesis by simp
  next
    case False
    with Cons.prems obtain k where "first_index P xs = Some k" "i = Suc k" by auto
    with Cons.IH [of k] False show ?thesis by (simp add: All_less_Suc2)
  qed
qed simp

lemma first_index_Some_iff:
  "first_index P xs = Some i \<longleftrightarrow> i < length xs \<and> P (xs ! i) \<and> (\<forall>j<i. \<not> P (xs ! j))"
proof
  assume r: "i < length xs \<and> P (xs ! i) \<and> (\<forall>j<i. \<not> P (xs ! j))"
  then have "P (xs ! i)" "xs ! i \<in> set xs" by simp_all
  then have "first_index P xs \<noteq> None" unfolding first_index_None by blast
  then obtain k where k: "first_index P xs = Some k" by blast
  have "\<not> k < i" "\<not> i < k" using first_index_SomeD [OF k] r by blast+
  then have "k = i" by simp
  with k show "first_index P xs = Some i" by simp
qed (rule first_index_SomeD)

lemma first_index_unique:
  assumes "i < length xs" "P (xs ! i)"
    and "\<And>j. j < length xs \<Longrightarrow> P (xs ! j) \<Longrightarrow> j = i"
  shows "first_index P xs = Some i"
proof -
  have "\<not> P (xs ! j)" if "j < i" for j
    using assms(1) assms(3) [of j] that by fastforce
  with assms(1,2) show ?thesis unfolding first_index_Some_iff by blast
qed

lemma first_index_lt: "first_index P xs = Some i \<Longrightarrow> i < length xs"
  by (drule first_index_SomeD) simp

lemma first_index_sat: "first_index P xs = Some i \<Longrightarrow> P (xs ! i)"
  by (drule first_index_SomeD) simp

lemma first_index_cong: "(\<And>x. x \<in> set xs \<Longrightarrow> P x = Q x) \<Longrightarrow> first_index P xs = first_index Q xs"
  by (induction xs) auto

lemma first_index_map: "first_index P (map f xs) = first_index (\<lambda>x. P (f x)) xs"
  by (induction xs) simp_all

section \<open>Byte ranges\<close>

text \<open>
  \<open>overlay xs i ys\<close> is \<^verbatim>\<open>memcpy(xs + i, ys, length ys)\<close> inside an array and
  \<open>subrange xs i n\<close> the bytes \<^verbatim>\<open>xs[i .. i + n - 1]\<close>.
\<close>

definition overlay :: "'a list \<Rightarrow> nat \<Rightarrow> 'a list \<Rightarrow> 'a list" where
  "overlay xs i ys = take i xs @ ys @ drop (i + length ys) xs"

definition subrange :: "'a list \<Rightarrow> nat \<Rightarrow> nat \<Rightarrow> 'a list" where
  "subrange xs i n = take n (drop i xs)"

lemma length_overlay [simp]:
  "i + length ys \<le> length xs \<Longrightarrow> length (overlay xs i ys) = length xs"
  by (simp add: overlay_def)

lemma length_subrange [simp]: "i + n \<le> length xs \<Longrightarrow> length (subrange xs i n) = n"
  by (simp add: subrange_def)

lemma subrange_overlay_same:
  "i + length ys \<le> length xs \<Longrightarrow> subrange (overlay xs i ys) i (length ys) = ys"
  by (simp add: subrange_def overlay_def)

lemma nth_overlay:
  assumes "i + length ys \<le> length xs" "k < length xs"
  shows "overlay xs i ys ! k = (if i \<le> k \<and> k < i + length ys then ys ! (k - i) else xs ! k)"
  using assms by (auto simp: overlay_def nth_append)

lemma subrange_overlay_disjoint:
  assumes "i + length ys \<le> length xs" "j + n \<le> length xs" "j + n \<le> i \<or> i + length ys \<le> j"
  shows "subrange (overlay xs i ys) j n = subrange xs j n"
proof (rule nth_equalityI)
  show "length (subrange (overlay xs i ys) j n) = length (subrange xs j n)"
    using assms by simp
next
  fix k assume "k < length (subrange (overlay xs i ys) j n)"
  then have k: "k < n" using assms by simp
  then have "subrange (overlay xs i ys) j n ! k = overlay xs i ys ! (j + k)"
    using assms by (simp add: subrange_def)
  also have "\<dots> = xs ! (j + k)"
    using assms k by (auto simp: nth_overlay)
  also have "\<dots> = subrange xs j n ! k"
    using assms k by (simp add: subrange_def)
  finally show "subrange (overlay xs i ys) j n ! k = subrange xs j n ! k" .
qed

section \<open>Circular windows\<close>

definition window :: "'a list \<Rightarrow> nat \<Rightarrow> nat \<Rightarrow> nat \<Rightarrow> 'a list" where
  "window buf cap h n = map (\<lambda>i. buf ! ((h + i) mod cap)) [0..<n]"

lemma length_window [simp]: "length (window buf cap h n) = n"
  by (simp add: window_def)

lemma window_0 [simp]: "window buf cap h 0 = []"
  by (simp add: window_def)

lemma window_Suc: "window buf cap h (Suc n) = buf ! (h mod cap) # window buf cap (Suc h) n"
  by (simp add: window_def upt_conv_Cons map_Suc_upt [symmetric] del: upt_Suc)

lemma window_mod: "window buf cap (h mod cap) n = window buf cap h n"
  by (simp add: window_def mod_add_left_eq)

lemma mod_window_le:
  assumes "(h + i) mod cap = (h + j) mod cap" "i \<le> j" "j < cap"
  shows "i = (j :: nat)"
proof -
  have "cap dvd (h + j) - (h + i)"
    using assms(1,2) mod_eq_dvd_iff_nat [of "h + i" "h + j" cap] by simp
  then have "cap dvd j - i" by simp
  moreover have "j - i < cap" using assms(3) by simp
  ultimately have "j - i = 0" using nat_dvd_not_less by blast
  then show ?thesis using assms(2) by simp
qed

lemma mod_window_inj:
  assumes "(h + i) mod cap = (h + j) mod cap" "i < cap" "j < cap"
  shows "i = (j :: nat)"
  using mod_window_le [of h i cap j] mod_window_le [of h j cap i] assms by (cases "i \<le> j") auto

lemma window_push:
  assumes "n < cap" "length buf = cap"
  shows "window (buf[(h + n) mod cap := x]) cap h (Suc n) = window buf cap h n @ [x]"
proof -
  have cap: "0 < cap" using assms(1) by simp
  have keep: "buf[(h + n) mod cap := x] ! ((h + i) mod cap) = buf ! ((h + i) mod cap)" if "i < n" for i
  proof -
    have "(h + n) mod cap \<noteq> (h + i) mod cap" using that mod_window_inj [of h i cap n] assms by force
    then show ?thesis by simp
  qed
  show ?thesis
    using assms cap keep by (auto simp: window_def)
qed

lemma window_other:
  assumes "n \<le> j" "j < cap" "length buf = cap"
  shows "window (buf[(h + j) mod cap := x]) cap h n = window buf cap h n"
proof -
  have "buf[(h + j) mod cap := x] ! ((h + i) mod cap) = buf ! ((h + i) mod cap)" if "i < n" for i
  proof -
    have "(h + j) mod cap \<noteq> (h + i) mod cap" using that mod_window_inj [of h i cap j] assms by force
    then show ?thesis by simp
  qed
  then show ?thesis by (auto simp: window_def)
qed

lemma window_take: "m \<le> n \<Longrightarrow> take m (window buf cap h n) = window buf cap h m"
  by (simp add: window_def take_map)

lemma window_drop: "m \<le> n \<Longrightarrow> drop m (window buf cap h n) = window buf cap (h + m) (n - m)"
  by (rule nth_equalityI) (auto simp: window_def add.assoc)

section \<open>Words\<close>

lemma unat_add_no_wrap_iff: "x \<le> x + y \<longleftrightarrow> unat x + unat y < 2 ^ LENGTH('a)"
  for x y :: "'a::len word"
  by (rule no_olen_add_nat)

lemma word_and_mask_subset:
  fixes x y z :: "'a::len word"
  assumes "x AND y = y" "y AND z = z"
  shows "x AND z = z"
proof -
  have "x AND z = (x AND y) AND z"
    using assms(2) by (simp add: and.assoc)
  with assms show ?thesis by simp
qed

lemma unat_Suc_no_wrap:
  fixes x :: "'a::len word"
  assumes "x \<noteq> - 1"
  shows "unat (x + 1) = Suc (unat x)"
proof -
  have "1 + x \<noteq> 0"
    using assms by (simp add: add_eq_0_iff)
  from unatSuc [OF this] show ?thesis by (simp add: add.commute)
qed

lemma unat_drop_bit_div: "unat (drop_bit n w) = unat w div 2 ^ n"
  for w :: "'a::len word"
  by (subst unat_drop_bit_eq) (rule drop_bit_eq_div)

lemma unat_and_mask_mod: "unat (w AND mask n) = unat w mod 2 ^ n"
  for w :: "'a::len word"
  unfolding take_bit_eq_mask [symmetric] unsigned_take_bit_eq by (rule take_bit_eq_mod)

lemma unat_ucast_small:
  fixes x :: "'a::len word"
  assumes "unat x < 2 ^ LENGTH('b::len)"
  shows "unat (ucast x :: 'b word) = unat x"
  using assms by (simp only: unsigned_ucast_eq take_bit_nat_eq_self)

lemma unat_ucast_up [simp]:
  fixes x :: "u32"
  shows "unat (ucast x :: u64) = unat x"
  by (rule unat_ucast_small) (use unsigned_less [of x, where ?'a = nat] in simp)

lemma take_bit_small:
  fixes x :: "'a::len word"
  assumes "unat x < 2 ^ n"
  shows "take_bit n x = x"
proof -
  have "unat (take_bit n x) = unat x"
    using assms by (simp only: unsigned_take_bit_eq take_bit_nat_eq_self)
  then show ?thesis by (simp only: unsigned_word_eqI [of "take_bit n x" x] word_unat_eq_iff)
qed

lemma bit_small_False: "unat x < 2 ^ n \<Longrightarrow> n \<le> i \<Longrightarrow> \<not> bit x i"
  for x :: "'a::len word"
  by (metis bit_take_bit_iff leD take_bit_small)

text \<open>Packing a field of \<open>n\<close> low bits below a shifted word, and taking it apart again.\<close>

lemma pack_low:
  fixes t f :: "'a::len word"
  assumes "unat f < 2 ^ n"
  shows "(push_bit n t OR f) AND mask n = f"
proof (rule bit_word_eqI)
  fix i assume i: "i < LENGTH('a)"
  show "bit ((push_bit n t OR f) AND mask n) i = bit f i"
    using i bit_small_False [OF assms, of i]
    by (cases "n \<le> i") (auto simp: bit_and_iff bit_or_iff bit_push_bit_iff bit_mask_iff)
qed

lemma pack_high:
  fixes t f :: "'a::len word"
  assumes "unat f < 2 ^ n" "unat t < 2 ^ (LENGTH('a) - n)"
  shows "drop_bit n (push_bit n t OR f) = t"
proof (rule bit_word_eqI)
  fix i assume i: "i < LENGTH('a)"
  show "bit (drop_bit n (push_bit n t OR f)) i = bit t i"
  proof (cases "n + i < LENGTH('a)")
    case True
    then show ?thesis
      using bit_small_False [OF assms(1), of "n + i"]
      by (auto simp: bit_drop_bit_eq bit_or_iff bit_push_bit_iff)
  next
    case False
    then have "\<not> bit t i"
      using i bit_small_False [OF assms(2), of i] by simp
    with False show ?thesis
      by (auto simp: bit_drop_bit_eq bit_or_iff bit_push_bit_iff dest: bit_imp_le_length)
  qed
qed

lemma unat_Suc_less:
  fixes x y :: "'a::len word"
  assumes "x < y"
  shows "unat (x + 1) = Suc (unat x)"
proof (rule unat_Suc_no_wrap)
  show "x \<noteq> - 1" using assms word_n1_ge [of y] by (auto simp: leD)
qed

end
