(* ===== verification/Public_Slot.thy ===== *)
theory Public_Slot
  imports LLAM_Prelude
begin

text \<open>
  Public handle slots (\<^verbatim>\<open>src/internal/runtime_public_slot.h\<close>,
  \<^verbatim>\<open>runtime_public_slot_seal.h\<close> and \<^verbatim>\<open>runtime_mix.h\<close>). Every public object of the runtime (tasks, mutexes, channels,
  ...) is named by an opaque word that packs a slot index and a sealed generation. The theory models
  the word packing, the affine seal over the token domain of size \<open>2^28 - 1\<close>, and the slot table with
  its free list. The lemmas show that packing
  round-trips, that the incremental seal equals the closed form and never repeats a generation
  before the epoch is exhausted, that a table stays well formed, and that a released handle never
  resolves again.
\<close>

section \<open>Mixing and entropy\<close>

definition llam_mix64 :: "u64 \<Rightarrow> u64" where
  "llam_mix64 value =
     (let value = (value XOR drop_bit 30 value) * 0xbf58476d1ce4e5b9;
          value = (value XOR drop_bit 27 value) * 0x94d049bb133111eb
      in value XOR drop_bit 31 value)"

definition llam_public_slot_mix64 :: "u64 \<Rightarrow> u64" where
  "llam_public_slot_mix64 value = llam_mix64 value"

text \<open>One read of eight bytes from the operating system; zero counts as a failed read.\<close>

definition llam_public_slot_entropy_from_os :: "os_env \<Rightarrow> u64 option \<times> os_env" where
  "llam_public_slot_entropy_from_os os =
     (case os_take_entropy os of
        (None, os) \<Rightarrow> (None, os)
      | (Some secret, os) \<Rightarrow> (if secret \<noteq> 0 then Some secret else None, os))"

definition llam_public_slot_fallback_secret ::
    "os_env \<Rightarrow> u64 \<Rightarrow> u64 \<Rightarrow> u64 \<Rightarrow> u64 \<times> os_env" where
  "llam_public_slot_fallback_secret os scope object owner_secret =
     (let entropy = owner_secret;
          entropy = entropy XOR scope;
          entropy = entropy XOR llam_public_slot_mix64 object;
          entropy = entropy XOR push_bit 17 (os_frame_addr os);
          entropy = entropy XOR os_fallback_counter os;
          os = os\<lparr>os_fallback_counter := os_fallback_counter os + 0x9e3779b97f4a7c15\<rparr>;
          (ts, os) = os_take_clock os;
          entropy = (case ts of
                       None \<Rightarrow> entropy
                     | Some (sec, nsec) \<Rightarrow> entropy XOR (push_bit 32 (ucast sec) XOR ucast nsec));
          entropy = entropy XOR push_bit 32 (ucast (os_pid os));
          entropy = llam_public_slot_mix64 entropy
      in (if entropy \<noteq> 0 then entropy else 0xd6e8feb86659fd93, os))"

section \<open>Handle words\<close>

definition LLAM_PUBLIC_SLOT_WORD_BITS :: nat where
  "LLAM_PUBLIC_SLOT_WORD_BITS = 64"

definition llam_public_slot_encode_handle :: "u64 \<Rightarrow> u32 \<Rightarrow> nat \<Rightarrow> u64" where
  "llam_public_slot_encode_handle slot generation shift =
     (let slot_word = slot + 1 in
      if generation = 0 \<or> shift = 0 \<or> LLAM_PUBLIC_SLOT_WORD_BITS \<le> shift \<or> slot_word = 0 \<or>
         (0 < shift \<and> drop_bit shift UINT64_MAX < slot_word) \<or>
         (0 < shift \<and> drop_bit shift (ucast generation :: u64) \<noteq> 0)
      then 0
      else push_bit shift slot_word OR ucast generation)"

definition llam_public_slot_decode_handle :: "u64 \<Rightarrow> nat \<Rightarrow> (u64 \<times> u32) option" where
  "llam_public_slot_decode_handle raw shift =
     (if shift = 0 \<or> LLAM_PUBLIC_SLOT_WORD_BITS \<le> shift then None
      else let slot_word = drop_bit shift raw;
               generation_bits = (if shift < 32 then raw AND (push_bit shift 1 - 1)
                                  else raw AND ucast UINT32_MAX)
           in if 32 < shift \<and> raw AND ((push_bit shift 1 - 1) AND NOT (ucast UINT32_MAX)) \<noteq> 0 then None
              else let generation = (ucast generation_bits :: u32) in
                   if slot_word = 0 \<or> generation = 0 then None
                   else Some (slot_word - 1, generation))"

section \<open>The affine seal\<close>

definition LLAM_PUBLIC_HANDLE_FAMILY_BITS :: nat where
  "LLAM_PUBLIC_HANDLE_FAMILY_BITS = 4"

definition LLAM_PUBLIC_HANDLE_FAMILY_MASK :: u32 where
  "LLAM_PUBLIC_HANDLE_FAMILY_MASK = push_bit LLAM_PUBLIC_HANDLE_FAMILY_BITS 1 - 1"

definition LLAM_PUBLIC_HANDLE_EPOCH_MASK :: u32 where
  "LLAM_PUBLIC_HANDLE_EPOCH_MASK = drop_bit LLAM_PUBLIC_HANDLE_FAMILY_BITS UINT32_MAX"

definition llam_public_slot_family_valid :: "u32 \<Rightarrow> bool" where
  "llam_public_slot_family_valid family \<longleftrightarrow> family \<noteq> 0 \<and> family \<le> LLAM_PUBLIC_HANDLE_FAMILY_MASK"

definition llam_public_slot_family_generation :: "u32 \<Rightarrow> u32 \<Rightarrow> u32" where
  "llam_public_slot_family_generation epoch family =
     push_bit LLAM_PUBLIC_HANDLE_FAMILY_BITS epoch OR family"

definition llam_public_slot_affine_multiplier_valid :: "u32 \<Rightarrow> bool" where
  "llam_public_slot_affine_multiplier_valid multiplier \<longleftrightarrow>
     multiplier \<noteq> 0 \<and> multiplier mod 3 \<noteq> 0 \<and> multiplier mod 5 \<noteq> 0 \<and> multiplier mod 29 \<noteq> 0 \<and>
     multiplier mod 43 \<noteq> 0 \<and> multiplier mod 113 \<noteq> 0 \<and> multiplier mod 127 \<noteq> 0"

definition llam_public_slot_mersenne28_reduce :: "u64 \<Rightarrow> u32" where
  "llam_public_slot_mersenne28_reduce value =
     (let m = (ucast LLAM_PUBLIC_HANDLE_EPOCH_MASK :: u64);
          reduced = (value AND m) + drop_bit 28 value;
          reduced = (reduced AND m) + drop_bit 28 reduced;
          reduced = (if m \<le> reduced then reduced - m else reduced)
      in ucast reduced)"

text \<open>The \<^verbatim>\<open>while\<close> loop of the multiplier search: step to the next value, wrapping to 1.\<close>

function affine_multiplier_search :: "u32 \<Rightarrow> u32" where
  "affine_multiplier_search multiplier =
     (if llam_public_slot_affine_multiplier_valid multiplier then multiplier
      else let multiplier = multiplier + 1 in
           affine_multiplier_search
             (if multiplier = 0 \<or> LLAM_PUBLIC_HANDLE_EPOCH_MASK < multiplier then 1 else multiplier))"
  by pat_completeness auto


lemma epoch_mask_eq: "LLAM_PUBLIC_HANDLE_EPOCH_MASK = 268435455"
  by (simp add: LLAM_PUBLIC_HANDLE_EPOCH_MASK_def LLAM_PUBLIC_HANDLE_FAMILY_BITS_def
      mask_eq_exp_minus_1)

lemma family_mask_eq: "LLAM_PUBLIC_HANDLE_FAMILY_MASK = 15"
  by (simp add: LLAM_PUBLIC_HANDLE_FAMILY_MASK_def LLAM_PUBLIC_HANDLE_FAMILY_BITS_def)

lemma affine_multiplier_valid_1: "llam_public_slot_affine_multiplier_valid 1"
  by (simp add: llam_public_slot_affine_multiplier_valid_def)

definition affine_search_measure :: "u32 \<Rightarrow> nat" where
  "affine_search_measure m =
     (if m = 1 then 0 else if m = 0 \<or> 268435455 < unat m then 1 else 268435455 - unat m + 2)"

lemma affine_search_decreases:
  assumes "\<not> llam_public_slot_affine_multiplier_valid m" and "n = m + 1"
  shows "affine_search_measure (if n = 0 \<or> LLAM_PUBLIC_HANDLE_EPOCH_MASK < n then 1 else n)
    < affine_search_measure m"
proof -
  have m1: "m \<noteq> 1" using assms(1) affine_multiplier_valid_1 by auto
  show ?thesis
  proof (cases "n = 0 \<or> LLAM_PUBLIC_HANDLE_EPOCH_MASK < n")
    case True
    with m1 show ?thesis by (auto simp: affine_search_measure_def)
  next
    case False
    then have "m \<noteq> - 1" using assms(2) by auto
    then have u: "unat n = Suc (unat m)" using assms(2) by (simp add: unat_Suc_no_wrap)
    have "unat n \<le> 268435455"
      using False by (simp add: epoch_mask_eq word_le_nat_alt not_less)
    moreover have "m \<noteq> 0 \<or> n = 1" using assms(2) by auto
    ultimately show ?thesis
      using False m1 u by (auto simp: affine_search_measure_def)
  qed
qed

termination affine_multiplier_search
proof (relation "measure affine_search_measure")
  show "wf (measure affine_search_measure)" by simp
next
  fix m n assume "\<not> llam_public_slot_affine_multiplier_valid m" and "n = m + 1"
  then show "(if n = 0 \<or> LLAM_PUBLIC_HANDLE_EPOCH_MASK < n then 1 else n, m)
      \<in> measure affine_search_measure"
    unfolding in_measure by (rule affine_search_decreases)
qed

declare affine_multiplier_search.simps [simp del]

definition llam_public_slot_choose_affine_multiplier :: "u64 \<Rightarrow> u32" where
  "llam_public_slot_choose_affine_multiplier seed =
     (let multiplier = llam_public_slot_mersenne28_reduce seed;
          multiplier = (if multiplier = 0 then 1 else multiplier)
      in affine_multiplier_search multiplier)"

definition llam_public_slot_affine_epoch_token :: "u32 \<Rightarrow> u32 \<Rightarrow> u32 \<Rightarrow> u32" where
  "llam_public_slot_affine_epoch_token epoch multiplier addend =
     (let epoch = (if epoch = 0 then 1 else epoch);
          index = (ucast (epoch - 1) :: u64)
      in llam_public_slot_mersenne28_reduce (index * ucast multiplier + ucast addend) + 1)"

definition llam_public_slot_next_affine_token :: "u32 \<Rightarrow> u32 \<Rightarrow> u32 \<Rightarrow> u32 \<Rightarrow> u32" where
  "llam_public_slot_next_affine_token previous_generation family seal_multiplier seal_addend =
     (if previous_generation \<noteq> 0 \<and> previous_generation AND LLAM_PUBLIC_HANDLE_FAMILY_MASK = family
      then let token = drop_bit LLAM_PUBLIC_HANDLE_FAMILY_BITS previous_generation;
               zero_based = (if token \<noteq> 0 then token - 1 else 0);
               zero_based = zero_based + seal_multiplier;
               zero_based = (if LLAM_PUBLIC_HANDLE_EPOCH_MASK \<le> zero_based
                             then zero_based - LLAM_PUBLIC_HANDLE_EPOCH_MASK else zero_based)
           in zero_based + 1
      else seal_addend + 1)"

definition llam_public_slot_next_affine_generation :: "u32 \<Rightarrow> u32 \<Rightarrow> u32 \<Rightarrow> u32 \<Rightarrow> u32" where
  "llam_public_slot_next_affine_generation previous_generation family seal_multiplier seal_addend =
     llam_public_slot_family_generation
       (llam_public_slot_next_affine_token previous_generation family seal_multiplier seal_addend)
       family"

definition llam_public_slot_family_generation_for_epoch :: "u32 \<Rightarrow> u32 \<Rightarrow> u32 \<Rightarrow> u32 \<Rightarrow> u32" where
  "llam_public_slot_family_generation_for_epoch family epoch seal_multiplier seal_addend =
     llam_public_slot_family_generation
       (llam_public_slot_affine_epoch_token epoch seal_multiplier seal_addend) family"

definition llam_public_slot_initial_generation_for_slot :: "u32 \<Rightarrow> u32 \<Rightarrow> u32 \<Rightarrow> u32 \<Rightarrow> u32" where
  "llam_public_slot_initial_generation_for_slot family epoch seal_multiplier seal_addend =
     (if family = 0 then 1
      else llam_public_slot_family_generation_for_epoch family epoch seal_multiplier seal_addend)"

subsection \<open>The seal computes modulo \<open>2^28 - 1\<close>\<close>

abbreviation M28 :: nat where
  "M28 \<equiv> 268435455"

lemma mersenne_fold_mod: "(v mod 2 ^ 28 + v div 2 ^ 28) mod M28 = v mod M28"
proof -
  have "v = v div 2 ^ 28 * 2 ^ 28 + v mod 2 ^ 28"
    by simp
  also have "\<dots> = v mod 2 ^ 28 + v div 2 ^ 28 + v div 2 ^ 28 * M28"
    by simp
  finally show ?thesis
    by (metis mod_mult_self1)
qed

lemma unat_and_M28: "unat (x AND ucast LLAM_PUBLIC_HANDLE_EPOCH_MASK) = unat x mod 2 ^ 28"
  for x :: u64
proof -
  have "(ucast LLAM_PUBLIC_HANDLE_EPOCH_MASK :: u64) = mask 28"
    by (simp add: epoch_mask_eq mask_eq_exp_minus_1)
  then show ?thesis by (simp only: unat_and_mask_mod)
qed

lemma mersenne28_reduce_unat:
  "unat (llam_public_slot_mersenne28_reduce v) = unat v mod M28"
proof -
  let ?m = "ucast LLAM_PUBLIC_HANDLE_EPOCH_MASK :: u64"
  define r1 where "r1 = (v AND ?m) + drop_bit 28 v"
  define r2 where "r2 = (r1 AND ?m) + drop_bit 28 r1"
  have m: "unat ?m = M28" by (simp add: epoch_mask_eq)
  have vlt: "unat v < 2 ^ 64" using unsigned_less [of v, where ?'a = nat] by simp
  then have d1: "unat v div 2 ^ 28 < 2 ^ 36" by (simp add: less_mult_imp_div_less)
  have u1: "unat r1 = unat v mod 2 ^ 28 + unat v div 2 ^ 28"
  proof -
    have "unat (v AND ?m) + unat (drop_bit 28 v) < 2 ^ LENGTH(64)"
      using d1 mod_less_divisor [of "2 ^ 28" "unat v"]
      unfolding unat_and_M28 unat_drop_bit_div by simp
    then show ?thesis
      unfolding r1_def by (simp only: unat_add_lem [THEN iffD1] unat_and_M28 unat_drop_bit_div)
  qed
  have "unat v mod 2 ^ 28 < 2 ^ 28" by simp
  then have r1lt: "unat r1 < 2 ^ 37" using d1 unfolding u1 by simp
  then have d2: "unat r1 div 2 ^ 28 < 2 ^ 9" by (simp add: less_mult_imp_div_less)
  have u2: "unat r2 = unat r1 mod 2 ^ 28 + unat r1 div 2 ^ 28"
  proof -
    have "unat (r1 AND ?m) + unat (drop_bit 28 r1) < 2 ^ LENGTH(64)"
      using d2 mod_less_divisor [of "2 ^ 28" "unat r1"]
      unfolding unat_and_M28 unat_drop_bit_div by simp
    then show ?thesis
      unfolding r2_def by (simp only: unat_add_lem [THEN iffD1] unat_and_M28 unat_drop_bit_div)
  qed
  have "unat r1 mod 2 ^ 28 < 2 ^ 28" by simp
  then have r2lt: "unat r2 < 2 * M28" using d2 unfolding u2 by simp
  have cong: "unat r2 mod M28 = unat v mod M28"
    by (simp only: u2 u1 mersenne_fold_mod)
  have red: "llam_public_slot_mersenne28_reduce v = ucast (if ?m \<le> r2 then r2 - ?m else r2)"
    by (simp add: llam_public_slot_mersenne28_reduce_def r1_def r2_def Let_def)
  show ?thesis
  proof (cases "?m \<le> r2")
    case True
    then have le: "M28 \<le> unat r2" using m by (simp add: word_le_nat_alt)
    have "unat (r2 - ?m) = unat r2 - M28" using True m by (simp add: unat_sub)
    moreover have "unat r2 - M28 = unat r2 mod M28"
      using le r2lt by (simp add: le_mod_geq)
    ultimately have "unat (r2 - ?m) = unat v mod M28" using cong by simp
    moreover have "\<dots> < M28" by simp
    ultimately show ?thesis using True red by (simp add: unat_ucast_small)
  next
    case False
    then have "unat r2 < M28" using m by (simp add: word_le_nat_alt)
    then show ?thesis using False red cong by (simp add: unat_ucast_small)
  qed
qed

subsection \<open>Valid multipliers generate the whole token domain\<close>

lemma coprime_residue:
  fixes m p :: nat
  assumes "m mod p \<noteq> 0" "0 < p" "list_all (\<lambda>r. gcd p r = 1) [1..<p]"
  shows "coprime m p"
proof -
  have "m mod p \<in> set [1..<p]" using assms(1,2) by simp
  with assms(3) have "gcd p (m mod p) = 1" unfolding list_all_iff by blast
  then have "gcd m p = 1" by (metis gcd.commute gcd_red_nat)
  then show ?thesis by (simp add: coprime_iff_gcd_eq_1)
qed

lemma unat_mod_numeral_eq_0: "x mod numeral k = 0 \<longleftrightarrow> unat x mod unat (numeral k :: u32) = 0"
  for x :: u32
  by (simp add: word_arith_nat_mod [symmetric] unat_eq_0 [symmetric] unat_mod_distrib)

lemma affine_multiplier_coprime:
  assumes "llam_public_slot_affine_multiplier_valid m"
  shows "coprime (unat m) M28"
proof -
  let ?n = "unat m"
  have r: "?n mod 3 \<noteq> 0" "?n mod 5 \<noteq> 0" "?n mod 29 \<noteq> 0" "?n mod 43 \<noteq> 0" "?n mod 113 \<noteq> 0" "?n mod 127 \<noteq> 0"
    using assms unfolding llam_public_slot_affine_multiplier_valid_def unat_mod_numeral_eq_0
    by simp_all
  have "coprime ?n 3" by (rule coprime_residue [OF r(1)]) (simp, code_simp)
  moreover have "coprime ?n 5" by (rule coprime_residue [OF r(2)]) (simp, code_simp)
  moreover have "coprime ?n 29" by (rule coprime_residue [OF r(3)]) (simp, code_simp)
  moreover have "coprime ?n 43" by (rule coprime_residue [OF r(4)]) (simp, code_simp)
  moreover have "coprime ?n 113" by (rule coprime_residue [OF r(5)]) (simp, code_simp)
  moreover have "coprime ?n 127" by (rule coprime_residue [OF r(6)]) (simp, code_simp)
  ultimately have "coprime ?n (3 * 5 * 29 * 43 * 113 * 127)"
    by (simp only: coprime_mult_right_iff)
  then show ?thesis by simp
qed

lemma affine_index_inj:
  fixes m a j k :: nat
  assumes "coprime m M28" "j < M28" "k < M28" "(j * m + a) mod M28 = (k * m + a) mod M28"
  shows "j = k"
proof -
  have "k = j" if le: "j \<le> k" and lt: "k < M28" and eq: "(j * m + a) mod M28 = (k * m + a) mod M28"
    for j k
  proof -
    have "j * m + a \<le> k * m + a" using le by simp
    with eq have "M28 dvd (k * m + a) - (j * m + a)"
      by (metis mod_eq_dvd_iff_nat)
    then have "M28 dvd (k - j) * m" by (simp add: diff_mult_distrib)
    with assms(1) have "M28 dvd k - j"
      by (simp add: coprime_dvd_mult_left_iff coprime_commute)
    moreover have "k - j < M28" using lt by simp
    ultimately have "k - j = 0" by (meson dvd_imp_le leD neq0_conv)
    with le show ?thesis by simp
  qed
  from this [of j k] this [of k j] assms(2-) show ?thesis by (metis nat_le_linear)
qed

lemma affine_multiplier_search_valid:
  "llam_public_slot_affine_multiplier_valid (affine_multiplier_search m)"
proof (induction m rule: affine_multiplier_search.induct)
  case (1 m)
  then show ?case
    by (subst affine_multiplier_search.simps) (simp add: Let_def)
qed

lemma affine_multiplier_search_range:
  "m \<le> LLAM_PUBLIC_HANDLE_EPOCH_MASK \<Longrightarrow> affine_multiplier_search m \<le> LLAM_PUBLIC_HANDLE_EPOCH_MASK"
proof (induction m rule: affine_multiplier_search.induct)
  case (1 m)
  have one: "(1 :: u32) \<le> LLAM_PUBLIC_HANDLE_EPOCH_MASK" by (simp add: epoch_mask_eq)
  show ?case
  proof (cases "llam_public_slot_affine_multiplier_valid m")
    case True
    with "1.prems" show ?thesis by (subst affine_multiplier_search.simps) simp
  next
    case False
    with "1.IH" [OF False refl] one show ?thesis
      by (subst affine_multiplier_search.simps) (simp add: Let_def not_less split: if_splits)
  qed
qed

lemma affine_multiplier_lt:
  assumes "llam_public_slot_affine_multiplier_valid m" "m \<le> LLAM_PUBLIC_HANDLE_EPOCH_MASK"
  shows "unat m < M28"
proof -
  have "unat m \<le> M28" using assms(2) by (simp add: epoch_mask_eq word_le_nat_alt)
  moreover have "unat m \<noteq> M28"
  proof
    assume "unat m = M28"
    then have "coprime M28 M28" using affine_multiplier_coprime [OF assms(1)] by simp
    then show False by simp
  qed
  ultimately show ?thesis by simp
qed

lemma family_generation_split:
  assumes "unat t < 2 ^ 28" "llam_public_slot_family_valid family"
  shows "llam_public_slot_family_generation t family AND LLAM_PUBLIC_HANDLE_FAMILY_MASK = family"
    and "drop_bit LLAM_PUBLIC_HANDLE_FAMILY_BITS (llam_public_slot_family_generation t family) = t"
    and "llam_public_slot_family_generation t family \<noteq> 0"
proof -
  have f: "unat family < 2 ^ 4" "family \<noteq> 0"
    using assms(2)
    by (simp_all add: llam_public_slot_family_valid_def family_mask_eq word_le_nat_alt)
  have fm: "LLAM_PUBLIC_HANDLE_FAMILY_MASK = mask 4"
    by (simp add: family_mask_eq mask_eq_exp_minus_1)
  show m: "llam_public_slot_family_generation t family AND LLAM_PUBLIC_HANDLE_FAMILY_MASK = family"
    unfolding llam_public_slot_family_generation_def LLAM_PUBLIC_HANDLE_FAMILY_BITS_def fm
    by (rule pack_low [OF f(1)])
  show "drop_bit LLAM_PUBLIC_HANDLE_FAMILY_BITS (llam_public_slot_family_generation t family) = t"
    unfolding llam_public_slot_family_generation_def LLAM_PUBLIC_HANDLE_FAMILY_BITS_def
    by (rule pack_high [OF f(1)]) (use assms(1) in simp)
  show "llam_public_slot_family_generation t family \<noteq> 0"
    using m f(2) by auto
qed

subsection \<open>Tokens and generations by epoch\<close>

definition seal_ok :: "u32 \<Rightarrow> u32 \<Rightarrow> bool" where
  "seal_ok multiplier addend \<longleftrightarrow>
     llam_public_slot_affine_multiplier_valid multiplier \<and>
     multiplier \<le> LLAM_PUBLIC_HANDLE_EPOCH_MASK \<and> addend < LLAM_PUBLIC_HANDLE_EPOCH_MASK"

definition epoch_ok :: "u32 \<Rightarrow> bool" where
  "epoch_ok epoch \<longleftrightarrow> epoch \<noteq> 0 \<and> epoch \<le> LLAM_PUBLIC_HANDLE_EPOCH_MASK"

lemma epoch_ok_unat: "epoch_ok e \<longleftrightarrow> 0 < unat e \<and> unat e \<le> M28"
  by (simp add: epoch_ok_def epoch_mask_eq word_le_nat_alt unat_gt_0)

lemma seal_okD:
  assumes "seal_ok m a"
  shows "unat m < M28" "unat a < M28" "coprime (unat m) M28"
  using assms affine_multiplier_lt affine_multiplier_coprime
  by (auto simp: seal_ok_def epoch_mask_eq word_less_nat_alt)

lemma affine_epoch_token_unat:
  assumes "seal_ok m a" "epoch_ok e"
  shows "unat (llam_public_slot_affine_epoch_token e m a)
    = ((unat e - 1) * unat m + unat a) mod M28 + 1"
proof -
  let ?i = "ucast (e - 1) :: u64"
  have e: "0 < unat e" "unat e \<le> M28" using assms(2) by (simp_all add: epoch_ok_unat)
  have i: "unat ?i = unat e - 1"
    using e(1) by (simp add: unat_minus_one unat_gt_0)
  have b: "unat ?i * unat m \<le> M28 * M28"
    using e seal_okD(1) [OF assms(1)] unfolding i by (intro mult_le_mono) simp_all
  then have mul: "unat (?i * ucast m) = unat ?i * unat m"
    by (simp add: unat_word_ariths)
  have "unat (?i * ucast m + ucast a) = unat ?i * unat m + unat a"
    using b seal_okD(2) [OF assms(1)] by (simp add: unat_word_ariths)
  then have "unat (llam_public_slot_mersenne28_reduce (?i * ucast m + ucast a))
      = ((unat e - 1) * unat m + unat a) mod M28"
    by (simp only: mersenne28_reduce_unat i)
  moreover have "((unat e - 1) * unat m + unat a) mod M28 < M28" by simp
  ultimately show ?thesis
    using e(1) by (simp add: llam_public_slot_affine_epoch_token_def Let_def unat_word_ariths unat_gt_0)
qed

lemma affine_epoch_token_range:
  assumes "seal_ok m a" "epoch_ok e"
  shows "0 < unat (llam_public_slot_affine_epoch_token e m a)"
    and "unat (llam_public_slot_affine_epoch_token e m a) \<le> M28"
  using mod_less_divisor [of M28 "(unat e - 1) * unat m + unat a"]
  by (simp_all add: affine_epoch_token_unat [OF assms] del: mod_less_divisor)

lemma affine_epoch_token_inj:
  assumes "seal_ok m a" "epoch_ok e" "epoch_ok f"
    and "llam_public_slot_affine_epoch_token e m a = llam_public_slot_affine_epoch_token f m a"
  shows "e = f"
proof -
  have "unat e - 1 = unat f - 1"
  proof (rule affine_index_inj)
    show "coprime (unat m) M28" using assms(1) by (rule seal_okD)
    show "unat e - 1 < M28" "unat f - 1 < M28" using assms(2,3) by (auto simp: epoch_ok_unat)
    show "((unat e - 1) * unat m + unat a) mod M28 = ((unat f - 1) * unat m + unat a) mod M28"
      using affine_epoch_token_unat [OF assms(1,2)] affine_epoch_token_unat [OF assms(1,3)] assms(4)
      by simp
  qed
  with assms(2,3) have "unat e = unat f" by (auto simp: epoch_ok_unat)
  then show ?thesis by (rule word_unat_eq_iff [THEN iffD2])
qed

lemma unat_add_1_small: "unat w < M28 \<Longrightarrow> unat (w + 1) = unat w + 1"
  for w :: u32
  by (simp add: unat_word_ariths)

lemma next_affine_token_unat:
  assumes "seal_ok m a" "llam_public_slot_family_valid fam" "0 < unat t" "unat t \<le> M28"
  shows "unat (llam_public_slot_next_affine_token (llam_public_slot_family_generation t fam) fam m a)
    = (unat t - 1 + unat m) mod M28 + 1"
proof -
  let ?g = "llam_public_slot_family_generation t fam"
  let ?z = "t - 1 + m"
  have t: "unat t < 2 ^ 28" using assms(4) by simp
  note sp = family_generation_split [OF t assms(2)]
  have mlt: "unat m < M28" using assms(1) by (rule seal_okD)
  have t0: "t \<noteq> 0" using assms(3) by auto
  have z: "unat ?z = unat t - 1 + unat m"
    using assms(3,4) mlt t0 by (simp add: unat_word_ariths unat_minus_one)
  have nt: "llam_public_slot_next_affine_token ?g fam m a =
      (if LLAM_PUBLIC_HANDLE_EPOCH_MASK \<le> ?z then ?z - LLAM_PUBLIC_HANDLE_EPOCH_MASK else ?z) + 1"
    using sp t0 by (simp add: llam_public_slot_next_affine_token_def Let_def)
  show ?thesis
  proof (cases "LLAM_PUBLIC_HANDLE_EPOCH_MASK \<le> ?z")
    case True
    then have le: "M28 \<le> unat t - 1 + unat m" using z by (simp add: epoch_mask_eq word_le_nat_alt)
    have "unat (?z - LLAM_PUBLIC_HANDLE_EPOCH_MASK) = unat t - 1 + unat m - M28"
      unfolding unat_sub [OF True] z by (simp add: epoch_mask_eq)
    also have "\<dots> = (unat t - 1 + unat m) mod M28"
      using le assms(4) mlt by (simp add: le_mod_geq)
    finally have u: "unat (?z - LLAM_PUBLIC_HANDLE_EPOCH_MASK) = (unat t - 1 + unat m) mod M28" .
    then have "unat (?z - LLAM_PUBLIC_HANDLE_EPOCH_MASK) < M28" by simp
    then show ?thesis unfolding nt if_P [OF True] by (simp only: unat_add_1_small u)
  next
    case False
    then have "unat t - 1 + unat m < M28" using z by (simp add: epoch_mask_eq word_le_nat_alt)
    with z have u: "unat ?z < M28" "unat ?z = (unat t - 1 + unat m) mod M28" by simp_all
    show ?thesis unfolding nt if_not_P [OF False] unat_add_1_small [OF u(1)] u(2) ..
  qed
qed

lemma gen_for_epoch_1:
  assumes "seal_ok m a"
  shows "llam_public_slot_next_affine_generation 0 fam m a
    = llam_public_slot_family_generation_for_epoch fam 1 m a"
proof -
  have "unat (llam_public_slot_affine_epoch_token 1 m a) = unat (a + 1)"
    using affine_epoch_token_unat [OF assms, of 1] seal_okD(2) [OF assms]
    by (simp add: epoch_ok_unat unat_word_ariths)
  then have "llam_public_slot_affine_epoch_token 1 m a = a + 1"
    by (rule word_unat_eq_iff [THEN iffD2])
  then show ?thesis
    by (simp add: llam_public_slot_next_affine_generation_def llam_public_slot_next_affine_token_def
        llam_public_slot_family_generation_for_epoch_def)
qed

lemma gen_for_epoch_Suc:
  assumes "seal_ok m a" "llam_public_slot_family_valid fam" "epoch_ok e" "epoch_ok (e + 1)"
  shows "llam_public_slot_next_affine_generation
      (llam_public_slot_family_generation_for_epoch fam e m a) fam m a
    = llam_public_slot_family_generation_for_epoch fam (e + 1) m a"
proof -
  let ?t = "llam_public_slot_affine_epoch_token e m a"
  have "e \<noteq> - 1" using assms(4) by (auto simp: epoch_ok_def)
  then have e1: "unat (e + 1) = Suc (unat e)" by (rule unat_Suc_no_wrap)
  have e0: "0 < unat e" using assms(3) by (simp add: epoch_ok_unat)
  have "unat (llam_public_slot_next_affine_token (llam_public_slot_family_generation ?t fam) fam m a)
      = (unat ?t - 1 + unat m) mod M28 + 1"
    by (rule next_affine_token_unat [OF assms(1,2) affine_epoch_token_range [OF assms(1,3)]])
  also have "\<dots> = ((unat e - 1) * unat m + unat a + unat m) mod M28 + 1"
    unfolding affine_epoch_token_unat [OF assms(1,3)] by (simp add: mod_add_left_eq)
  also have "(unat e - 1) * unat m + unat a + unat m = (unat (e + 1) - 1) * unat m + unat a"
    using e0 unfolding e1 by (cases "unat e") simp_all
  also have "(\<dots>) mod M28 + 1 = unat (llam_public_slot_affine_epoch_token (e + 1) m a)"
    unfolding affine_epoch_token_unat [OF assms(1,4)] ..
  finally have "llam_public_slot_next_affine_token (llam_public_slot_family_generation ?t fam) fam m a
      = llam_public_slot_affine_epoch_token (e + 1) m a"
    by (rule word_unat_eq_iff [THEN iffD2])
  then show ?thesis
    by (simp add: llam_public_slot_next_affine_generation_def
        llam_public_slot_family_generation_for_epoch_def)
qed

lemma gen_for_epoch_inj:
  assumes "seal_ok m a" "llam_public_slot_family_valid fam" "epoch_ok e" "epoch_ok f"
    and "llam_public_slot_family_generation_for_epoch fam e m a
      = llam_public_slot_family_generation_for_epoch fam f m a"
  shows "e = f"
proof (rule affine_epoch_token_inj [OF assms(1,3,4)])
  have "unat (llam_public_slot_affine_epoch_token e m a) < 2 ^ 28"
    using affine_epoch_token_range(2) [OF assms(1,3)] by simp
  moreover have "unat (llam_public_slot_affine_epoch_token f m a) < 2 ^ 28"
    using affine_epoch_token_range(2) [OF assms(1,4)] by simp
  ultimately show "llam_public_slot_affine_epoch_token e m a = llam_public_slot_affine_epoch_token f m a"
    using assms(2,5) family_generation_split(2)
    unfolding llam_public_slot_family_generation_for_epoch_def by metis
qed

lemma gen_for_epoch_nonzero:
  assumes "seal_ok m a" "llam_public_slot_family_valid fam" "epoch_ok e"
  shows "llam_public_slot_family_generation_for_epoch fam e m a \<noteq> 0"
  using family_generation_split(3) affine_epoch_token_range(2) [OF assms(1,3)] assms(2)
  unfolding llam_public_slot_family_generation_for_epoch_def by simp

section \<open>Slot tables\<close>

text \<open>
  Object pointers are words with 0 for \<^verbatim>\<open>NULL\<close>; \<open>pt_addr\<close> is the address of the table itself,
  which the seal mixes in. Sizes are natural numbers: a table holds at most \<open>2^32 - 1\<close> slots, so no
  \<^verbatim>\<open>size_t\<close> computation wraps on a 64-bit machine.
\<close>

record public_slot =
  ps_object :: u64
  ps_generation :: u32
  ps_epoch :: u32
  ps_seal_multiplier :: u32
  ps_seal_addend :: u32
  ps_next_free_plus_one :: nat

record public_slot_table =
  pt_addr :: u64
  pt_slots :: "public_slot list"
  pt_count :: nat
  pt_capacity :: nat
  pt_free_head_plus_one :: nat
  pt_handle_secret :: u64

definition zero_slot :: public_slot where
  "zero_slot = \<lparr>ps_object = 0, ps_generation = 0, ps_epoch = 0, ps_seal_multiplier = 0,
     ps_seal_addend = 0, ps_next_free_plus_one = 0\<rparr>"

definition LLAM_PUBLIC_HANDLE_MAX_SLOTS :: nat where
  "LLAM_PUBLIC_HANDLE_MAX_SLOTS = 4294967295"

definition llam_public_slot_next_generation :: "u32 \<Rightarrow> u32" where
  "llam_public_slot_next_generation generation =
     (let generation = generation + 1 in generation + (if generation = 0 then 1 else 0))"

definition llam_public_slot_generation_exhausted :: "u32 \<Rightarrow> bool" where
  "llam_public_slot_generation_exhausted generation \<longleftrightarrow> generation = UINT32_MAX"

definition llam_public_slot_table_secret ::
    "os_env \<Rightarrow> public_slot_table \<Rightarrow> u64 \<Rightarrow> u64 \<Rightarrow> u64 \<times> public_slot_table \<times> os_env" where
  "llam_public_slot_table_secret os table object owner_secret =
     (if pt_handle_secret table \<noteq> 0 then (pt_handle_secret table, table, os)
      else let (read, os) = llam_public_slot_entropy_from_os os;
               (secret, os) = (case read of
                   Some secret \<Rightarrow> (secret, os)
                 | None \<Rightarrow> llam_public_slot_fallback_secret os (pt_addr table) object owner_secret);
               (fallback, os) = llam_public_slot_fallback_secret os (pt_addr table) object owner_secret;
               secret = llam_public_slot_mix64 (secret XOR fallback);
               secret = (if secret = 0 then 0xa0761d6478bd642f else secret)
           in (secret, table\<lparr>pt_handle_secret := secret\<rparr>, os))"

definition llam_public_slot_prepare_affine_seal ::
    "os_env \<Rightarrow> public_slot_table \<Rightarrow> public_slot \<Rightarrow> nat \<Rightarrow> u64 \<Rightarrow> u64 \<Rightarrow>
     public_slot \<times> public_slot_table \<times> os_env" where
  "llam_public_slot_prepare_affine_seal os table entry slot object owner_secret =
     (if ps_seal_multiplier entry \<noteq> 0 then (entry, table, os)
      else let (key, table, os) = llam_public_slot_table_secret os table object owner_secret;
               seed = key XOR llam_public_slot_mix64 (push_bit 32 (of_nat (slot + 1)) XOR pt_addr table)
           in (entry\<lparr>ps_seal_multiplier := llam_public_slot_choose_affine_multiplier seed,
                     ps_seal_addend := ucast (llam_public_slot_mix64 (seed XOR 0xa0761d6478bd642f)
                                               mod ucast LLAM_PUBLIC_HANDLE_EPOCH_MASK)\<rparr>,
               table, os))"

function refresh_epoch_loop :: "public_slot \<Rightarrow> u32 \<Rightarrow> u32 \<Rightarrow> bool \<times> public_slot" where
  "refresh_epoch_loop entry previous_generation family =
     (if ps_epoch entry < LLAM_PUBLIC_HANDLE_EPOCH_MASK
      then let entry = entry\<lparr>ps_epoch := ps_epoch entry + 1,
                   ps_generation := llam_public_slot_next_affine_generation previous_generation family
                     (ps_seal_multiplier entry) (ps_seal_addend entry)\<rparr>
           in if ps_generation entry \<noteq> previous_generation then (True, entry)
              else refresh_epoch_loop entry previous_generation family
      else (False, entry))"
  by pat_completeness auto

lemma epoch_succ_decreases:
  "e < LLAM_PUBLIC_HANDLE_EPOCH_MASK \<Longrightarrow> M28 - unat (e + 1) < M28 - unat e"
  by (simp add: unat_Suc_less) (simp add: epoch_mask_eq word_less_nat_alt)

termination refresh_epoch_loop
  by (relation "measure (\<lambda>(entry, previous, family). M28 - unat (ps_epoch entry))")
    (auto simp: epoch_succ_decreases simp del: unsigned_of_nat)

declare refresh_epoch_loop.simps [simp del]

definition llam_public_slot_refresh_family_generation ::
    "os_env \<Rightarrow> public_slot_table \<Rightarrow> public_slot \<Rightarrow> nat \<Rightarrow> u64 \<Rightarrow> u32 \<Rightarrow> u64 \<Rightarrow>
     unit result \<times> public_slot \<times> public_slot_table \<times> os_env" where
  "llam_public_slot_refresh_family_generation os table entry slot object family owner_secret =
     (if object = 0 \<or> \<not> llam_public_slot_family_valid family then (Inl EINVAL, entry, table, os)
      else let previous_generation = ps_generation entry;
               (entry, table, os) =
                 llam_public_slot_prepare_affine_seal os table entry slot object owner_secret
           in if \<not> llam_public_slot_affine_multiplier_valid (ps_seal_multiplier entry) \<or>
                 LLAM_PUBLIC_HANDLE_EPOCH_MASK \<le> ps_seal_addend entry
              then (Inl EINVAL, entry, table, os)
              else (case refresh_epoch_loop entry previous_generation family of
                      (True, entry) \<Rightarrow> (Inr (), entry, table, os)
                    | (False, entry) \<Rightarrow> (Inl EOVERFLOW, entry, table, os)))"

lemma refresh_epoch_loop_frame:
  "refresh_epoch_loop entry previous family = (b, e') \<Longrightarrow>
   ps_next_free_plus_one e' = ps_next_free_plus_one entry \<and> ps_object e' = ps_object entry \<and>
   ps_seal_multiplier e' = ps_seal_multiplier entry \<and> ps_seal_addend e' = ps_seal_addend entry"
proof (induction entry previous family rule: refresh_epoch_loop.induct)
  case (1 entry previous family)
  from "1.prems" show ?case
    by (subst (asm) refresh_epoch_loop.simps) (auto simp: Let_def dest: "1.IH" split: if_splits)
qed

lemma table_secret_frame:
  "llam_public_slot_table_secret os table object owner = (k, t', os') \<Longrightarrow>
   pt_slots t' = pt_slots table \<and> pt_count t' = pt_count table \<and> pt_capacity t' = pt_capacity table \<and>
   pt_free_head_plus_one t' = pt_free_head_plus_one table \<and> pt_addr t' = pt_addr table"
  by (auto simp: llam_public_slot_table_secret_def Let_def split: if_splits prod.splits option.splits)

lemma prepare_affine_seal_frame:
  assumes "llam_public_slot_prepare_affine_seal os table entry slot object owner = (e', t', os')"
  shows "pt_slots t' = pt_slots table \<and> pt_count t' = pt_count table \<and> pt_capacity t' = pt_capacity table \<and>
    pt_free_head_plus_one t' = pt_free_head_plus_one table \<and> pt_addr t' = pt_addr table \<and>
    ps_next_free_plus_one e' = ps_next_free_plus_one entry \<and> ps_object e' = ps_object entry \<and>
    ps_epoch e' = ps_epoch entry \<and> ps_generation e' = ps_generation entry"
  using assms
  by (auto simp: llam_public_slot_prepare_affine_seal_def Let_def split: if_splits prod.splits
      dest: table_secret_frame)

lemma refresh_family_generation_frame:
  assumes "llam_public_slot_refresh_family_generation os table entry slot object family owner
    = (r, e', t', os')"
  shows "pt_slots t' = pt_slots table \<and> pt_count t' = pt_count table \<and> pt_capacity t' = pt_capacity table \<and>
    pt_free_head_plus_one t' = pt_free_head_plus_one table \<and> pt_addr t' = pt_addr table \<and>
    ps_next_free_plus_one e' = ps_next_free_plus_one entry \<and> ps_object e' = ps_object entry"
  using assms
  by (auto simp: llam_public_slot_refresh_family_generation_def Let_def
      split: if_splits prod.splits bool.splits
      dest!: prepare_affine_seal_frame refresh_epoch_loop_frame)

text \<open>
  The \<^verbatim>\<open>while\<close> loop over the free list: pop the head, discard exhausted slots, stop at the first
  slot that can carry a fresh generation. \<open>Inr None\<close> means that the list ran empty.
\<close>

function reserve_from_free_list ::
    "os_env \<Rightarrow> public_slot_table \<Rightarrow> u64 \<Rightarrow> u32 \<Rightarrow> u64 \<Rightarrow>
     (nat \<times> u32) option result \<times> public_slot_table \<times> os_env" where
  "reserve_from_free_list os table object family owner_secret =
     (if pt_free_head_plus_one table = 0 then (Inr None, table, os)
      else let slot = pt_free_head_plus_one table - 1 in
        if length (pt_slots table) \<le> slot then (Inl UNDEFINED, table, os)
        else let entry = pt_slots table ! slot;
                 table = table\<lparr>pt_free_head_plus_one := ps_next_free_plus_one entry\<rparr>;
                 entry = entry\<lparr>ps_next_free_plus_one := 0\<rparr>
             in if (if family \<noteq> 0 then LLAM_PUBLIC_HANDLE_EPOCH_MASK \<le> ps_epoch entry
                    else llam_public_slot_generation_exhausted (ps_generation entry))
                then reserve_from_free_list os
                       (table\<lparr>pt_slots := (pt_slots table)[slot := entry\<lparr>ps_object := 0\<rparr>]\<rparr>)
                       object family owner_secret
                else if family \<noteq> 0 then
                  (case llam_public_slot_refresh_family_generation os table entry slot object
                          family owner_secret of
                     (Inl _, entry, table, os) \<Rightarrow>
                       reserve_from_free_list os
                         (table\<lparr>pt_slots := (pt_slots table)[slot := entry\<lparr>ps_object := 0\<rparr>]\<rparr>)
                         object family owner_secret
                   | (Inr _, entry, table, os) \<Rightarrow>
                       (Inr (Some (slot, ps_generation entry)),
                        table\<lparr>pt_slots := (pt_slots table)[slot := entry\<lparr>ps_object := object\<rparr>]\<rparr>, os))
                else let generation = llam_public_slot_next_generation (ps_generation entry);
                         entry = entry\<lparr>ps_generation := generation, ps_epoch := generation,
                                       ps_seal_multiplier := 0, ps_seal_addend := 0,
                                       ps_object := object\<rparr>
                     in (Inr (Some (slot, generation)),
                         table\<lparr>pt_slots := (pt_slots table)[slot := entry]\<rparr>, os))"
  by pat_completeness auto

definition free_links :: "public_slot_table \<Rightarrow> nat" where
  "free_links table =
     (if pt_free_head_plus_one table = 0 then 0 else 1)
     + length (filter (\<lambda>s. ps_next_free_plus_one s \<noteq> 0) (pt_slots table))"

lemma length_filter_update:
  assumes "i < length xs"
  shows "length (filter P (xs[i := x])) + (if P (xs ! i) then 1 else 0)
    = length (filter P xs) + (if P x then 1 else 0)"
  using assms
proof (induction xs arbitrary: i)
  case (Cons y ys)
  then show ?case by (cases i) auto
qed simp

lemma free_links_pop:
  assumes "pt_free_head_plus_one table \<noteq> 0" and "slot = pt_free_head_plus_one table - 1"
    and "\<not> length (pt_slots table) \<le> slot"
    and "pt_slots t = (pt_slots table)[slot := e']"
    and "pt_free_head_plus_one t = ps_next_free_plus_one (pt_slots table ! slot)"
    and "ps_next_free_plus_one e' = 0"
  shows "free_links t < free_links table"
  using assms(1,3-)
    length_filter_update [of slot "pt_slots table" "\<lambda>s. ps_next_free_plus_one s \<noteq> 0" e']
  by (auto simp: free_links_def split: if_splits)

termination reserve_from_free_list
proof (relation "measure (\<lambda>(os, table, object, family, owner). free_links table)", goal_cases)
  case 1
  show ?case by simp
next
  case (2 os table object family owner x xa xb xc)
  have "free_links (xb\<lparr>pt_slots := (pt_slots xb)[x := xc\<lparr>ps_object := 0\<rparr>]\<rparr>) < free_links table"
    by (rule free_links_pop [OF 2(1-3), where e' = "xc\<lparr>ps_object := 0\<rparr>"]) (simp_all add: 2(4-6))
  then show ?case by simp
next
  case (3 os table object family owner x xa xb xc xaa y a xab ya xac yb)
  have "llam_public_slot_refresh_family_generation os xb xc x object family owner = (Inl a, xab, xac, yb)"
    using 3(9-12) by simp
  note fr = refresh_family_generation_frame [OF this]
  have "free_links (xac\<lparr>pt_slots := (pt_slots xac)[x := xab\<lparr>ps_object := 0\<rparr>]\<rparr>) < free_links table"
    by (rule free_links_pop [OF 3(1-3), where e' = "xab\<lparr>ps_object := 0\<rparr>"]) (simp_all add: fr 3(4-6))
  then show ?case by simp
qed

declare reserve_from_free_list.simps [simp del]

text \<open>Growing the array: double the capacity, or start at the caller's initial capacity.\<close>

definition reserve_new_capacity :: "public_slot_table \<Rightarrow> nat \<Rightarrow> nat" where
  "reserve_new_capacity table initial_capacity =
     (let new_capacity = (if pt_capacity table \<noteq> 0 then pt_capacity table * 2 else initial_capacity);
          new_capacity = (if new_capacity = 0 then 64 else new_capacity)
      in if LLAM_PUBLIC_HANDLE_MAX_SLOTS < new_capacity then LLAM_PUBLIC_HANDLE_MAX_SLOTS else new_capacity)"

definition reserve_grow :: "os_env \<Rightarrow> public_slot_table \<Rightarrow> nat \<Rightarrow> unit result \<times> public_slot_table \<times> os_env" where
  "reserve_grow os table initial_capacity =
     (if pt_count table \<noteq> pt_capacity table then (Inr (), table, os)
      else let new_capacity = reserve_new_capacity table initial_capacity
           in if new_capacity < pt_count table \<or> 18446744073709551615 div 32 < new_capacity
              then (Inl ENOMEM, table, os)
              else (case os_take_calloc os of
                      (False, os) \<Rightarrow> (Inl ENOMEM, table, os)
                    | (True, os) \<Rightarrow>
                        (Inr (),
                         table\<lparr>pt_slots := pt_slots table @
                                 replicate (new_capacity - pt_capacity table) zero_slot,
                               pt_capacity := new_capacity\<rparr>, os)))"

definition llam_public_slot_reserve_impl ::
    "os_env \<Rightarrow> public_slot_table \<Rightarrow> u64 \<Rightarrow> nat \<Rightarrow> u32 \<Rightarrow> u64 \<Rightarrow>
     (nat \<times> u32) result \<times> public_slot_table \<times> os_env" where
  "llam_public_slot_reserve_impl os table object initial_capacity family owner_secret =
     (if object = 0 \<or> (family \<noteq> 0 \<and> \<not> llam_public_slot_family_valid family)
      then (Inl EINVAL, table, os)
      else (case reserve_from_free_list os table object family owner_secret of
        (Inl e, table, os) \<Rightarrow> (Inl e, table, os)
      | (Inr (Some found), table, os) \<Rightarrow> (Inr found, table, os)
      | (Inr None, table, os) \<Rightarrow>
          if LLAM_PUBLIC_HANDLE_MAX_SLOTS \<le> pt_count table then (Inl ENOMEM, table, os)
          else (case reserve_grow os table initial_capacity of
            (Inl e, table, os) \<Rightarrow> (Inl e, table, os)
          | (Inr _, table, os) \<Rightarrow>
              let slot = pt_count table;
                  table = table\<lparr>pt_count := slot + 1\<rparr>
              in if length (pt_slots table) \<le> slot then (Inl UNDEFINED, table, os)
                 else let entry = (pt_slots table ! slot)\<lparr>ps_object := object,
                              ps_epoch := (if family \<noteq> 0 then 0 else 1),
                              ps_seal_multiplier := 0, ps_seal_addend := 0\<rparr>
                      in if family \<noteq> 0 then
                        (case llam_public_slot_refresh_family_generation os table entry slot object
                                family owner_secret of
                           (Inl e, entry, table, os) \<Rightarrow>
                             (Inl e, table\<lparr>pt_slots := (pt_slots table)[slot := entry\<lparr>ps_object := 0\<rparr>]\<rparr>, os)
                         | (Inr _, entry, table, os) \<Rightarrow>
                             (Inr (slot, ps_generation entry),
                              table\<lparr>pt_slots := (pt_slots table)[slot := entry\<lparr>ps_next_free_plus_one := 0\<rparr>]\<rparr>,
                              os))
                      else (Inr (slot, 1),
                            table\<lparr>pt_slots := (pt_slots table)
                              [slot := entry\<lparr>ps_generation := 1, ps_next_free_plus_one := 0\<rparr>]\<rparr>, os))))"

definition llam_public_slot_reserve ::
    "os_env \<Rightarrow> public_slot_table \<Rightarrow> u64 \<Rightarrow> nat \<Rightarrow> (nat \<times> u32) result \<times> public_slot_table \<times> os_env" where
  "llam_public_slot_reserve os table object initial_capacity =
     llam_public_slot_reserve_impl os table object initial_capacity 0 0"

definition llam_public_slot_reserve_family_secret ::
    "os_env \<Rightarrow> public_slot_table \<Rightarrow> u64 \<Rightarrow> nat \<Rightarrow> u32 \<Rightarrow> u64 \<Rightarrow>
     (nat \<times> u32) result \<times> public_slot_table \<times> os_env" where
  "llam_public_slot_reserve_family_secret os table object initial_capacity family owner_secret =
     llam_public_slot_reserve_impl os table object initial_capacity family owner_secret"

definition llam_public_slot_reserve_family ::
    "os_env \<Rightarrow> public_slot_table \<Rightarrow> u64 \<Rightarrow> nat \<Rightarrow> u32 \<Rightarrow>
     (nat \<times> u32) result \<times> public_slot_table \<times> os_env" where
  "llam_public_slot_reserve_family os table object initial_capacity family =
     llam_public_slot_reserve_family_secret os table object initial_capacity family 0"

definition llam_public_slot_resolve :: "public_slot_table \<Rightarrow> nat \<Rightarrow> u32 \<Rightarrow> u64" where
  "llam_public_slot_resolve table slot generation =
     (if generation = 0 \<or> pt_count table \<le> slot then 0
      else let entry = pt_slots table ! slot in
           if ps_generation entry = generation then ps_object entry else 0)"

definition llam_public_slot_resolve_encoded :: "public_slot_table \<Rightarrow> u64 \<Rightarrow> nat \<Rightarrow> u64 \<times> (nat \<times> u32) option" where
  "llam_public_slot_resolve_encoded table raw shift =
     (case llam_public_slot_decode_handle raw shift of
        None \<Rightarrow> (0, None)
      | Some (slot, generation) \<Rightarrow>
          let object = llam_public_slot_resolve table (unat slot) generation
          in (object, if object \<noteq> 0 then Some (unat slot, generation) else None))"

definition llam_public_slot_generation :: "public_slot_table \<Rightarrow> nat \<Rightarrow> u32" where
  "llam_public_slot_generation table slot =
     (if pt_count table \<le> slot \<or> ps_object (pt_slots table ! slot) = 0 then 0
      else ps_generation (pt_slots table ! slot))"

definition llam_public_slot_reactivate_impl ::
    "os_env \<Rightarrow> public_slot_table \<Rightarrow> nat \<Rightarrow> u64 \<Rightarrow> u32 \<Rightarrow> u64 \<Rightarrow> u32 result \<times> public_slot_table \<times> os_env" where
  "llam_public_slot_reactivate_impl os table slot object family owner_secret =
     (if object = 0 \<or> pt_count table \<le> slot \<or> (family \<noteq> 0 \<and> \<not> llam_public_slot_family_valid family)
      then (Inl EINVAL, table, os)
      else let entry = pt_slots table ! slot in
        if ps_object entry \<noteq> object then (Inl EINVAL, table, os)
        else if (if family \<noteq> 0 then LLAM_PUBLIC_HANDLE_EPOCH_MASK \<le> ps_epoch entry
                 else llam_public_slot_generation_exhausted (ps_generation entry))
        then (Inl EOVERFLOW, table, os)
        else if family \<noteq> 0 then
          (case llam_public_slot_refresh_family_generation os table entry slot object family owner_secret of
             (r, entry, table, os) \<Rightarrow>
               (map_sum id (\<lambda>_. ps_generation entry) r,
                table\<lparr>pt_slots := (pt_slots table)[slot := entry]\<rparr>, os))
        else let generation = llam_public_slot_next_generation (ps_generation entry);
                 entry = entry\<lparr>ps_generation := generation, ps_epoch := generation,
                               ps_seal_multiplier := 0, ps_seal_addend := 0\<rparr>
             in (Inr generation, table\<lparr>pt_slots := (pt_slots table)[slot := entry]\<rparr>, os))"

definition llam_public_slot_reactivate ::
    "os_env \<Rightarrow> public_slot_table \<Rightarrow> nat \<Rightarrow> u64 \<Rightarrow> u32 result \<times> public_slot_table \<times> os_env" where
  "llam_public_slot_reactivate os table slot object =
     llam_public_slot_reactivate_impl os table slot object 0 0"

definition llam_public_slot_reactivate_family_secret ::
    "os_env \<Rightarrow> public_slot_table \<Rightarrow> nat \<Rightarrow> u64 \<Rightarrow> u32 \<Rightarrow> u64 \<Rightarrow> u32 result \<times> public_slot_table \<times> os_env" where
  "llam_public_slot_reactivate_family_secret os table slot object family owner_secret =
     llam_public_slot_reactivate_impl os table slot object family owner_secret"

definition llam_public_slot_reactivate_family ::
    "os_env \<Rightarrow> public_slot_table \<Rightarrow> nat \<Rightarrow> u64 \<Rightarrow> u32 \<Rightarrow> u32 result \<times> public_slot_table \<times> os_env" where
  "llam_public_slot_reactivate_family os table slot object family =
     llam_public_slot_reactivate_family_secret os table slot object family 0"

definition llam_public_slot_release :: "public_slot_table \<Rightarrow> nat \<Rightarrow> u64 \<Rightarrow> u32 \<Rightarrow> public_slot_table" where
  "llam_public_slot_release table slot object generation =
     (if pt_count table \<le> slot then table
      else let entry = pt_slots table ! slot in
        if ps_object entry \<noteq> object \<or> ps_generation entry \<noteq> generation then table
        else table\<lparr>pt_slots := (pt_slots table)[slot := entry\<lparr>ps_object := 0,
                        ps_next_free_plus_one := pt_free_head_plus_one table\<rparr>],
                   pt_free_head_plus_one := slot + 1\<rparr>)"

section \<open>Well-formed tables\<close>

text \<open>
  An entry of a family table is either untouched or carries the generation that the closed form of
  the seal gives for its epoch.
\<close>

definition entry_sealed :: "u32 \<Rightarrow> public_slot \<Rightarrow> bool" where
  "entry_sealed family entry \<longleftrightarrow>
     epoch_ok (ps_epoch entry) \<and> seal_ok (ps_seal_multiplier entry) (ps_seal_addend entry) \<and>
     ps_generation entry = llam_public_slot_family_generation_for_epoch family (ps_epoch entry)
       (ps_seal_multiplier entry) (ps_seal_addend entry)"

definition entry_wf :: "u32 \<Rightarrow> public_slot \<Rightarrow> bool" where
  "entry_wf family entry \<longleftrightarrow>
     (ps_epoch entry = 0 \<and> ps_generation entry = 0 \<and> ps_seal_multiplier entry = 0)
     \<or> entry_sealed family entry"

primrec free_chain :: "public_slot list \<Rightarrow> nat \<Rightarrow> nat list \<Rightarrow> bool" where
  "free_chain slots h [] \<longleftrightarrow> h = 0"
| "free_chain slots h (i # is) \<longleftrightarrow>
     h = Suc i \<and> i < length slots \<and> free_chain slots (ps_next_free_plus_one (slots ! i)) is"

definition table_free :: "public_slot_table \<Rightarrow> nat list \<Rightarrow> bool" where
  "table_free table fs \<longleftrightarrow>
     free_chain (pt_slots table) (pt_free_head_plus_one table) fs \<and> distinct fs \<and>
     (\<forall>i\<in>set fs. i < pt_count table \<and> ps_object (pt_slots table ! i) = 0)"

definition table_wf :: "u32 \<Rightarrow> public_slot_table \<Rightarrow> bool" where
  "table_wf family table \<longleftrightarrow>
     pt_capacity table = length (pt_slots table) \<and> pt_count table \<le> pt_capacity table \<and>
     pt_count table \<le> LLAM_PUBLIC_HANDLE_MAX_SLOTS \<and>
     (\<forall>i<pt_count table. entry_sealed family (pt_slots table ! i)) \<and>
     (\<forall>i. pt_count table \<le> i \<and> i < pt_capacity table \<longrightarrow> pt_slots table ! i = zero_slot) \<and>
     (\<exists>fs. table_free table fs)"

lemma choose_affine_multiplier_ok:
  "llam_public_slot_affine_multiplier_valid (llam_public_slot_choose_affine_multiplier seed)"
  "llam_public_slot_choose_affine_multiplier seed \<le> LLAM_PUBLIC_HANDLE_EPOCH_MASK"
proof -
  let ?m = "llam_public_slot_mersenne28_reduce seed"
  have "unat ?m < M28" by (simp add: mersenne28_reduce_unat)
  then have "(if ?m = 0 then 1 else ?m) \<le> LLAM_PUBLIC_HANDLE_EPOCH_MASK"
    by (simp add: epoch_mask_eq word_le_nat_alt)
  then show "llam_public_slot_choose_affine_multiplier seed \<le> LLAM_PUBLIC_HANDLE_EPOCH_MASK"
    by (simp add: llam_public_slot_choose_affine_multiplier_def Let_def affine_multiplier_search_range
        split: if_splits)
qed (simp add: llam_public_slot_choose_affine_multiplier_def affine_multiplier_search_valid Let_def)

lemma seal_addend_ok: "(ucast (x mod ucast LLAM_PUBLIC_HANDLE_EPOCH_MASK) :: u32) < LLAM_PUBLIC_HANDLE_EPOCH_MASK"
  for x :: u64
proof -
  have "unat (x mod ucast LLAM_PUBLIC_HANDLE_EPOCH_MASK) < M28"
    by (simp add: unat_mod_distrib epoch_mask_eq)
  then show ?thesis by (simp add: word_less_nat_alt unat_ucast_small epoch_mask_eq)
qed

lemma prepare_affine_seal_ok:
  assumes "llam_public_slot_prepare_affine_seal os table entry slot object owner = (e', t', os')"
    and "entry_wf family entry"
  shows "seal_ok (ps_seal_multiplier e') (ps_seal_addend e')"
    and "ps_epoch entry \<noteq> 0 \<Longrightarrow> ps_seal_multiplier e' = ps_seal_multiplier entry \<and>
      ps_seal_addend e' = ps_seal_addend entry"
proof -
  have sealed: "entry_sealed family entry" if "ps_seal_multiplier entry \<noteq> 0 \<or> ps_epoch entry \<noteq> 0"
    using assms(2) that by (auto simp: entry_wf_def)
  have nz: "ps_seal_multiplier entry \<noteq> 0" if "entry_sealed family entry"
    using that by (auto simp: entry_sealed_def seal_ok_def llam_public_slot_affine_multiplier_valid_def)
  show "seal_ok (ps_seal_multiplier e') (ps_seal_addend e')"
  proof (cases "ps_seal_multiplier entry = 0")
    case False
    then show ?thesis
      using sealed assms(1) by (auto simp: llam_public_slot_prepare_affine_seal_def entry_sealed_def)
  next
    case True
    have "\<exists>s (x :: u64). e' = entry\<lparr>ps_seal_multiplier := llam_public_slot_choose_affine_multiplier s,
        ps_seal_addend := ucast (x mod ucast LLAM_PUBLIC_HANDLE_EPOCH_MASK)\<rparr>"
      using True assms(1)
      by (simp add: llam_public_slot_prepare_affine_seal_def Let_def split: prod.splits)
        (rule exI, rule exI, erule sym)
    then show ?thesis
      using choose_affine_multiplier_ok seal_addend_ok by (auto simp: seal_ok_def)
  qed
  show "ps_seal_multiplier e' = ps_seal_multiplier entry \<and> ps_seal_addend e' = ps_seal_addend entry"
    if "ps_epoch entry \<noteq> 0"
    using that nz sealed assms(1) by (simp add: llam_public_slot_prepare_affine_seal_def)
qed

text \<open>One refresh moves a well-formed entry to the next epoch, at its first iteration.\<close>

lemma refresh_family_generation_step:
  assumes "entry_wf family entry" "object \<noteq> 0" "llam_public_slot_family_valid family"
    and "ps_epoch entry < LLAM_PUBLIC_HANDLE_EPOCH_MASK"
    and "llam_public_slot_refresh_family_generation os table entry slot object family owner
      = (r, e', t', os')"
  shows "r = Inr ()" "ps_epoch e' = ps_epoch entry + 1" "entry_sealed family e'"
    "ps_epoch entry \<noteq> 0 \<Longrightarrow> ps_seal_multiplier e' = ps_seal_multiplier entry \<and>
      ps_seal_addend e' = ps_seal_addend entry"
proof -
  obtain e1 t1 os1 where p: "llam_public_slot_prepare_affine_seal os table entry slot object owner
      = (e1, t1, os1)" by (metis prod_cases3)
  note ok = prepare_affine_seal_ok [OF p assms(1)] and fr = prepare_affine_seal_frame [OF p]
  let ?m = "ps_seal_multiplier e1" and ?a = "ps_seal_addend e1"
  let ?e2 = "e1\<lparr>ps_epoch := ps_epoch entry + 1, ps_generation :=
    llam_public_slot_next_affine_generation (ps_generation entry) family ?m ?a\<rparr>"
  have ep: "epoch_ok (ps_epoch entry + 1)"
    using assms(4) unat_Suc_less [OF assms(4)] by (simp add: epoch_ok_unat epoch_mask_eq word_less_nat_alt)
  have gen: "llam_public_slot_next_affine_generation (ps_generation entry) family ?m ?a
      = llam_public_slot_family_generation_for_epoch family (ps_epoch entry + 1) ?m ?a"
  proof (cases "ps_epoch entry = 0")
    case True
    then have "ps_generation entry = 0" using assms(1) by (auto simp: entry_wf_def entry_sealed_def epoch_ok_def)
    with True show ?thesis using gen_for_epoch_1 [OF ok(1), of family] by simp
  next
    case False
    then have "entry_sealed family entry" using assms(1) by (simp add: entry_wf_def)
    then show ?thesis
      using gen_for_epoch_Suc [OF ok(1) assms(3) _ ep] ok(2) [OF False] by (simp add: entry_sealed_def)
  qed
  have new: "ps_generation ?e2 \<noteq> ps_generation entry"
  proof (cases "ps_epoch entry = 0")
    case True
    then have "ps_generation entry = 0" using assms(1) by (auto simp: entry_wf_def entry_sealed_def epoch_ok_def)
    then show ?thesis using gen_for_epoch_nonzero [OF ok(1) assms(3) ep] gen by simp
  next
    case False
    then have s: "entry_sealed family entry" using assms(1) by (simp add: entry_wf_def)
    show ?thesis
    proof
      assume "ps_generation ?e2 = ps_generation entry"
      then have "ps_epoch entry + 1 = ps_epoch entry"
        using s ok(2) [OF False] gen
        by (intro gen_for_epoch_inj [OF ok(1) assms(3) ep]) (simp_all add: entry_sealed_def)
      then show False by simp
    qed
  qed
  have loop: "refresh_epoch_loop e1 (ps_generation entry) family = (True, ?e2)"
    using assms(4) fr new by (subst refresh_epoch_loop.simps) (simp add: Let_def)
  have "llam_public_slot_refresh_family_generation os table entry slot object family owner
      = (Inr (), ?e2, t1, os1)"
    using assms(2,3) p loop ok(1)
    by (simp add: llam_public_slot_refresh_family_generation_def Let_def seal_ok_def not_le)
  with assms(5) have e': "r = Inr ()" "e' = ?e2" by simp_all
  show "r = Inr ()" by (rule e')
  show "ps_epoch e' = ps_epoch entry + 1" by (simp add: e')
  show "entry_sealed family e'" using ep ok(1) gen by (simp add: e' entry_sealed_def)
  show "ps_epoch entry \<noteq> 0 \<Longrightarrow> ps_seal_multiplier e' = ps_seal_multiplier entry \<and>
      ps_seal_addend e' = ps_seal_addend entry"
    using ok(2) by (simp add: e')
qed

section \<open>The operations keep the table well-formed\<close>

text \<open>
  The table as a client sees it: a partial map from slot numbers to entries, without the intrusive
  free-list links. A slot that has not been handed out is outside the domain.
\<close>

definition entry_core :: "public_slot \<Rightarrow> public_slot" where
  "entry_core e = e\<lparr>ps_next_free_plus_one := 0\<rparr>"

definition table_abs :: "public_slot_table \<Rightarrow> nat \<rightharpoonup> public_slot" where
  "table_abs table = (\<lambda>i. if i < pt_count table then Some (entry_core (pt_slots table ! i)) else None)"

definition abs_resolve :: "(nat \<rightharpoonup> public_slot) \<Rightarrow> nat \<Rightarrow> u32 \<Rightarrow> u64" where
  "abs_resolve m slot generation = (case m slot of
     None \<Rightarrow> 0 | Some e \<Rightarrow> if generation \<noteq> 0 \<and> ps_generation e = generation then ps_object e else 0)"

text \<open>The entry that a reservation or a reactivation installs over the previous one.\<close>

definition entry_advanced :: "u32 \<Rightarrow> public_slot option \<Rightarrow> u64 \<Rightarrow> public_slot \<Rightarrow> bool" where
  "entry_advanced family old object e' \<longleftrightarrow>
     entry_sealed family e' \<and> ps_object e' = object \<and>
     (case old of None \<Rightarrow> ps_epoch e' = 1
      | Some e \<Rightarrow> ps_epoch e < LLAM_PUBLIC_HANDLE_EPOCH_MASK \<and> ps_epoch e' = ps_epoch e + 1 \<and>
          ps_seal_multiplier e' = ps_seal_multiplier e \<and> ps_seal_addend e' = ps_seal_addend e)"

lemma entry_core_simps [simp]:
  "ps_object (entry_core e) = ps_object e" "ps_generation (entry_core e) = ps_generation e"
  "ps_epoch (entry_core e) = ps_epoch e" "ps_seal_multiplier (entry_core e) = ps_seal_multiplier e"
  "ps_seal_addend (entry_core e) = ps_seal_addend e" "entry_sealed f (entry_core e) = entry_sealed f e"
  "entry_core (e\<lparr>ps_next_free_plus_one := n\<rparr>) = entry_core e"
  "entry_core (entry_core e) = entry_core e"
  by (simp_all add: entry_core_def entry_sealed_def)

lemma resolve_abs: "llam_public_slot_resolve t i g = abs_resolve (table_abs t) i g"
  by (auto simp: llam_public_slot_resolve_def abs_resolve_def table_abs_def Let_def)

lemma free_chain_update:
  "i \<notin> set fs \<Longrightarrow> free_chain (slots[i := e]) h fs = free_chain slots h fs"
  by (induction fs arbitrary: h) (auto simp: nth_list_update)

lemma free_chain_append:
  "free_chain slots h fs \<Longrightarrow> free_chain (slots @ new_slots) h fs"
  by (induction fs arbitrary: h) (auto simp: nth_append)

lemma free_chain_pop:
  assumes "table_free table (i # fs)"
    and "pt_slots t = (pt_slots table)[i := e]" "pt_count t = pt_count table"
    and "pt_free_head_plus_one t = ps_next_free_plus_one (pt_slots table ! i)"
  shows "table_free t fs"
  using assms by (auto simp: table_free_def free_chain_update nth_list_update)

lemma table_wfD:
  assumes "table_wf family table"
  shows "pt_capacity table = length (pt_slots table)" "pt_count table \<le> length (pt_slots table)"
    "i < pt_count table \<Longrightarrow> entry_sealed family (pt_slots table ! i)"
    "pt_count table \<le> j \<Longrightarrow> j < length (pt_slots table) \<Longrightarrow> pt_slots table ! j = zero_slot"
    "\<exists>fs. table_free table fs"
  using assms by (auto simp: table_wf_def)

lemma table_wf_update:
  assumes "table_wf family table" "i < pt_count table" "entry_sealed family e"
    and "pt_slots t = (pt_slots table)[i := e]" "pt_count t = pt_count table"
      "pt_capacity t = pt_capacity table" "table_free t fs"
  shows "table_wf family t"
  using assms unfolding table_wf_def by (auto simp: nth_list_update)

lemma table_abs_update:
  assumes "pt_slots t' = (pt_slots t)[i := e]" "pt_count t' = pt_count t" "i < length (pt_slots t)"
    and "i < pt_count t"
  shows "table_abs t' = (table_abs t)(i \<mapsto> entry_core e)"
  using assms by (auto simp: table_abs_def fun_eq_iff)

lemma sealed_refresh:
  assumes "entry_sealed family e" "object \<noteq> 0" "llam_public_slot_family_valid family"
    and "ps_epoch e < LLAM_PUBLIC_HANDLE_EPOCH_MASK"
    and "llam_public_slot_refresh_family_generation os table e slot object family owner
      = (r, e', t', os')"
  shows "r = Inr () \<and> entry_sealed family e' \<and> entry_advanced family (Some e) (ps_object e) e'"
proof -
  have "entry_wf family e" using assms(1) by (simp add: entry_wf_def)
  note st = refresh_family_generation_step [OF this assms(2-5)]
  have "ps_epoch e \<noteq> 0" using assms(1) by (simp add: entry_sealed_def epoch_ok_def)
  then show ?thesis
    using st refresh_family_generation_frame [OF assms(5)] assms(4) by (simp add: entry_advanced_def)
qed

lemma family_valid_nonzero: "llam_public_slot_family_valid family \<Longrightarrow> family \<noteq> 0"
  by (auto simp: llam_public_slot_family_valid_def)

lemma entry_sealed_object [simp]:
  "entry_sealed f (e\<lparr>ps_object := x\<rparr>) = entry_sealed f e"
  "entry_sealed f (e\<lparr>ps_next_free_plus_one := n\<rparr>) = entry_sealed f e"
  by (simp_all add: entry_sealed_def)

lemma reserve_from_free_list_ok:
  assumes "table_wf family t" "table_free t fs" "object \<noteq> 0" "llam_public_slot_family_valid family"
    and "reserve_from_free_list os t object family owner = (r, t', os')"
  shows "table_wf family t' \<and> pt_count t' = pt_count t \<and>
    ((r = Inr None \<and> table_abs t' = table_abs t \<and> table_free t' []) \<or>
     (\<exists>s e e'. r = Inr (Some (s, ps_generation e')) \<and> table_abs t s = Some e \<and> ps_object e = 0 \<and>
        entry_advanced family (Some e) object e' \<and> table_abs t' = (table_abs t)(s \<mapsto> e')))"
  using assms
proof (induction fs arbitrary: t os)
  case Nil
  then show ?case
    by (auto simp: reserve_from_free_list.simps [of os t] table_free_def)
next
  case (Cons i fs)
  note wf = table_wfD [OF Cons.prems(1)]
  from Cons.prems(2) have head: "pt_free_head_plus_one t = Suc i" and i: "i < length (pt_slots t)"
    and ic: "i < pt_count t" and dead: "ps_object (pt_slots t ! i) = 0"
    by (auto simp: table_free_def)
  let ?e = "pt_slots t ! i"
  let ?t1 = "t\<lparr>pt_free_head_plus_one := ps_next_free_plus_one ?e\<rparr>"
  let ?e1 = "?e\<lparr>ps_next_free_plus_one := 0\<rparr>"
  have sealed: "entry_sealed family ?e" by (rule wf(3) [OF ic])
  note run = Cons.prems(5) [unfolded reserve_from_free_list.simps [of os t]]
  show ?case
  proof (cases "LLAM_PUBLIC_HANDLE_EPOCH_MASK \<le> ps_epoch ?e")
    case True
    let ?t2 = "?t1\<lparr>pt_slots := (pt_slots t)[i := ?e1\<lparr>ps_object := 0\<rparr>]\<rparr>"
    have free: "table_free ?t2 fs" by (rule free_chain_pop [OF Cons.prems(2)]) simp_all
    have wf2: "table_wf family ?t2"
      by (rule table_wf_update [OF Cons.prems(1) ic _ _ _ _ free, of "?e1\<lparr>ps_object := 0\<rparr>"])
        (simp_all add: sealed)
    have "?e1\<lparr>ps_object := 0\<rparr> = ?e1" using dead by simp
    then have "entry_core (?e1\<lparr>ps_object := 0\<rparr>) = entry_core ?e" by simp
    then have same: "table_abs ?t2 = table_abs t"
      using i by (auto simp: table_abs_def fun_eq_iff nth_list_update)
    have "reserve_from_free_list os ?t2 object family owner = (r, t', os')"
      using run True head i family_valid_nonzero [OF Cons.prems(4)] by (simp add: Let_def)
    from Cons.IH [OF wf2 free Cons.prems(3,4) this] show ?thesis by (simp add: same)
  next
    case False
    obtain q e' t2 os2 where
      rf: "llam_public_slot_refresh_family_generation os ?t1 ?e1 i object family owner = (q, e', t2, os2)"
      by (metis prod_cases4)
    have s1: "entry_sealed family ?e1" by (simp add: sealed)
    note st = sealed_refresh [OF s1 Cons.prems(3,4) _ rf]
    note fr = refresh_family_generation_frame [OF rf]
    let ?e2 = "e'\<lparr>ps_object := object\<rparr>"
    have adv: "q = Inr ()" "entry_sealed family e'" "entry_advanced family (Some ?e1) 0 e'"
      using st False dead by auto
    have t': "r = Inr (Some (i, ps_generation e'))" "t' = t2\<lparr>pt_slots := (pt_slots t2)[i := ?e2]\<rparr>"
      using run False head i family_valid_nonzero [OF Cons.prems(4)] rf adv(1) by (simp_all add: Let_def)
    have free: "table_free t' fs" by (rule free_chain_pop [OF Cons.prems(2)]) (simp_all add: t' fr)
    have "table_wf family t'"
      by (rule table_wf_update [OF Cons.prems(1) ic _ _ _ _ free, of ?e2]) (simp_all add: t' fr adv)
    moreover have "table_abs t' = (table_abs t)(i \<mapsto> entry_core ?e2)"
      by (rule table_abs_update) (use i ic in \<open>simp_all add: t' fr\<close>)
    moreover have "entry_advanced family (Some (entry_core ?e)) object (entry_core ?e2)"
      using adv(3) by (simp add: entry_advanced_def)
    ultimately show ?thesis
      using t' ic dead fr
      by (intro conjI disjI2 exI [of _ i] exI [of _ "entry_core ?e"] exI [of _ "entry_core ?e2"])
        (simp_all add: table_abs_def)
  qed
qed

lemma reserve_grow_ok:
  assumes "table_wf family t" "table_free t []" "pt_count t < LLAM_PUBLIC_HANDLE_MAX_SLOTS"
    and "reserve_grow os t initial = (r, t', os')"
  shows "table_wf family t' \<and> table_free t' [] \<and> pt_count t' = pt_count t \<and> table_abs t' = table_abs t \<and>
    (r = Inl ENOMEM \<and> t' = t \<or> r = Inr () \<and> pt_count t' < length (pt_slots t'))"
proof (cases "pt_count t \<noteq> pt_capacity t \<or> r = Inl ENOMEM")
  case True
  then show ?thesis
    using assms table_wfD(1,2) [OF assms(1)]
    by (auto simp: reserve_grow_def Let_def split: if_splits prod.splits bool.splits)
next
  case False
  define n where "n = reserve_new_capacity t initial"
  have n: "t' = t\<lparr>pt_slots := pt_slots t @ replicate (n - pt_capacity t) zero_slot,
      pt_capacity := n\<rparr>" "r = Inr ()" "pt_count t = pt_capacity t"
    using False assms(4)
    by (auto simp: reserve_grow_def Let_def n_def split: if_splits prod.splits bool.splits)
  have "pt_capacity t < n"
    using assms(3) n(3) by (auto simp: n_def reserve_new_capacity_def Let_def)
  note n = n this
  note wf = table_wfD [OF assms(1)]
  have "table_free t' []" using assms(2) by (simp add: n table_free_def)
  moreover have "table_abs t' = table_abs t"
    using n(3) wf(1) by (auto simp: n(1) table_abs_def nth_append)
  moreover have "table_wf family t'"
    using n(3,4) wf assms(3) \<open>table_free t' []\<close> by (auto simp: n(1) table_wf_def nth_append)
  ultimately show ?thesis using n wf(1) by simp
qed

lemma fresh_refresh:
  assumes "object \<noteq> 0" "llam_public_slot_family_valid family"
    and "llam_public_slot_refresh_family_generation os table (zero_slot\<lparr>ps_object := object\<rparr>) slot object
      family owner = (r, e', t', os')"
  shows "r = Inr () \<and> entry_advanced family None object e'"
proof -
  have "entry_wf family (zero_slot\<lparr>ps_object := object\<rparr>)" by (simp add: entry_wf_def zero_slot_def)
  from refresh_family_generation_step [OF this assms(1,2) _ assms(3)] show ?thesis
    using refresh_family_generation_frame [OF assms(3)]
    by (simp add: entry_advanced_def zero_slot_def epoch_mask_eq)
qed

text \<open>A reservation on a well-formed table, against the abstract map.\<close>

lemma reserve_ok:
  assumes "table_wf family t" "object \<noteq> 0" "llam_public_slot_family_valid family"
    and "llam_public_slot_reserve_impl os t object initial family owner = (r, t', os')"
  shows "table_wf family t' \<and>
    ((r = Inl ENOMEM \<and> table_abs t' = table_abs t) \<or>
     (\<exists>s e'. r = Inr (s, ps_generation e') \<and> (\<forall>e. table_abs t s = Some e \<longrightarrow> ps_object e = 0) \<and>
        entry_advanced family (table_abs t s) object e' \<and> table_abs t' = (table_abs t)(s \<mapsto> e')))"
proof -
  obtain fs where free: "table_free t fs" using table_wfD(5) [OF assms(1)] by blast
  obtain q t1 os1 where run: "reserve_from_free_list os t object family owner = (q, t1, os1)"
    by (metis prod_cases3)
  note fam = family_valid_nonzero [OF assms(3)]
  note ff = reserve_from_free_list_ok [OF assms(1) free assms(2,3) run]
  note impl = assms(4) [unfolded llam_public_slot_reserve_impl_def run]
  show ?thesis
  proof (cases "q = Inr None")
    case False
    with ff obtain s e e' where q: "q = Inr (Some (s, ps_generation e'))" and "table_abs t s = Some e"
      "ps_object e = 0" "entry_advanced family (Some e) object e'" "table_abs t1 = (table_abs t)(s \<mapsto> e')"
      by blast
    moreover have "r = Inr (s, ps_generation e')" "t' = t1" using q impl assms(2,3) by simp_all
    ultimately show ?thesis
      using ff by (intro conjI disjI2 exI [of _ s] exI [of _ e']) simp_all
  next
    case None: True
    with ff have wf1: "table_wf family t1" and free1: "table_free t1 []" and abs1: "table_abs t1 = table_abs t"
      by auto
    show ?thesis
    proof (cases "LLAM_PUBLIC_HANDLE_MAX_SLOTS \<le> pt_count t1")
      case True
      with None impl assms(2,3) wf1 abs1 show ?thesis by simp
    next
      case False
      obtain g t2 os2 where grow: "reserve_grow os1 t1 initial = (g, t2, os2)" by (metis prod_cases3)
      from reserve_grow_ok [OF wf1 free1 _ grow] False
      have wf2: "table_wf family t2" and free2: "table_free t2 []" and abs2: "table_abs t2 = table_abs t"
        and limit: "Suc (pt_count t2) \<le> LLAM_PUBLIC_HANDLE_MAX_SLOTS"
        and g: "g = Inl ENOMEM \<or> g = Inr () \<and> pt_count t2 < length (pt_slots t2)"
        by (auto simp: abs1)
      from g show ?thesis
      proof (elim disjE conjE)
        assume "g = Inl ENOMEM"
        with None impl assms(2,3) False grow wf2 abs2 show ?thesis by simp
      next
        assume gr: "g = Inr ()" and room: "pt_count t2 < length (pt_slots t2)"
        let ?s = "pt_count t2" and ?t3 = "t2\<lparr>pt_count := Suc (pt_count t2)\<rparr>"
        have z: "pt_slots t2 ! ?s = zero_slot" using table_wfD(4) [OF wf2] room by simp
        have ze: "zero_slot\<lparr>ps_object := object, ps_epoch := 0, ps_seal_multiplier := 0,
            ps_seal_addend := 0\<rparr> = zero_slot\<lparr>ps_object := object\<rparr>"
          by (simp add: zero_slot_def)
        obtain q2 e' t4 os4 where rf: "llam_public_slot_refresh_family_generation os2 ?t3
            (zero_slot\<lparr>ps_object := object\<rparr>) ?s object family owner = (q2, e', t4, os4)"
          by (metis prod_cases4)
        note fresh = fresh_refresh [OF assms(2,3) rf] and fr = refresh_family_generation_frame [OF rf]
        let ?e = "e'\<lparr>ps_next_free_plus_one := 0\<rparr>"
        have t': "r = Inr (?s, ps_generation e')" "t' = t4\<lparr>pt_slots := (pt_slots t2)[?s := ?e]\<rparr>"
          using None impl assms(2,3) False grow gr room fam z ze rf fresh fr
          by (simp_all add: Let_def)
        have none: "table_abs t ?s = None" by (simp add: abs2 [symmetric]) (simp add: table_abs_def)
        have "table_free t' []" using free2 by (simp add: t' fr table_free_def)
        then have "table_wf family t'"
          using table_wfD [OF wf2] fresh room fr limit
          by (auto simp: t' table_wf_def nth_list_update less_Suc_eq entry_advanced_def)
        moreover have "table_abs t' = (table_abs t)(?s \<mapsto> entry_core ?e)"
          unfolding abs2 [symmetric]
          using room by (auto simp: t' fr table_abs_def fun_eq_iff nth_list_update)
        moreover have "entry_advanced family None object (entry_core ?e)"
          using fresh by (simp add: entry_advanced_def)
        ultimately show ?thesis
          using none t'(1)
          by (intro conjI disjI2 exI [of _ ?s] exI [of _ "entry_core ?e"]) simp_all
      qed
    qed
  qed
qed

lemma reactivate_ok:
  assumes "table_wf family t" "llam_public_slot_family_valid family"
    and "llam_public_slot_reactivate_impl os t slot object family owner = (r, t', os')"
  shows "table_wf family t' \<and>
    ((r \<in> {Inl EINVAL, Inl EOVERFLOW} \<and> t' = t) \<or>
     (\<exists>e e'. table_abs t slot = Some e \<and> ps_object e = object \<and> object \<noteq> 0 \<and>
        r = Inr (ps_generation e') \<and> entry_advanced family (Some e) object e' \<and>
        table_abs t' = (table_abs t)(slot \<mapsto> e')))"
proof (cases "r \<in> {Inl EINVAL, Inl EOVERFLOW} \<and> t' = t")
  case True
  with assms(1) show ?thesis by simp
next
  case False
  note fam = family_valid_nonzero [OF assms(2)]
  let ?e = "pt_slots t ! slot"
  obtain q e' t2 os2 where
    rf: "llam_public_slot_refresh_family_generation os t ?e slot object family owner = (q, e', t2, os2)"
    by (metis prod_cases4)
  have ok: "object \<noteq> 0" "slot < pt_count t" "ps_object ?e = object"
      "ps_epoch ?e < LLAM_PUBLIC_HANDLE_EPOCH_MASK"
      "r = map_sum id (\<lambda>_. ps_generation e') q" "t' = t2\<lparr>pt_slots := (pt_slots t2)[slot := e']\<rparr>"
    using False assms(3) fam rf
    by (auto simp: llam_public_slot_reactivate_impl_def Let_def not_le split: if_splits)
  note wf = table_wfD [OF assms(1)]
  have len: "slot < length (pt_slots t)" using ok(2) wf(2) by simp
  have st: "q = Inr () \<and> entry_sealed family e' \<and> entry_advanced family (Some ?e) (ps_object ?e) e'"
    by (rule sealed_refresh [OF wf(3) [OF ok(2)] ok(1) assms(2) ok(4) rf])
  note fr = refresh_family_generation_frame [OF rf]
  obtain fs where free: "table_free t fs" using wf(5) by blast
  then have "slot \<notin> set fs" using ok(1,3) by (auto simp: table_free_def)
  with free have "table_free t' fs"
    using len by (auto simp: table_free_def ok(6) fr free_chain_update nth_list_update)
  then have "table_wf family t'"
    by (rule table_wf_update [OF assms(1) ok(2), of e', rotated -1]) (simp_all add: ok(6) fr st)
  moreover have "table_abs t' = (table_abs t)(slot \<mapsto> entry_core e')"
    by (rule table_abs_update) (simp_all add: ok(2,6) fr len)
  moreover have "entry_advanced family (Some (entry_core ?e)) object (entry_core e')"
    using st ok(3) by (simp add: entry_advanced_def)
  ultimately show ?thesis
    using ok st
    by (intro conjI disjI2 exI [of _ "entry_core ?e"] exI [of _ "entry_core e'"])
      (simp_all add: table_abs_def)
qed

lemma release_ok:
  assumes "table_wf family t" "object \<noteq> 0"
  shows "table_wf family (llam_public_slot_release t slot object generation) \<and>
    table_abs (llam_public_slot_release t slot object generation) =
      (case table_abs t slot of
         Some e \<Rightarrow> if ps_object e = object \<and> ps_generation e = generation
                   then (table_abs t)(slot \<mapsto> e\<lparr>ps_object := 0\<rparr>) else table_abs t
       | None \<Rightarrow> table_abs t)"
proof (cases "slot < pt_count t \<and> ps_object (pt_slots t ! slot) = object \<and>
    ps_generation (pt_slots t ! slot) = generation")
  case False
  with assms(1) show ?thesis by (auto simp: llam_public_slot_release_def table_abs_def)
next
  case True
  let ?e = "pt_slots t ! slot"
  let ?e' = "?e\<lparr>ps_object := 0, ps_next_free_plus_one := pt_free_head_plus_one t\<rparr>"
  let ?t = "llam_public_slot_release t slot object generation"
  have t': "?t = t\<lparr>pt_slots := (pt_slots t)[slot := ?e'], pt_free_head_plus_one := slot + 1\<rparr>"
    using True by (simp add: llam_public_slot_release_def)
  note wf = table_wfD [OF assms(1)]
  have len: "slot < length (pt_slots t)" using True wf(2) by simp
  obtain fs where free: "table_free t fs" using wf(5) by blast
  then have new: "slot \<notin> set fs" using True assms(2) by (auto simp: table_free_def)
  with free have free': "table_free ?t (slot # fs)"
    using len True by (auto simp: table_free_def t' free_chain_update nth_list_update)
  have "table_wf family ?t"
    by (rule table_wf_update [OF assms(1) _ _ _ _ _ free', of slot ?e'])
      (use True wf(3) [of slot] in \<open>simp_all add: t'\<close>)
  moreover have "table_abs ?t = (table_abs t)(slot \<mapsto> entry_core ?e')"
    by (rule table_abs_update) (use True len in \<open>simp_all add: t'\<close>)
  moreover have "entry_core ?e' = (entry_core ?e)\<lparr>ps_object := 0\<rparr>" by (simp add: entry_core_def)
  ultimately show ?thesis using True by (simp add: table_abs_def)
qed

section \<open>Handle words round-trip\<close>

lemma ucast_u32_u64_small: "unat (x :: u64) < 2 ^ 32 \<Longrightarrow> ucast (ucast x :: u32) = x"
  by (rule word_unat_eq_iff [THEN iffD2]) (simp add: unat_ucast_small)

lemma ucast_u64_u32_id: "(ucast (ucast (g :: u32) :: u64) :: u32) = g"
  by (rule bit_word_eqI) (auto simp: bit_simps)

lemma ucast_u32_eq_0: "(ucast (g :: u32) :: u64) = 0 \<longleftrightarrow> g = 0"
  by (metis ucast_u64_u32_id unsigned_0)

lemma exp_minus_1_mask: "push_bit n (1 :: 'a::len word) - 1 = mask n"
  by (simp add: mask_eq_exp_minus_1 push_bit_eq_mult)

lemma ucast_u32_max: "(ucast (UINT32_MAX) :: u64) = mask 32"
  by (simp add: unsigned_minus_1_eq_mask)

lemma generation_bits_eq:
  fixes raw :: u64
  assumes "shift < 64" and "32 < shift \<longrightarrow> raw AND (mask shift AND NOT (mask 32)) = 0"
  shows "(if shift < 32 then raw AND mask shift else raw AND mask 32) = raw AND mask shift"
proof (cases "shift \<le> 32")
  case True
  then show ?thesis by auto
next
  case False
  with assms have z: "raw AND (mask shift AND NOT (mask 32)) = 0" by simp
  have "raw AND mask 32 = raw AND mask shift"
  proof (rule bit_word_eqI)
    fix i assume "i < LENGTH(64)"
    moreover have "\<not> bit (raw AND (mask shift AND NOT (mask 32))) i" by (simp add: z)
    ultimately show "bit (raw AND mask 32) i = bit (raw AND mask shift) i"
      using False by (auto simp: bit_and_iff bit_mask_iff bit_not_iff)
  qed
  with False show ?thesis by simp
qed

lemma low_bits_small: "unat (raw AND mask n :: u64) < 2 ^ n" if "n < 64"
proof -
  have "unat (raw AND mask n) = unat raw mod 2 ^ n"
    using that by (simp add: unat_and_mask_mod)
  then show ?thesis by simp
qed

lemma split_or: "push_bit n (drop_bit n raw) OR (raw AND mask n) = (raw :: 'a::len word)"
  by (rule bit_word_eqI) (auto simp: bit_simps)
lemma encode_decode_aux:
  assumes "llam_public_slot_encode_handle slot generation shift \<noteq> 0"
  shows "llam_public_slot_decode_handle (llam_public_slot_encode_handle slot generation shift) shift
    = Some (slot, generation)"
proof -
  let ?g = "ucast generation :: u64" and ?raw = "llam_public_slot_encode_handle slot generation shift"
  have sh: "0 < shift" "shift < 64" and gn: "generation \<noteq> 0" and sl: "slot + 1 \<noteq> 0"
    and room: "\<not> drop_bit shift UINT64_MAX < slot + 1" and fit: "drop_bit shift ?g = 0"
    and raw: "?raw = push_bit shift (slot + 1) OR ?g"
    using assms by (auto simp: llam_public_slot_encode_handle_def LLAM_PUBLIC_SLOT_WORD_BITS_def Let_def
        split: if_splits)
  have small: "unat ?g < 2 ^ shift"
    using arg_cong [OF fit, of unat] unfolding unat_drop_bit_div by (simp add: div_eq_0_iff)
  have "unat (slot + 1) \<le> unat (drop_bit shift UINT64_MAX)" using room by (simp add: word_le_nat_alt not_less)
  also have "\<dots> = (2 ^ 64 - 1) div 2 ^ shift" unfolding unat_drop_bit_div by (simp add: unsigned_minus_1_eq_mask mask_eq_exp_minus_1)
  also have "\<dots> < 2 ^ (64 - shift)"
  proof -
    have "(2 ^ 64 :: nat) = 2 ^ (64 - shift) * 2 ^ shift" using sh by (simp add: power_add [symmetric])
    then show ?thesis by (simp add: less_mult_imp_div_less)
  qed
  finally have big: "unat (slot + 1) < 2 ^ (LENGTH(64) - shift)" by simp
  have low: "?raw AND mask shift = ?g" unfolding raw by (rule pack_low [OF small])
  have high: "drop_bit shift ?raw = slot + 1" unfolding raw by (rule pack_high [OF small big])
  have chk: "?raw AND (mask shift AND NOT (mask 32)) = 0"
  proof -
    have "?raw AND (mask shift AND NOT (mask 32)) = ?g AND NOT (mask 32)"
      by (simp add: low [symmetric] and.assoc)
    also have "\<dots> = 0" by (rule bit_word_eqI) (auto simp: bit_simps dest: bit_imp_le_length)
    finally show ?thesis .
  qed
  have bits: "(if shift < 32 then ?raw AND mask shift else ?raw AND mask 32) = ?g"
    using generation_bits_eq [of shift ?raw] chk sh low by simp
  show ?thesis
    unfolding llam_public_slot_decode_handle_def Let_def exp_minus_1_mask ucast_u32_max bits high chk
    using sh gn sl by (simp add: LLAM_PUBLIC_SLOT_WORD_BITS_def ucast_u64_u32_id)
qed

lemma decode_encode_aux:
  assumes "llam_public_slot_decode_handle raw shift = Some (slot, generation)"
  shows "llam_public_slot_encode_handle slot generation shift = raw"
proof -
  let ?bits = "if shift < 32 then raw AND mask shift else raw AND mask 32"
  have sh: "0 < shift" "shift < 64" and chk: "32 < shift \<longrightarrow> raw AND (mask shift AND NOT (mask 32)) = 0"
    and sl: "drop_bit shift raw \<noteq> 0" "slot = drop_bit shift raw - 1"
    and gn: "generation \<noteq> 0" "generation = ucast ?bits"
    using assms unfolding llam_public_slot_decode_handle_def Let_def exp_minus_1_mask ucast_u32_max
    by (auto simp: LLAM_PUBLIC_SLOT_WORD_BITS_def split: if_splits)
  have bits: "?bits = raw AND mask shift" by (rule generation_bits_eq [OF sh(2) chk])
  have "unat ?bits < 2 ^ 32"
  proof (cases "shift < 32")
    case True
    have "unat (raw AND mask shift) < 2 ^ shift" by (rule low_bits_small [OF sh(2)])
    also have "\<dots> < 2 ^ 32" by (rule power_strict_increasing) (use True in simp_all)
    finally show ?thesis using True by simp
  qed (use low_bits_small [of 32 raw] in simp)
  then have g: "ucast generation = raw AND mask shift"
    unfolding gn(2) by (subst ucast_u32_u64_small) (simp_all only: bits)
  have fit: "drop_bit shift (raw AND mask shift) = 0"
    by (rule bit_word_eqI) (simp add: bit_simps)
  have "\<not> drop_bit shift UINT64_MAX < drop_bit shift raw"
    unfolding not_less word_le_nat_alt unat_drop_bit_div
    by (rule div_le_mono) (simp add: word_le_nat_alt [symmetric])
  then show ?thesis
    using sh sl gn(1)
    by (simp add: llam_public_slot_encode_handle_def LLAM_PUBLIC_SLOT_WORD_BITS_def Let_def g fit split_or
        del: drop_bit_and)
qed
text \<open>
  C9. The handle word and the pair of slot and generation determine each other: decoding yields a
  pair exactly when that pair encodes to the given non-zero word, for every shift.
\<close>

theorem handle_codec:
  "llam_public_slot_decode_handle raw shift = Some (slot, generation) \<longleftrightarrow>
   llam_public_slot_encode_handle slot generation shift = raw \<and> raw \<noteq> 0"
proof
  assume d: "llam_public_slot_decode_handle raw shift = Some (slot, generation)"
  then have "raw \<noteq> 0" by (auto simp: llam_public_slot_decode_handle_def Let_def split: if_splits)
  with decode_encode_aux [OF d] show
    "llam_public_slot_encode_handle slot generation shift = raw \<and> raw \<noteq> 0" by simp
next
  assume "llam_public_slot_encode_handle slot generation shift = raw \<and> raw \<noteq> 0"
  then show "llam_public_slot_decode_handle raw shift = Some (slot, generation)"
    using encode_decode_aux [of slot generation shift] by auto
qed

section \<open>Runs of table operations\<close>

inductive slot_step :: "u32 \<Rightarrow> public_slot_table \<Rightarrow> public_slot_table \<Rightarrow> bool" for family where
  reserve: "object \<noteq> 0 \<Longrightarrow>
    llam_public_slot_reserve_impl os t object initial family owner = (r, t', os') \<Longrightarrow> slot_step family t t'"
| reactivate: "llam_public_slot_reactivate_impl os t slot object family owner = (r, t', os') \<Longrightarrow>
    slot_step family t t'"
| release: "object \<noteq> 0 \<Longrightarrow> slot_step family t (llam_public_slot_release t slot object generation)"

text \<open>
  A handle of epoch \<open>e\<close> of a slot is retired: the slot has moved past \<open>e\<close>, or it is still at \<open>e\<close> and
  holds no object.
\<close>

definition retired :: "(nat \<rightharpoonup> public_slot) \<Rightarrow> nat \<Rightarrow> public_slot \<Rightarrow> bool" where
  "retired m slot old \<longleftrightarrow> (\<exists>e. m slot = Some e \<and>
     ps_seal_multiplier e = ps_seal_multiplier old \<and> ps_seal_addend e = ps_seal_addend old \<and>
     (ps_epoch old < ps_epoch e \<or> ps_epoch e = ps_epoch old \<and> ps_object e = 0))"

lemma epoch_lt_succ: "e < LLAM_PUBLIC_HANDLE_EPOCH_MASK \<Longrightarrow> e < e + 1"
  by (simp add: word_less_nat_alt unat_Suc_less)

lemma retired_advance:
  assumes "retired m slot old" "m slot = Some e" "entry_advanced family (Some e) object e'"
  shows "retired (m(slot \<mapsto> e')) slot old"
proof -
  from assms(3) have "ps_epoch e < ps_epoch e'" using epoch_lt_succ by (simp add: entry_advanced_def)
  then show ?thesis using assms by (auto simp: retired_def entry_advanced_def)
qed

lemma retired_update:
  assumes "retired m slot old" "entry_advanced family (m s) object e'"
  shows "retired (m(s \<mapsto> e')) slot old"
proof (cases "s = slot")
  case True
  obtain e where "m slot = Some e" using assms(1) by (auto simp: retired_def)
  with True assms show ?thesis using retired_advance by metis
next
  case False
  with assms(1) show ?thesis by (simp add: retired_def)
qed

lemma retired_dead:
  assumes "retired m slot old" "m s = Some e"
  shows "retired (m(s \<mapsto> e\<lparr>ps_object := 0\<rparr>)) slot old"
  using assms by (cases "s = slot") (auto simp: retired_def)

lemma slot_step_inv:
  assumes "llam_public_slot_family_valid family" "slot_step family t t'" "table_wf family t"
  shows "table_wf family t' \<and> (retired (table_abs t) slot old \<longrightarrow> retired (table_abs t') slot old)"
  using assms(2)
proof cases
  case (reserve object os initial owner r os')
  note ok = reserve_ok [OF assms(3) reserve(1) assms(1) reserve(2)]
  then have "table_abs t' = table_abs t \<or>
      (\<exists>s e'. entry_advanced family (table_abs t s) object e' \<and> table_abs t' = (table_abs t)(s \<mapsto> e'))"
    by blast
  then show ?thesis
  proof
    assume "table_abs t' = table_abs t"
    with ok show ?thesis by simp
  next
    assume "\<exists>s e'. entry_advanced family (table_abs t s) object e' \<and> table_abs t' = (table_abs t)(s \<mapsto> e')"
    then obtain s e' where a: "entry_advanced family (table_abs t s) object e'"
      and b: "table_abs t' = (table_abs t)(s \<mapsto> e')" by blast
    show ?thesis using ok retired_update [where m = "table_abs t", OF _ a] by (simp add: b)
  qed
next
  case (reactivate os s object owner r os')
  note ok = reactivate_ok [OF assms(3,1) reactivate]
  show ?thesis
  proof (cases "t' = t")
    case False
    with ok obtain e' where a: "entry_advanced family (table_abs t s) object e'"
      and b: "table_abs t' = (table_abs t)(s \<mapsto> e')" by auto
    show ?thesis using ok retired_update [where m = "table_abs t", OF _ a] by (simp add: b)
  qed (simp add: assms(3))
next
  case (release object s generation)
  note ok = release_ok [OF assms(3) release(2), of s generation]
  then have "table_abs t' = table_abs t \<or>
      (\<exists>e. table_abs t s = Some e \<and> table_abs t' = (table_abs t)(s \<mapsto> e\<lparr>ps_object := 0\<rparr>))"
    by (auto simp: release(1) split: option.splits)
  with ok show ?thesis using retired_dead release(1) by metis
qed

lemma slot_run_inv:
  assumes "llam_public_slot_family_valid family" "(slot_step family)\<^sup>*\<^sup>* t t'" "table_wf family t"
  shows "table_wf family t' \<and> (retired (table_abs t) slot old \<longrightarrow> retired (table_abs t') slot old)"
  using assms(2)
proof (induction rule: rtranclp_induct)
  case base
  then show ?case using assms(3) by simp
next
  case (step u v)
  then show ?case using slot_step_inv [OF assms(1) step.hyps(2)] by simp
qed

lemma abs_resolve_SomeD:
  assumes "abs_resolve m s g \<noteq> 0"
  obtains e where "m s = Some e" "ps_generation e = g" "ps_object e = abs_resolve m s g" "g \<noteq> 0"
  using assms by (auto simp: abs_resolve_def split: option.splits if_splits)

lemma table_abs_sealed: "table_wf family t \<Longrightarrow> table_abs t s = Some e \<Longrightarrow> entry_sealed family e"
  using table_wfD(3) by (auto simp: table_abs_def split: if_splits)

lemma retired_no_resolve:
  assumes "llam_public_slot_family_valid family" "table_wf family t"
    and "entry_sealed family old" "retired (table_abs t) s old"
  shows "llam_public_slot_resolve t s (ps_generation old) = 0"
proof -
  obtain e where e: "table_abs t s = Some e" "ps_seal_multiplier e = ps_seal_multiplier old"
    "ps_seal_addend e = ps_seal_addend old"
    "ps_epoch old < ps_epoch e \<or> ps_epoch e = ps_epoch old \<and> ps_object e = 0"
    using assms(4) by (auto simp: retired_def)
  have s: "entry_sealed family e" by (rule table_abs_sealed [OF assms(2) e(1)])
  have "ps_epoch e = ps_epoch old" if "ps_generation e = ps_generation old"
    using that s assms(1,3) e(2,3) gen_for_epoch_inj [of "ps_seal_multiplier old" "ps_seal_addend old" family]
    by (simp add: entry_sealed_def)
  then show ?thesis using e(1,4) by (auto simp: resolve_abs abs_resolve_def)
qed

section \<open>Main theorems of the slot tables\<close>

text \<open>
  C8. Reserving a slot for an object in a well-formed family table either fails with
  \<^verbatim>\<open>ENOMEM\<close> and changes no resolution, or returns a slot and a generation whose encoded handle word
  resolves to the object; the slot resolved to nothing before, and every other slot keeps its
  resolutions. The table stays well-formed.
\<close>

theorem reserve_family_correct:
  assumes "table_wf family t" "object \<noteq> 0" "llam_public_slot_family_valid family"
    and "llam_public_slot_reserve_impl os t object initial family owner = (r, t', os')"
  shows "table_wf family t' \<and> (case r of
      Inl e \<Rightarrow> e = ENOMEM \<and> (\<forall>i g. llam_public_slot_resolve t' i g = llam_public_slot_resolve t i g)
    | Inr (s, g) \<Rightarrow>
        (\<forall>g'. llam_public_slot_resolve t s g' = 0) \<and>
        llam_public_slot_resolve_encoded t' (llam_public_slot_encode_handle (of_nat s) g 32) 32
          = (object, Some (s, g)) \<and>
        (\<forall>i g'. i \<noteq> s \<longrightarrow> llam_public_slot_resolve t' i g' = llam_public_slot_resolve t i g'))"
proof -
  note ok = reserve_ok [OF assms]
  show ?thesis
  proof (cases "r = Inl ENOMEM \<and> table_abs t' = table_abs t")
    case True
    with ok show ?thesis by (simp add: resolve_abs)
  next
    case False
    with ok obtain s e' where r: "r = Inr (s, ps_generation e')"
      and dead: "\<forall>e. table_abs t s = Some e \<longrightarrow> ps_object e = 0"
      and adv: "entry_advanced family (table_abs t s) object e'"
      and t': "table_abs t' = (table_abs t)(s \<mapsto> e')" and wf: "table_wf family t'" by blast
    have sealed: "entry_sealed family e'" and obj: "ps_object e' = object"
      using adv by (simp_all add: entry_advanced_def)
    have g: "ps_generation e' \<noteq> 0"
      using sealed assms(3) gen_for_epoch_nonzero by (simp add: entry_sealed_def)
    have "s < pt_count t'" using fun_cong [OF t', of s] by (simp add: table_abs_def split: if_splits)
    then have small: "s < 4294967295" using wf by (simp add: table_wf_def LLAM_PUBLIC_HANDLE_MAX_SLOTS_def)
    then have us: "unat (of_nat s :: u64) = s" by (simp add: unat_of_nat)
    have room: "\<not> drop_bit 32 UINT64_MAX < of_nat s + (1 :: u64)"
      using small us by (simp add: not_less word_le_nat_alt unat_word_ariths mask_eq_exp_minus_1)
    have "drop_bit 32 (ucast (ps_generation e') :: u64) = 0"
      by (rule bit_word_eqI) (auto simp: bit_simps dest: bit_imp_le_length)
    moreover have "of_nat s + (1 :: u64) \<noteq> 0"
      using small us by (simp add: word_unat_eq_iff unat_word_ariths)
    ultimately have "llam_public_slot_encode_handle (of_nat s) (ps_generation e') 32 \<noteq> 0"
      using g room
      by (simp add: llam_public_slot_encode_handle_def LLAM_PUBLIC_SLOT_WORD_BITS_def Let_def
          or_eq_0_iff ucast_u32_eq_0)
    from encode_decode_aux [OF this]
    have "llam_public_slot_resolve_encoded t' (llam_public_slot_encode_handle (of_nat s) (ps_generation e') 32) 32
        = (object, Some (s, ps_generation e'))"
      using g assms(2) obj us
      by (simp add: llam_public_slot_resolve_encoded_def resolve_abs t' abs_resolve_def Let_def)
    then show ?thesis
      using wf dead by (auto simp: r resolve_abs t' abs_resolve_def split: option.splits)
  qed
qed

text \<open>
  C7. A handle is dead for ever once its slot is released: after any further run of reservations,
  reactivations and releases on the table, the old generation of the slot resolves to nothing, however often
  the slot is handed out again.
\<close>

theorem released_handle_never_resolves:
  assumes "llam_public_slot_family_valid family" "table_wf family t"
    and "llam_public_slot_resolve t s g = object" "object \<noteq> 0"
    and "(slot_step family)\<^sup>*\<^sup>* (llam_public_slot_release t s object g) t'"
  shows "llam_public_slot_resolve t' s g = 0"
proof -
  from assms(3,4) obtain e where e: "table_abs t s = Some e" "ps_generation e = g" "ps_object e = object"
    unfolding resolve_abs by (metis abs_resolve_SomeD)
  note rel = release_ok [OF assms(2,4), of s g]
  have "retired (table_abs (llam_public_slot_release t s object g)) s e"
    using rel e by (simp add: retired_def)
  with slot_run_inv [OF assms(1,5)] rel have "table_wf family t'" "retired (table_abs t') s e" by simp_all
  from retired_no_resolve [OF assms(1) this(1) table_abs_sealed [OF assms(2) e(1)] this(2)]
  show ?thesis by (simp add: e)
qed

text \<open>
  C10. Reactivating a live slot invalidates the handle that was current: it stays unresolvable through every
  later run of table operations.
\<close>

theorem reactivated_handle_never_resolves:
  assumes "llam_public_slot_family_valid family" "table_wf family t"
    and "llam_public_slot_resolve t s g \<noteq> 0"
    and "llam_public_slot_reactivate_impl os t s object family owner = (Inr g', t1, os')"
    and "(slot_step family)\<^sup>*\<^sup>* t1 t'"
  shows "llam_public_slot_resolve t1 s g' = object \<and> llam_public_slot_resolve t' s g = 0"
proof -
  from reactivate_ok [OF assms(2,1,4)] obtain e e' where wf1: "table_wf family t1"
    and e: "table_abs t s = Some e" "ps_object e = object"
    and e': "g' = ps_generation e'" "entry_advanced family (Some e) object e'"
      "table_abs t1 = (table_abs t)(s \<mapsto> e')" by auto
  have sealed: "entry_sealed family e'" using e'(2) by (simp add: entry_advanced_def)
  have g: "ps_generation e = g" using assms(3) e(1) by (auto simp: resolve_abs abs_resolve_def split: if_splits)
  have "retired (table_abs t1) s e"
    using e' epoch_lt_succ by (auto simp: retired_def entry_advanced_def)
  with slot_run_inv [OF assms(1,5) wf1] have "table_wf family t'" "retired (table_abs t') s e" by simp_all
  from retired_no_resolve [OF assms(1) this(1) table_abs_sealed [OF assms(2) e(1)] this(2)]
  have "llam_public_slot_resolve t' s g = 0" by (simp add: g)
  moreover have "ps_generation e' \<noteq> 0"
    using sealed assms(1) gen_for_epoch_nonzero by (simp add: entry_sealed_def)
  ultimately show ?thesis
    using e' by (simp add: resolve_abs abs_resolve_def entry_advanced_def)
qed

text \<open>
  C11. The affine seal: for a valid seal the incremental update of the fast path computes the closed form of the
  next epoch, the first update starts the sequence, and the generations of the \<open>2^28 - 1\<close>
  epochs of a slot are pairwise distinct.
\<close>

theorem seal_generations:
  assumes "seal_ok m a" "llam_public_slot_family_valid family"
  shows "inj_on (\<lambda>e. llam_public_slot_family_generation_for_epoch family e m a) {e. epoch_ok e} \<and>
    llam_public_slot_next_affine_generation 0 family m a
      = llam_public_slot_family_generation_for_epoch family 1 m a \<and>
    (\<forall>e. epoch_ok e \<and> epoch_ok (e + 1) \<longrightarrow>
      llam_public_slot_next_affine_generation
        (llam_public_slot_family_generation_for_epoch family e m a) family m a
      = llam_public_slot_family_generation_for_epoch family (e + 1) m a)"
  using gen_for_epoch_inj [OF assms] gen_for_epoch_1 [OF assms(1)] gen_for_epoch_Suc [OF assms]
  by (auto intro: inj_onI)

section \<open>A concrete table\<close>

definition example_os :: os_env where
  "example_os = \<lparr>os_entropy = [], os_clock = [], os_calloc = [], os_pid = 42,
     os_frame_addr = 0x7ffe0010, os_key_addr = 0x5000, os_token_addr = 0x6000, os_fallback_counter = 0\<rparr>"

definition example_entry :: "u64 \<Rightarrow> u32 \<Rightarrow> public_slot" where
  "example_entry object epoch = zero_slot\<lparr>ps_object := object, ps_epoch := epoch,
     ps_generation := llam_public_slot_family_generation_for_epoch 3 epoch 1 0,
     ps_seal_multiplier := 1\<rparr>"

definition example_table :: public_slot_table where
  "example_table = \<lparr>pt_addr = 0x4000, pt_slots = [example_entry 0x1000 1, example_entry 0 2],
     pt_count = 2, pt_capacity = 2, pt_free_head_plus_one = 2, pt_handle_secret = 0x1234\<rparr>"

lemma example_entry_sealed: "epoch_ok epoch \<Longrightarrow> entry_sealed 3 (example_entry object epoch)"
  by (simp add: example_entry_def zero_slot_def entry_sealed_def seal_ok_def epoch_mask_eq llam_public_slot_affine_multiplier_valid_def)

lemma example_table_wf: "table_wf 3 example_table"
proof -
  have "table_free example_table [1]"
    by (simp add: table_free_def example_table_def example_entry_def zero_slot_def)
  moreover have "\<forall>i<2. entry_sealed 3 ([example_entry 0x1000 1, example_entry 0 2] ! i)"
    by (auto simp: less_2_cases_iff example_entry_sealed epoch_ok_def epoch_mask_eq)
  ultimately show ?thesis
    unfolding table_wf_def by (auto simp: example_table_def LLAM_PUBLIC_HANDLE_MAX_SLOTS_def)
qed

lemma example_reserve:
  "llam_public_slot_reserve_impl example_os example_table 0x2000 8 3 0
    = (Inr (1, 51), example_table\<lparr>pt_slots := [example_entry 0x1000 1, example_entry 0x2000 3],
        pt_free_head_plus_one := 0\<rparr>, example_os)"
 by code_simp
theorem reserve_family_correct_witness:
  "table_wf 3 (example_table\<lparr>pt_slots := [example_entry 0x1000 1, example_entry 0x2000 3],
      pt_free_head_plus_one := 0\<rparr>) \<and>
   llam_public_slot_resolve_encoded (example_table\<lparr>pt_slots := [example_entry 0x1000 1, example_entry 0x2000 3],
      pt_free_head_plus_one := 0\<rparr>) (llam_public_slot_encode_handle (of_nat 1) 51 32) 32 = (0x2000, Some (1, 51))"
  using reserve_family_correct [OF example_table_wf _ _ example_reserve]
  by (simp add: llam_public_slot_family_valid_def family_mask_eq)

lemma example_rereserve:
  "llam_public_slot_reserve_impl example_os (llam_public_slot_release example_table 0 0x1000 19) 0x3000 8 3 0
    = (Inr (0, 35), example_table\<lparr>pt_slots := [example_entry 0x3000 2, example_entry 0 2]\<rparr>, example_os)"
  by code_simp

theorem released_handle_never_resolves_witness:
  "llam_public_slot_resolve example_table 0 19 = 0x1000 \<and>
   llam_public_slot_resolve (example_table\<lparr>pt_slots := [example_entry 0x3000 2, example_entry 0 2]\<rparr>) 0 19 = 0"
proof
  show live: "llam_public_slot_resolve example_table 0 19 = 0x1000" by code_simp
  have "slot_step 3 (llam_public_slot_release example_table 0 0x1000 19)
      (example_table\<lparr>pt_slots := [example_entry 0x3000 2, example_entry 0 2]\<rparr>)"
    by (rule slot_step.reserve [OF _ example_rereserve]) simp
  then have run: "(slot_step 3)\<^sup>*\<^sup>* (llam_public_slot_release example_table 0 0x1000 19)
      (example_table\<lparr>pt_slots := [example_entry 0x3000 2, example_entry 0 2]\<rparr>)"
    by (rule r_into_rtranclp)
  show "llam_public_slot_resolve (example_table\<lparr>pt_slots := [example_entry 0x3000 2, example_entry 0 2]\<rparr>) 0 19 = 0"
    by (rule released_handle_never_resolves [OF _ example_table_wf live _ run])
      (simp_all add: llam_public_slot_family_valid_def family_mask_eq)
qed

lemma example_reactivate:
  "llam_public_slot_reactivate_impl example_os example_table 0 0x1000 3 0
    = (Inr 35, example_table\<lparr>pt_slots := [example_entry 0x1000 2, example_entry 0 2]\<rparr>, example_os)"
  by code_simp

theorem reactivated_handle_never_resolves_witness:
  "llam_public_slot_resolve (example_table\<lparr>pt_slots := [example_entry 0x1000 2, example_entry 0 2]\<rparr>) 0 35 = 0x1000 \<and>
   llam_public_slot_resolve (example_table\<lparr>pt_slots := [example_entry 0x1000 2, example_entry 0 2]\<rparr>) 0 19 = 0"
proof -
  have "llam_public_slot_resolve example_table 0 19 \<noteq> 0" by code_simp
  from reactivated_handle_never_resolves [OF _ example_table_wf this example_reactivate rtranclp.rtrancl_refl]
  show ?thesis by (simp add: llam_public_slot_family_valid_def family_mask_eq)
qed

theorem seal_generations_witness:
  "seal_ok 17 5 \<and>
   llam_public_slot_next_affine_generation
     (llam_public_slot_family_generation_for_epoch 3 9 17 5) 3 17 5
   = llam_public_slot_family_generation_for_epoch 3 10 17 5"
proof
  show ok: "seal_ok 17 5" by code_simp
  have "epoch_ok (9 + 1)" "epoch_ok 9" by code_simp+
  with seal_generations [OF ok, of 3]
  show "llam_public_slot_next_affine_generation
     (llam_public_slot_family_generation_for_epoch 3 9 17 5) 3 17 5
   = llam_public_slot_family_generation_for_epoch 3 10 17 5"
    by (simp add: llam_public_slot_family_valid_def family_mask_eq)
qed

end
