(* ===== verification/Active_Op.thy ===== *)
theory Active_Op
  imports LLAM_Prelude
begin

text \<open>
  The active-operation counter of \<^verbatim>\<open>internal/runtime_public_active_op.h\<close>: the pin count by which public
  operations keep an object alive. The functions are given twice: as the value an
  undisturbed call computes, and as the sequence of atomic accesses that concurrent threads interleave.
  The theorems show that the counter equals the number of pins as long as there are fewer threads
  than the begin limit, that an undisturbed run of the atomic accesses computes the functions, and
  what a saturated counter does under interference.
\<close>

section \<open>The counter\<close>

definition LLAM_PUBLIC_ACTIVE_OP_RESERVED_THRESHOLD :: u64 where
  "LLAM_PUBLIC_ACTIVE_OP_RESERVED_THRESHOLD = UINT64_MAX div 2 - 1"

definition LLAM_PUBLIC_ACTIVE_OP_BEGIN_LIMIT :: u64 where
  "LLAM_PUBLIC_ACTIVE_OP_BEGIN_LIMIT = LLAM_PUBLIC_ACTIVE_OP_RESERVED_THRESHOLD - 1"

definition LLAM_PUBLIC_ACTIVE_OP_BUSY_SENTINEL :: u64 where
  "LLAM_PUBLIC_ACTIVE_OP_BUSY_SENTINEL = UINT64_MAX"

definition llam_public_active_op_try_begin :: "u64 \<Rightarrow> unit result \<times> u64" where
  "llam_public_active_op_try_begin active_ops =
     (if LLAM_PUBLIC_ACTIVE_OP_BEGIN_LIMIT \<le> active_ops
      then (Inl EBUSY, LLAM_PUBLIC_ACTIVE_OP_BUSY_SENTINEL)
      else let previous = active_ops; active_ops = active_ops + 1 in
           if previous < LLAM_PUBLIC_ACTIVE_OP_BEGIN_LIMIT then (Inr (), active_ops)
           else (Inl EBUSY, LLAM_PUBLIC_ACTIVE_OP_BUSY_SENTINEL))"

definition llam_public_active_op_end :: "u64 \<Rightarrow> u64" where
  "llam_public_active_op_end active_ops =
     (if active_ops = 0 then active_ops
      else if LLAM_PUBLIC_ACTIVE_OP_RESERVED_THRESHOLD \<le> active_ops
      then LLAM_PUBLIC_ACTIVE_OP_BUSY_SENTINEL
      else active_ops - 1)"

definition llam_public_active_op_is_saturated :: "u64 \<Rightarrow> bool" where
  "llam_public_active_op_is_saturated active_ops \<longleftrightarrow> LLAM_PUBLIC_ACTIVE_OP_RESERVED_THRESHOLD \<le> active_ops"

section \<open>The atomic accesses\<close>

text \<open>
  Where a thread stands: outside every operation, between the limit check and the increment of a
  begin, before the store of the busy sentinel, holding a pin, inside the compare-exchange loop of an
  end with its expected value, or before the sentinel store of an end.
\<close>

datatype op_pc = Idle | BeginAdd | BeginStore | Held | EndCas u64 | EndStore

definition end_check :: "u64 \<Rightarrow> op_pc" where
  "end_check current =
     (if current = 0 then Idle
      else if LLAM_PUBLIC_ACTIVE_OP_RESERVED_THRESHOLD \<le> current then EndStore
      else EndCas current)"

text \<open>
  One atomic access of one thread. The weak compare-exchange may fail even when the
  counter has the expected value, which the boolean decides.
\<close>

fun op_access :: "bool \<Rightarrow> u64 \<Rightarrow> op_pc \<Rightarrow> u64 \<times> op_pc" where
  "op_access spurious c Idle =
     (c, if LLAM_PUBLIC_ACTIVE_OP_BEGIN_LIMIT \<le> c then BeginStore else BeginAdd)"
| "op_access spurious c BeginAdd =
     (c + 1, if c < LLAM_PUBLIC_ACTIVE_OP_BEGIN_LIMIT then Held else BeginStore)"
| "op_access spurious c BeginStore = (LLAM_PUBLIC_ACTIVE_OP_BUSY_SENTINEL, Idle)"
| "op_access spurious c Held = (c, end_check c)"
| "op_access spurious c (EndCas expected) =
     (if c = expected \<and> \<not> spurious then (expected - 1, Idle) else (c, end_check c))"
| "op_access spurious c EndStore = (LLAM_PUBLIC_ACTIVE_OP_BUSY_SENTINEL, Idle)"

inductive op_step :: "u64 \<times> op_pc list \<Rightarrow> u64 \<times> op_pc list \<Rightarrow> bool" where
  access: "i < length pcs \<Longrightarrow> op_access spurious c (pcs ! i) = (c', pc') \<Longrightarrow>
    op_step (c, pcs) (c', pcs[i := pc'])"

inductive_cases op_stepE: "op_step (c, pcs) s'"

definition pinned :: "op_pc \<Rightarrow> bool" where
  "pinned pc \<longleftrightarrow> pc = Held \<or> pc = EndStore \<or> (\<exists>v. pc = EndCas v)"

lemma pinned_simps [simp]:
  "\<not> pinned Idle" "\<not> pinned BeginAdd" "\<not> pinned BeginStore" "pinned Held" "pinned EndStore"
  "pinned (EndCas v)"
  by (simp_all add: pinned_def)

definition pins :: "op_pc list \<Rightarrow> nat" where
  "pins pcs = length (filter pinned pcs)"

lemma pins_update:
  assumes "i < length pcs"
  shows "pins (pcs[i := pc]) + (if pinned (pcs ! i) then 1 else 0) = pins pcs + (if pinned pc then 1 else 0)"
  using assms unfolding pins_def
proof (induction pcs arbitrary: i)
  case (Cons x xs)
  then show ?case by (cases i) auto
qed simp

lemma pins_le: "pins pcs \<le> length pcs"
  by (simp add: pins_def)

lemma pins_pos: "i < length pcs \<Longrightarrow> pinned (pcs ! i) \<Longrightarrow> 0 < pins pcs"
  unfolding pins_def by (metis filter_empty_conv length_greater_0_conv nth_mem)

lemma limits:
  "unat LLAM_PUBLIC_ACTIVE_OP_RESERVED_THRESHOLD = 2 ^ 63 - 2"
  "unat LLAM_PUBLIC_ACTIVE_OP_BEGIN_LIMIT = 2 ^ 63 - 3"
  by (simp_all add: LLAM_PUBLIC_ACTIVE_OP_RESERVED_THRESHOLD_def LLAM_PUBLIC_ACTIVE_OP_BEGIN_LIMIT_def)

section \<open>The counter counts the pins\<close>

definition op_inv :: "u64 \<times> op_pc list \<Rightarrow> bool" where
  "op_inv s \<longleftrightarrow> unat (fst s) = pins (snd s) \<and> BeginStore \<notin> set (snd s) \<and> EndStore \<notin> set (snd s)"

lemma end_check_unsaturated:
  assumes "unat c < 2 ^ 63 - 3" "c \<noteq> 0"
  shows "end_check c = EndCas c"
  using assms limits(1) by (simp add: end_check_def word_le_nat_alt)

lemma op_access_inv:
  assumes "op_inv (c, pcs)" "length pcs < 2 ^ 63 - 3" "i < length pcs"
    and "op_access spurious c (pcs ! i) = (c', pc')"
  shows "pc' \<noteq> BeginStore" "pc' \<noteq> EndStore"
    "unat c' + (if pinned (pcs ! i) then 1 else 0) = unat c + (if pinned pc' then 1 else 0)"
proof -
  have c: "unat c = pins pcs" "unat c < 2 ^ 63 - 3"
    using assms(1,2) pins_le [of pcs] by (simp_all add: op_inv_def)
  then have lim: "c < LLAM_PUBLIC_ACTIVE_OP_BEGIN_LIMIT" using limits(2) by (simp add: word_less_nat_alt)
  have nz: "c \<noteq> 0" if "pinned (pcs ! i)" using pins_pos [OF assms(3) that] c(1) by auto
  have at: "pcs ! i \<in> set pcs" using assms(3) by simp
  then have pc: "pcs ! i \<noteq> BeginStore" "pcs ! i \<noteq> EndStore" using assms(1) by (auto simp: op_inv_def)
  have pos: "Suc (unat c - Suc 0) = unat c" if "c \<noteq> 0"
    using that by (simp add: unat_gt_0)
  have wrap: "c \<noteq> - 1" using c(2) by (auto simp: unsigned_minus_1_eq_mask mask_eq_exp_minus_1)
  have "pc' \<noteq> BeginStore \<and> pc' \<noteq> EndStore \<and>
    unat c' + (if pinned (pcs ! i) then 1 else 0) = unat c + (if pinned pc' then 1 else 0)"
    using assms(4) lim nz pos pc end_check_unsaturated [OF c(2)] unat_Suc_no_wrap [OF wrap]
    by (cases "pcs ! i") (auto simp: not_le unat_minus_one split: if_splits)
  then show "pc' \<noteq> BeginStore" "pc' \<noteq> EndStore"
    "unat c' + (if pinned (pcs ! i) then 1 else 0) = unat c + (if pinned pc' then 1 else 0)"
    by simp_all
qed

lemma op_step_inv:
  assumes "op_step s s'" "op_inv s" "length (snd s) < 2 ^ 63 - 3"
  shows "op_inv s' \<and> length (snd s') = length (snd s)"
  using assms(1)
proof cases
  case (access i pcs spurious c c' pc')
  have inv: "op_inv (c, pcs)" and len: "length pcs < 2 ^ 63 - 3" using assms(2,3) access by simp_all
  note a = op_access_inv [OF inv len access(3,4)] and p = pins_update [OF access(3), of pc']
  have "BeginStore \<notin> set (pcs[i := pc'])" "EndStore \<notin> set (pcs[i := pc'])"
    using a(1,2) inv set_update_subset_insert [of pcs i pc'] by (auto simp: op_inv_def)
  moreover have "unat c' = pins (pcs[i := pc'])"
    using a(3) p inv by (simp add: op_inv_def split: if_splits)
  ultimately show ?thesis using access by (simp add: op_inv_def)
qed

lemma op_run_inv:
  assumes "op_step\<^sup>*\<^sup>* s s'" "op_inv s" "length (snd s) < 2 ^ 63 - 3"
  shows "op_inv s' \<and> length (snd s') = length (snd s)"
  using assms(1)
proof (induction rule: rtranclp_induct)
  case base
  then show ?case using assms(2) by simp
next
  case (step u v)
  then show ?case using op_step_inv [OF step.hyps(2)] assms(3) by simp
qed

lemma op_inv_init: "op_inv (0, replicate n Idle)"
  by (simp add: op_inv_def pins_def)

lemma pins_zero_iff: "pins pcs = 0 \<longleftrightarrow> (\<forall>pc\<in>set pcs. \<not> pinned pc)"
  by (simp add: pins_def filter_empty_conv)

text \<open>
  C12. For fewer than \<open>2^63 - 3\<close> threads, under every interleaving of their atomic accesses, the counter
  equals the number of threads that hold a pin. It is never saturated, and the zero that a
  destructive caller waits for is seen only when no thread holds a pin.
\<close>

theorem active_ops_count_pins:
  assumes "n < 2 ^ 63 - 3" and "op_step\<^sup>*\<^sup>* (0, replicate n Idle) (c, pcs)"
  shows "unat c = pins pcs \<and> \<not> llam_public_active_op_is_saturated c \<and>
    (c = 0 \<longleftrightarrow> (\<forall>pc\<in>set pcs. \<not> pinned pc))"
proof -
  from op_run_inv [OF assms(2) op_inv_init] assms(1)
  have inv: "op_inv (c, pcs)" and len: "length pcs = n" by simp_all
  have c: "unat c = pins pcs" using inv by (simp add: op_inv_def)
  then have "unat c \<le> n" using pins_le [of pcs] len by simp
  then have "\<not> llam_public_active_op_is_saturated c"
    using assms(1) limits(1) by (simp add: llam_public_active_op_is_saturated_def word_le_nat_alt)
  then show ?thesis using c by (simp add: pins_zero_iff [symmetric] word_unat_eq_iff)
qed

text \<open>A schedule names the thread of each access and whether a weak compare-exchange fails.\<close>

fun op_exec :: "(nat \<times> bool) list \<Rightarrow> u64 \<times> op_pc list \<Rightarrow> u64 \<times> op_pc list" where
  "op_exec [] s = s"
| "op_exec ((i, spurious) # schedule) (c, pcs) =
     (if i < length pcs
      then case op_access spurious c (pcs ! i) of (c', pc') \<Rightarrow> op_exec schedule (c', pcs[i := pc'])
      else op_exec schedule (c, pcs))"

lemma op_exec_run: "op_step\<^sup>*\<^sup>* s (op_exec schedule s)"
proof (induction schedule s rule: op_exec.induct)
  case (2 i spurious schedule c pcs)
  obtain c' pc' where a: "op_access spurious c (pcs ! i) = (c', pc')" by fastforce
  show ?case
  proof (cases "i < length pcs")
    case True
    then have "op_step (c, pcs) (c', pcs[i := pc'])" using a by (rule op_step.access)
    with 2(1) [OF True a [symmetric]] True a show ?thesis by (simp add: converse_rtranclp_into_rtranclp)
  qed (use 2(2) in simp)
qed simp

theorem active_ops_count_pins_witness:
  "op_exec [(0, False), (1, False), (0, False), (0, False), (1, False), (0, False)] (0, replicate 2 Idle)
     = (2, [EndCas 2, Held]) \<and> unat (2 :: u64) = pins [EndCas 2, Held]"
proof
  let ?sched = "[(0, False), (1, False), (0, False), (0, False), (1, False), (0, False)]"
  show run: "op_exec ?sched (0, replicate 2 Idle) = (2, [EndCas 2, Held])" by code_simp
  have "op_step\<^sup>*\<^sup>* (0, replicate 2 Idle) (2, [EndCas 2, Held])"
    using op_exec_run [of "(0, replicate 2 Idle)" ?sched] unfolding run .
  from active_ops_count_pins [OF _ this] show "unat (2 :: u64) = pins [EndCas 2, Held]" by simp
qed

text \<open>An undisturbed thread computes the functions.\<close>

lemma op_step_one:
  "i < length pcs \<Longrightarrow> op_access False c (pcs ! i) = (c', pc') \<Longrightarrow>
   op_step\<^sup>*\<^sup>* (c', pcs[i := pc']) s \<Longrightarrow> op_step\<^sup>*\<^sup>* (c, pcs) s"
  by (meson converse_rtranclp_into_rtranclp op_step.access)

lemma try_begin_alone:
  assumes "i < length pcs" "pcs ! i = Idle"
  shows "op_step\<^sup>*\<^sup>* (c, pcs) (case llam_public_active_op_try_begin c of
    (Inr _, c') \<Rightarrow> (c', pcs[i := Held]) | (Inl _, c') \<Rightarrow> (c', pcs))"
proof (cases "LLAM_PUBLIC_ACTIVE_OP_BEGIN_LIMIT \<le> c")
  case True
  have "pcs[i := Idle] = pcs" using assms by (metis list_update_id)
  then have "op_step\<^sup>*\<^sup>* (LLAM_PUBLIC_ACTIVE_OP_BUSY_SENTINEL, pcs[i := BeginStore, i := Idle])
      (LLAM_PUBLIC_ACTIVE_OP_BUSY_SENTINEL, pcs)" by simp
  then have "op_step\<^sup>*\<^sup>* (c, pcs[i := BeginStore]) (LLAM_PUBLIC_ACTIVE_OP_BUSY_SENTINEL, pcs)"
    by (rule op_step_one [rotated -1]) (simp_all add: assms)
  then have "op_step\<^sup>*\<^sup>* (c, pcs) (LLAM_PUBLIC_ACTIVE_OP_BUSY_SENTINEL, pcs)"
    by (rule op_step_one [rotated -1]) (simp_all add: assms True)
  with True show ?thesis by (simp add: llam_public_active_op_try_begin_def)
next
  case False
  have "op_step\<^sup>*\<^sup>* (c, pcs[i := BeginAdd]) (c + 1, pcs[i := Held])"
    by (rule op_step_one [of i _ _ "c + 1" Held]) (use assms False in simp_all)
  then have "op_step\<^sup>*\<^sup>* (c, pcs) (c + 1, pcs[i := Held])"
    by (rule op_step_one [rotated -1]) (use assms False in simp_all)
  with False show ?thesis by (auto simp: llam_public_active_op_try_begin_def)
qed

lemma end_alone:
  assumes "i < length pcs" "pcs ! i = Held"
  shows "op_step\<^sup>*\<^sup>* (c, pcs) (llam_public_active_op_end c, pcs[i := Idle])"
proof -
  have "op_step\<^sup>*\<^sup>* (c, pcs[i := end_check c]) (llam_public_active_op_end c, pcs[i := Idle])"
  proof (cases "c = 0")
    case True
    then show ?thesis by (simp add: end_check_def llam_public_active_op_end_def)
  next
    case False
    show ?thesis
      by (rule op_step_one [of i _ _ "llam_public_active_op_end c" Idle])
        (use assms False in \<open>auto simp: end_check_def llam_public_active_op_end_def\<close>)
  qed
  then show ?thesis by (rule op_step_one [rotated -1]) (use assms in simp_all)
qed

text \<open>
  A thread that runs its atomic accesses without interference computes what the sequential functions
  say: a begin takes a pin and adds one, or fails with \<^verbatim>\<open>EBUSY\<close> and leaves the sentinel, and a
  following end gives the counter back unless it is saturated.
\<close>

theorem begin_end_alone:
  assumes "i < length pcs" "pcs ! i = Idle"
    and "llam_public_active_op_try_begin c = (Inr (), c')"
  shows "op_step\<^sup>*\<^sup>* (c, pcs) (c', pcs[i := Held]) \<and>
    op_step\<^sup>*\<^sup>* (c', pcs[i := Held]) (llam_public_active_op_end c', pcs) \<and>
    llam_public_active_op_end c' = c \<and> c' = c + 1 \<and> c < c'"
proof -
  have lim: "c < LLAM_PUBLIC_ACTIVE_OP_BEGIN_LIMIT" and c': "c' = c + 1"
    using assms(3) by (auto simp: llam_public_active_op_try_begin_def Let_def split: if_splits)
  have u: "unat c' = Suc (unat c)" using unat_Suc_less [OF lim] by (simp add: c')
  have e: "llam_public_active_op_end c' = c"
    using lim u limits
    by (auto simp: llam_public_active_op_end_def c' word_le_nat_alt word_less_nat_alt)
  have "pcs[i := Held, i := Idle] = pcs" using assms by (metis list_update_id list_update_overwrite)
  then show ?thesis
    using try_begin_alone [OF assms(1,2), of c] end_alone [of i "pcs[i := Held]" c'] assms e u
    by (simp add: c' word_less_nat_alt)
qed

theorem begin_end_alone_witness:
  "op_step\<^sup>*\<^sup>* (4, [Held, Idle]) (5, [Held, Held])"
  using begin_end_alone [of 1 "[Held, Idle]" 4 5]
  by (simp add: llam_public_active_op_try_begin_def word_le_nat_alt word_less_nat_alt limits)


end
