(* ===== verification/Capability.thy ===== *)
theory Capability
  imports Public_Slot
begin

text \<open>
  Broker capability tokens (\<^verbatim>\<open>core/registry/capability.c\<close>, \<^verbatim>\<open>internal/runtime_capability.h\<close>): the keyed
  SipHash-2-4 tag over the nine canonical words of a token, key initialisation from OS entropy, issuing,
  validating and attenuating tokens. The tag is shown equal to textbook SipHash-2-4 over the
  72-byte serialisation, and validation to accept exactly the tokens whose tag, epoch, rights and subject are right.
\<close>

section \<open>Data\<close>

definition LLAM_CAPABILITY_VERSION :: u32 where "LLAM_CAPABILITY_VERSION = 1"
definition LLAM_CAPABILITY_NONCE_BYTES :: nat where "LLAM_CAPABILITY_NONCE_BYTES = 16"
definition LLAM_CAPABILITY_MAC_BYTES :: nat where "LLAM_CAPABILITY_MAC_BYTES = 16"

definition LLAM_CAP_RIGHT_SEND :: u64 where "LLAM_CAP_RIGHT_SEND = push_bit 0 1"
definition LLAM_CAP_RIGHT_RECV :: u64 where "LLAM_CAP_RIGHT_RECV = push_bit 1 1"
definition LLAM_CAP_RIGHT_JOIN :: u64 where "LLAM_CAP_RIGHT_JOIN = push_bit 2 1"
definition LLAM_CAP_RIGHT_DETACH :: u64 where "LLAM_CAP_RIGHT_DETACH = push_bit 3 1"
definition LLAM_CAP_RIGHT_CLOSE :: u64 where "LLAM_CAP_RIGHT_CLOSE = push_bit 4 1"
definition LLAM_CAP_RIGHT_DESTROY :: u64 where "LLAM_CAP_RIGHT_DESTROY = push_bit 5 1"
definition LLAM_CAP_RIGHT_READ :: u64 where "LLAM_CAP_RIGHT_READ = push_bit 6 1"
definition LLAM_CAP_RIGHT_WRITE :: u64 where "LLAM_CAP_RIGHT_WRITE = push_bit 7 1"
definition LLAM_CAP_RIGHT_ADMIN :: u64 where "LLAM_CAP_RIGHT_ADMIN = push_bit 63 1"

record capability_key =
  key_words :: "u64 list"

record capability_object =
  co_runtime_id :: u64
  co_family :: u32
  co_slot :: u64
  co_generation :: u64
  co_revocation_epoch :: u64
  co_subject_id :: u64

record capability_token =
  tk_version :: u32
  tk_family :: u32
  tk_runtime_id :: u64
  tk_slot :: u64
  tk_generation :: u64
  tk_rights :: u64
  tk_revocation_epoch :: u64
  tk_subject_id :: u64
  tk_nonce :: "u8 list"
  tk_mac :: "u8 list"

definition zero_token :: capability_token where
  "zero_token = \<lparr>tk_version = 0, tk_family = 0, tk_runtime_id = 0, tk_slot = 0, tk_generation = 0,
     tk_rights = 0, tk_revocation_epoch = 0, tk_subject_id = 0,
     tk_nonce = replicate LLAM_CAPABILITY_NONCE_BYTES 0, tk_mac = replicate LLAM_CAPABILITY_MAC_BYTES 0\<rparr>"

definition zero_key :: capability_key where
  "zero_key = \<lparr>key_words = [0, 0, 0, 0]\<rparr>"

section \<open>Little-endian words\<close>

definition llam_cap_read64_le :: "u8 list \<Rightarrow> u64" where
  "llam_cap_read64_le bytes =
     ucast (bytes ! 0) OR push_bit 8 (ucast (bytes ! 1)) OR push_bit 16 (ucast (bytes ! 2)) OR
     push_bit 24 (ucast (bytes ! 3)) OR push_bit 32 (ucast (bytes ! 4)) OR
     push_bit 40 (ucast (bytes ! 5)) OR push_bit 48 (ucast (bytes ! 6)) OR
     push_bit 56 (ucast (bytes ! 7))"

definition llam_cap_write64_le :: "u64 \<Rightarrow> u8 list" where
  "llam_cap_write64_le value =
     [ucast value, ucast (drop_bit 8 value), ucast (drop_bit 16 value), ucast (drop_bit 24 value),
      ucast (drop_bit 32 value), ucast (drop_bit 40 value), ucast (drop_bit 48 value),
      ucast (drop_bit 56 value)]"

section \<open>SipHash as the code computes it\<close>

record siphash_state =
  sv0 :: u64
  sv1 :: u64
  sv2 :: u64
  sv3 :: u64

definition llam_cap_rotl64 :: "u64 \<Rightarrow> nat \<Rightarrow> u64" where
  "llam_cap_rotl64 value bits = push_bit bits value OR drop_bit (64 - bits) value"

definition llam_cap_siphash_init :: "u64 \<Rightarrow> u64 \<Rightarrow> siphash_state" where
  "llam_cap_siphash_init k0 k1 =
     \<lparr>sv0 = 0x736f6d6570736575 XOR k0, sv1 = 0x646f72616e646f6d XOR k1,
      sv2 = 0x6c7967656e657261 XOR k0, sv3 = 0x7465646279746573 XOR k1\<rparr>"

definition llam_cap_sipround :: "siphash_state \<Rightarrow> siphash_state" where
  "llam_cap_sipround s =
     (let s = s\<lparr>sv0 := sv0 s + sv1 s\<rparr>;
          s = s\<lparr>sv1 := llam_cap_rotl64 (sv1 s) 13\<rparr>;
          s = s\<lparr>sv1 := sv1 s XOR sv0 s\<rparr>;
          s = s\<lparr>sv0 := llam_cap_rotl64 (sv0 s) 32\<rparr>;
          s = s\<lparr>sv2 := sv2 s + sv3 s\<rparr>;
          s = s\<lparr>sv3 := llam_cap_rotl64 (sv3 s) 16\<rparr>;
          s = s\<lparr>sv3 := sv3 s XOR sv2 s\<rparr>;
          s = s\<lparr>sv0 := sv0 s + sv3 s\<rparr>;
          s = s\<lparr>sv3 := llam_cap_rotl64 (sv3 s) 21\<rparr>;
          s = s\<lparr>sv3 := sv3 s XOR sv0 s\<rparr>;
          s = s\<lparr>sv2 := sv2 s + sv1 s\<rparr>;
          s = s\<lparr>sv1 := llam_cap_rotl64 (sv1 s) 17\<rparr>;
          s = s\<lparr>sv1 := sv1 s XOR sv2 s\<rparr>
      in s\<lparr>sv2 := llam_cap_rotl64 (sv2 s) 32\<rparr>)"

definition llam_cap_siphash_compress :: "siphash_state \<Rightarrow> u64 \<Rightarrow> siphash_state" where
  "llam_cap_siphash_compress s word =
     (let s = s\<lparr>sv3 := sv3 s XOR word\<rparr>;
          s = llam_cap_sipround s;
          s = llam_cap_sipround s
      in s\<lparr>sv0 := sv0 s XOR word\<rparr>)"

definition llam_cap_siphash_compress_pair ::
    "siphash_state \<times> siphash_state \<Rightarrow> u64 \<Rightarrow> siphash_state \<times> siphash_state" where
  "llam_cap_siphash_compress_pair p word =
     (llam_cap_siphash_compress (fst p) word, llam_cap_siphash_compress (snd p) word)"

definition llam_cap_siphash_finish :: "siphash_state \<Rightarrow> u64" where
  "llam_cap_siphash_finish s =
     (let s = llam_cap_siphash_compress s (push_bit 56 72);
          s = s\<lparr>sv2 := sv2 s XOR 0xff\<rparr>;
          s = (llam_cap_sipround ^^ 4) s
      in sv0 s XOR sv1 s XOR sv2 s XOR sv3 s)"

definition llam_cap_mac :: "capability_key \<Rightarrow> capability_token \<Rightarrow> u8 list" where
  "llam_cap_mac key token =
     (let p = (llam_cap_siphash_init (key_words key ! 0) (key_words key ! 1),
               llam_cap_siphash_init (key_words key ! 2) (key_words key ! 3));
          p = llam_cap_siphash_compress_pair p
                (push_bit 32 (ucast (tk_family token)) OR ucast (tk_version token));
          p = llam_cap_siphash_compress_pair p (tk_runtime_id token);
          p = llam_cap_siphash_compress_pair p (tk_slot token);
          p = llam_cap_siphash_compress_pair p (tk_generation token);
          p = llam_cap_siphash_compress_pair p (tk_rights token);
          p = llam_cap_siphash_compress_pair p (tk_revocation_epoch token);
          p = llam_cap_siphash_compress_pair p (tk_subject_id token);
          p = llam_cap_siphash_compress_pair p (llam_cap_read64_le (tk_nonce token));
          p = llam_cap_siphash_compress_pair p (llam_cap_read64_le (drop 8 (tk_nonce token)))
      in llam_cap_write64_le (llam_cap_siphash_finish (fst p)) @
         llam_cap_write64_le (llam_cap_siphash_finish (snd p)))"

text \<open>
  The constant-time comparison: the accumulated difference of all sixteen bytes.
\<close>

definition llam_cap_mac_equal :: "u8 list \<Rightarrow> u8 list \<Rightarrow> bool" where
  "llam_cap_mac_equal a b \<longleftrightarrow>
     fold (\<lambda>i diff. diff OR (a ! i XOR b ! i)) [0..<LLAM_CAPABILITY_MAC_BYTES] 0 = 0"

section \<open>Keys and nonces\<close>

definition llam_cap_key_valid :: "capability_key \<Rightarrow> bool" where
  "llam_cap_key_valid key \<longleftrightarrow>
     (key_words key ! 0 OR key_words key ! 1 OR key_words key ! 2 OR key_words key ! 3) \<noteq> 0"

definition llam_cap_entropy_word :: "os_env \<Rightarrow> u64 option \<times> os_env" where
  "llam_cap_entropy_word os =
     (case llam_public_slot_entropy_from_os os of
        (Some word, os) \<Rightarrow> (if word \<noteq> 0 then Some word else None, os)
      | (None, os) \<Rightarrow> (None, os))"

text \<open>Reading two entropy words; the second read happens only after a successful first.\<close>

definition llam_cap_fill_nonce ::
    "os_env \<Rightarrow> capability_token \<Rightarrow> capability_key \<Rightarrow> unit result \<times> capability_token \<times> os_env" where
  "llam_cap_fill_nonce os token key =
     (case llam_cap_entropy_word os of
        (None, os) \<Rightarrow> (Inl EIO, token, os)
      | (Some n0, os) \<Rightarrow>
          (case llam_cap_entropy_word os of
             (None, os) \<Rightarrow> (Inl EIO, token, os)
           | (Some n1, os) \<Rightarrow>
               let (f0, os) = llam_public_slot_fallback_secret os (os_token_addr os) (os_key_addr os)
                                (key_words key ! 0 XOR tk_runtime_id token);
                   n0 = n0 XOR f0;
                   (f1, os) = llam_public_slot_fallback_secret os (os_key_addr os) (os_token_addr os)
                                (key_words key ! 1 XOR tk_slot token);
                   n1 = n1 XOR f1;
                   n0 = n0 XOR llam_public_slot_mix64 (key_words key ! 2 XOR tk_generation token);
                   n1 = n1 XOR llam_public_slot_mix64 (key_words key ! 3 XOR tk_rights token)
               in (Inr (), token\<lparr>tk_nonce := llam_cap_write64_le (llam_public_slot_mix64 n0) @
                                   llam_cap_write64_le (llam_public_slot_mix64 n1)\<rparr>, os)))"

definition llam_capability_key_clear :: "capability_key \<Rightarrow> capability_key" where
  "llam_capability_key_clear key = key\<lparr>key_words := fold (\<lambda>i ws. ws[i := 0]) [0..<4] (key_words key)\<rparr>"

text \<open>The loop of \<^verbatim>\<open>llam_capability_key_init\<close> from index \<open>i\<close> on.\<close>

fun key_init_loop :: "os_env \<Rightarrow> capability_key \<Rightarrow> u64 \<Rightarrow> u64 \<Rightarrow> nat list \<Rightarrow> unit result \<times> capability_key \<times> os_env" where
  "key_init_loop os key scope seed [] = (Inr (), key, os)"
| "key_init_loop os key scope seed (i # is) =
     (case llam_cap_entropy_word os of
        (None, os) \<Rightarrow> (Inl EIO, llam_capability_key_clear key, os)
      | (Some word, os) \<Rightarrow>
          let (f, os) = llam_public_slot_fallback_secret os (os_key_addr os) scope
                          (seed XOR push_bit 32 (of_nat i));
              word = word XOR f;
              key = key\<lparr>key_words := (key_words key)
                      [i := llam_public_slot_mix64 (word XOR 0x9e3779b97f4a7c15 * of_nat (i + 1))]\<rparr>
          in key_init_loop os key scope seed is)"

definition llam_capability_key_init ::
    "os_env \<Rightarrow> u64 \<Rightarrow> u64 \<Rightarrow> unit result \<times> capability_key \<times> os_env" where
  "llam_capability_key_init os scope seed =
     (case key_init_loop os zero_key scope seed [0..<4] of
        (Inl e, key, os) \<Rightarrow> (Inl e, key, os)
      | (Inr _, key, os) \<Rightarrow>
          if \<not> llam_cap_key_valid key then (Inl EIO, key, os) else (Inr (), key, os))"

section \<open>Issue, validate, attenuate\<close>

text \<open>
  The output parameter of an operation is \<open>None\<close> for a null pointer and otherwise the caller's
  token; every operation returns the parameter as it leaves it.
\<close>

definition llam_capability_has_rights :: "capability_token \<Rightarrow> u64 \<Rightarrow> bool" where
  "llam_capability_has_rights token required_rights \<longleftrightarrow> tk_rights token AND required_rights = required_rights"

definition llam_capability_issue ::
    "os_env \<Rightarrow> capability_key \<Rightarrow> capability_object option \<Rightarrow> u64 \<Rightarrow> capability_token option \<Rightarrow>
     unit result \<times> capability_token option \<times> os_env" where
  "llam_capability_issue os key object rights out_token =
     (let out_token = map_option (\<lambda>_. zero_token) out_token in
      case (object, out_token) of
        (Some obj, Some tok) \<Rightarrow>
          if \<not> llam_cap_key_valid key \<or> co_runtime_id obj = 0 \<or> co_family obj = 0 \<or> co_slot obj = 0 \<or>
             co_slot obj = UINT64_MAX \<or> co_generation obj = 0 \<or> co_revocation_epoch obj = 0 \<or> rights = 0
          then (Inl EINVAL, out_token, os)
          else let tok = tok\<lparr>tk_version := LLAM_CAPABILITY_VERSION, tk_family := co_family obj,
                       tk_runtime_id := co_runtime_id obj, tk_slot := co_slot obj,
                       tk_generation := co_generation obj, tk_rights := rights,
                       tk_revocation_epoch := co_revocation_epoch obj,
                       tk_subject_id := co_subject_id obj\<rparr>
               in (case llam_cap_fill_nonce os tok key of
                     (Inl e, tok, os) \<Rightarrow> (Inl e, Some zero_token, os)
                   | (Inr _, tok, os) \<Rightarrow> (Inr (), Some (tok\<lparr>tk_mac := llam_cap_mac key tok\<rparr>), os))
      | _ \<Rightarrow> (Inl EINVAL, out_token, os))"

definition llam_capability_validate_subject ::
    "capability_key \<Rightarrow> capability_token option \<Rightarrow> u64 \<Rightarrow> u64 \<Rightarrow> u64 \<Rightarrow> unit result" where
  "llam_capability_validate_subject key token required_rights current_revocation_epoch expected_subject_id =
     (case token of
        None \<Rightarrow> Inl EINVAL
      | Some tok \<Rightarrow>
          if \<not> llam_cap_key_valid key \<or> required_rights = 0 then Inl EINVAL
          else if tk_version tok \<noteq> LLAM_CAPABILITY_VERSION \<or> tk_family tok = 0 \<or> tk_runtime_id tok = 0 \<or>
             tk_slot tok = 0 \<or> tk_slot tok = UINT64_MAX \<or> tk_generation tok = 0 \<or>
             tk_revocation_epoch tok = 0 \<or> tk_rights tok = 0 then Inl EINVAL
          else if tk_revocation_epoch tok \<noteq> current_revocation_epoch \<or>
             \<not> llam_capability_has_rights tok required_rights then Inl EACCES
          else if tk_subject_id tok \<noteq> expected_subject_id then Inl EACCES
          else if \<not> llam_cap_mac_equal (llam_cap_mac key tok) (tk_mac tok) then Inl EACCES
          else Inr ())"

definition llam_capability_validate ::
    "capability_key \<Rightarrow> capability_token option \<Rightarrow> u64 \<Rightarrow> u64 \<Rightarrow> unit result" where
  "llam_capability_validate key token required_rights current_revocation_epoch =
     llam_capability_validate_subject key token required_rights current_revocation_epoch 0"

definition llam_capability_attenuate ::
    "os_env \<Rightarrow> capability_key \<Rightarrow> capability_token option \<Rightarrow> u64 \<Rightarrow> u64 \<Rightarrow> capability_token option \<Rightarrow>
     unit result \<times> capability_token option \<times> os_env" where
  "llam_capability_attenuate os key token subset_rights current_revocation_epoch out_token =
     (if out_token = None then (Inl EINVAL, out_token, os)
      else let source = (case token of Some t \<Rightarrow> t | None \<Rightarrow> zero_token);
               out_token = Some zero_token
           in if subset_rights = 0 then (Inl EINVAL, out_token, os)
              else (case llam_capability_validate_subject key (if token \<noteq> None then Some source else None)
                           subset_rights current_revocation_epoch
                           (if token \<noteq> None then tk_subject_id source else 0) of
                Inl e \<Rightarrow> (Inl e, out_token, os)
              | Inr _ \<Rightarrow>
                  if tk_rights source AND subset_rights \<noteq> subset_rights then (Inl EACCES, out_token, os)
                  else let object = \<lparr>co_runtime_id = tk_runtime_id source, co_family = tk_family source,
                             co_slot = tk_slot source, co_generation = tk_generation source,
                             co_revocation_epoch = tk_revocation_epoch source,
                             co_subject_id = tk_subject_id source\<rparr>
                       in (case llam_capability_issue os key (Some object) subset_rights (Some zero_token) of
                             (Inl e, _, os) \<Rightarrow> (Inl e, out_token, os)
                           | (Inr _, issued, os) \<Rightarrow> (Inr (), issued, os))))"

section \<open>Byte order\<close>

lemma length_write64_le [simp]: "length (llam_cap_write64_le v) = 8"
  by (simp add: llam_cap_write64_le_def)

lemma read64_append [simp]: "8 \<le> length xs \<Longrightarrow> llam_cap_read64_le (xs @ ys) = llam_cap_read64_le xs"
  by (auto simp: llam_cap_read64_le_def nth_append)

lemma bit_read64_le:
  assumes "length bs = 8" "n < 64"
  shows "bit (llam_cap_read64_le bs) n = bit (bs ! (n div 8)) (n mod 8)"
proof -
  obtain a b c d e f g h where bs: "bs = [a, b, c, d, e, f, g, h]"
    using assms(1) by (auto simp: length_Suc_conv eval_nat_numeral)
  have big: "\<not> bit (w :: u8) k" if "8 \<le> k" for w k using that bit_imp_le_length [of w k] by auto
  define k r where "k = n div 8" and "r = n mod 8"
  have n: "n = 8 * k + r" "r < 8" "k < 8" using assms(2) by (simp_all add: k_def r_def)
  then have "k \<in> {0, 1, 2, 3, 4, 5, 6, 7}" by auto
  then have "bit (llam_cap_read64_le bs) (8 * k + r) = bit (bs ! k) r"
    using n(2) by (elim insertE emptyE) (simp_all add: bs llam_cap_read64_le_def bit_simps big)
  then show ?thesis by (simp add: n(1) [symmetric] k_def r_def)
qed

lemma nth_write64_le: "i < 8 \<Longrightarrow> llam_cap_write64_le v ! i = ucast (drop_bit (8 * i) v)"
  by (auto simp: llam_cap_write64_le_def eval_nat_numeral less_Suc_eq)

lemma read_write64_le: "llam_cap_read64_le (llam_cap_write64_le v) = v"
proof (rule bit_word_eqI)
  fix n assume n: "n < LENGTH(64)"
  then have "n div 8 < 8" by simp
  then show "bit (llam_cap_read64_le (llam_cap_write64_le v)) n = bit v n"
    using n by (simp add: bit_read64_le nth_write64_le bit_simps)
qed

lemma write_read64_le:
  assumes "length bs = 8"
  shows "llam_cap_write64_le (llam_cap_read64_le bs) = bs"
proof (rule nth_equalityI)
  fix i assume "i < length (llam_cap_write64_le (llam_cap_read64_le bs))"
  then have i: "i < 8" by simp
  show "llam_cap_write64_le (llam_cap_read64_le bs) ! i = bs ! i"
  proof (rule bit_word_eqI)
    fix n assume "n < LENGTH(8)"
    then have n: "n < 8" by simp
    then have "bit (llam_cap_read64_le bs) (8 * i + n) = bit (bs ! i) n"
      using bit_read64_le [OF assms, of "8 * i + n"] i by simp
    then show "bit (llam_cap_write64_le (llam_cap_read64_le bs) ! i) n = bit (bs ! i) n"
      using n i by (simp add: nth_write64_le bit_simps)
  qed
qed (simp add: assms)

section \<open>Reference SipHash-2-4\<close>

text \<open>
  SipHash-2-4 over a byte string, after the published description: little-endian eight-byte blocks,
  two compression rounds per block, a last block carrying the length, four finalisation rounds.
\<close>

type_synonym sip_vec = "u64 \<times> u64 \<times> u64 \<times> u64"

definition sip_round :: "sip_vec \<Rightarrow> sip_vec" where
  "sip_round = (\<lambda>(a, b, c, d).
     let a = a + b; c = c + d;
         b = word_rotl 13 b; d = word_rotl 16 d;
         b = b XOR a; d = d XOR c;
         a = word_rotl 32 a;
         c = c + b; a = a + d;
         b = word_rotl 17 b; d = word_rotl 21 d;
         b = b XOR c; d = d XOR a;
         c = word_rotl 32 c
     in (a, b, c, d))"

definition sip_compress :: "sip_vec \<Rightarrow> u64 \<Rightarrow> sip_vec" where
  "sip_compress = (\<lambda>(a, b, c, d) m.
     case sip_round (sip_round (a, b, c, d XOR m)) of (a, b, c, d) \<Rightarrow> (a XOR m, b, c, d))"

definition le_word :: "u8 list \<Rightarrow> u64" where
  "le_word bs = foldr (\<lambda>b w. ucast b OR push_bit 8 w) bs 0"

definition le_bytes :: "nat \<Rightarrow> 'a::len word \<Rightarrow> u8 list" where
  "le_bytes n w = map (\<lambda>i. ucast (drop_bit (8 * i) w)) [0..<n]"

function sip_blocks :: "sip_vec \<Rightarrow> u8 list \<Rightarrow> sip_vec \<times> u8 list" where
  "sip_blocks v bs =
     (if length bs < 8 then (v, bs) else sip_blocks (sip_compress v (le_word (take 8 bs))) (drop 8 bs))"
  by pat_completeness auto
termination by (relation "measure (\<lambda>(v, bs). length bs)") auto

declare sip_blocks.simps [simp del]

definition siphash_2_4 :: "u64 \<Rightarrow> u64 \<Rightarrow> u8 list \<Rightarrow> u64" where
  "siphash_2_4 k0 k1 message =
     (case sip_blocks (k0 XOR 0x736f6d6570736575, k1 XOR 0x646f72616e646f6d,
              k0 XOR 0x6c7967656e657261, k1 XOR 0x7465646279746573) message of
        (v, rest) \<Rightarrow>
          (case sip_compress v (le_word rest OR push_bit 56 (of_nat (length message))) of
             (a, b, c, d) \<Rightarrow>
               (case (sip_round ^^ 4) (a, b, c XOR 0xff, d) of
                  (a, b, c, d) \<Rightarrow> a XOR b XOR c XOR d)))"

text \<open>The canonical 72 bytes of a token.\<close>

definition token_bytes :: "capability_token \<Rightarrow> u8 list" where
  "token_bytes token =
     le_bytes 4 (tk_version token) @ le_bytes 4 (tk_family token) @ le_bytes 8 (tk_runtime_id token) @
     le_bytes 8 (tk_slot token) @ le_bytes 8 (tk_generation token) @ le_bytes 8 (tk_rights token) @
     le_bytes 8 (tk_revocation_epoch token) @ le_bytes 8 (tk_subject_id token) @ tk_nonce token"

definition sip_abs :: "siphash_state \<Rightarrow> sip_vec" where
  "sip_abs s = (sv0 s, sv1 s, sv2 s, sv3 s)"

lemma rotl64_word_rotl:
  assumes "0 < b" "b < 64"
  shows "llam_cap_rotl64 v b = word_rotl b v"
proof (rule bit_word_eqI)
  fix n assume "n < LENGTH(64)"
  then have n: "n < 64" by simp
  have idx: "(n + (64 - b)) mod 64 = (if b \<le> n then n - b else n + (64 - b))"
    using n assms by (auto simp: mod_if)
  have "bit (word_rotl b v) n = bit v (if b \<le> n then n - b else n + (64 - b))"
    using n assms unfolding idx [symmetric] by (simp add: bit_word_rotl_iff)
  moreover have "b \<le> n \<Longrightarrow> \<not> bit v (64 - b + n)" using bit_imp_le_length [of v "64 - b + n"] assms by auto
  moreover have "bit (llam_cap_rotl64 v b) n \<longleftrightarrow> b \<le> n \<and> bit v (n - b) \<or> bit v (64 - b + n)"
    using n by (simp add: llam_cap_rotl64_def bit_or_iff bit_push_bit_iff bit_drop_bit_eq)
  ultimately show "bit (llam_cap_rotl64 v b) n = bit (word_rotl b v) n"
    using assms by (cases "b \<le> n") (auto simp: add.commute)
qed

lemma sip_round_abs: "sip_abs (llam_cap_sipround s) = sip_round (sip_abs s)"
  by (simp add: llam_cap_sipround_def sip_round_def sip_abs_def Let_def rotl64_word_rotl)

lemma sip_compress_abs: "sip_abs (llam_cap_siphash_compress s m) = sip_compress (sip_abs s) m"
proof -
  have x: "sip_abs (s\<lparr>sv3 := sv3 s XOR m\<rparr>) = (sv0 s, sv1 s, sv2 s, sv3 s XOR m)" by (simp add: sip_abs_def)
  obtain u where u: "u = llam_cap_sipround (llam_cap_sipround (s\<lparr>sv3 := sv3 s XOR m\<rparr>))" by simp
  have "sip_abs u = sip_round (sip_round (sv0 s, sv1 s, sv2 s, sv3 s XOR m))"
    by (simp add: u sip_round_abs x)
  then have "sip_compress (sip_abs s) m = (case sip_abs u of (a, b, c, d) \<Rightarrow> (a XOR m, b, c, d))"
    by (simp add: sip_compress_def sip_abs_def)
  then show ?thesis
    by (simp add: llam_cap_siphash_compress_def Let_def u [symmetric]) (simp add: sip_abs_def)
qed

lemma sip_rounds_abs: "sip_abs ((llam_cap_sipround ^^ n) s) = (sip_round ^^ n) (sip_abs s)"
  by (induction n) (simp_all add: sip_round_abs)

lemma le_word_read64: "length bs = 8 \<Longrightarrow> le_word bs = llam_cap_read64_le bs"
proof -
  assume "length bs = 8"
  then obtain a b c d e f g h where "bs = [a, b, c, d, e, f, g, h]"
    by (auto simp: length_Suc_conv eval_nat_numeral)
  then show ?thesis by (simp add: le_word_def llam_cap_read64_le_def or.assoc)
qed

lemma le_bytes_8: "le_bytes 8 v = llam_cap_write64_le v"
  by (simp add: le_bytes_def llam_cap_write64_le_def upt_rec)

lemma length_le_bytes [simp]: "length (le_bytes n w) = n"
  by (simp add: le_bytes_def)

lemma sip_blocks_step:
  "length b = 8 \<Longrightarrow> sip_blocks v (b @ rest) = sip_blocks (sip_compress v (le_word b)) rest"
  by (subst sip_blocks.simps) simp

lemma sip_finish_abs:
  "llam_cap_siphash_finish s =
     (case sip_compress (sip_abs s) (push_bit 56 72) of (a, b, c, d) \<Rightarrow>
        (case (sip_round ^^ 4) (a, b, c XOR 0xff, d) of (a, b, c, d) \<Rightarrow> a XOR b XOR c XOR d))"
proof -
  let ?s1 = "llam_cap_siphash_compress s (push_bit 56 72)"
  let ?s2 = "(llam_cap_sipround ^^ 4) (?s1\<lparr>sv2 := sv2 ?s1 XOR 0xff\<rparr>)"
  have 1: "sip_compress (sip_abs s) (push_bit 56 72) = (sv0 ?s1, sv1 ?s1, sv2 ?s1, sv3 ?s1)"
    by (simp only: sip_compress_abs [symmetric]) (simp add: sip_abs_def)
  have "(sip_round ^^ 4) (sv0 ?s1, sv1 ?s1, sv2 ?s1 XOR 0xff, sv3 ?s1) = sip_abs ?s2"
    by (simp only: sip_rounds_abs) (simp add: sip_abs_def)
  then show ?thesis
    unfolding 1 by (simp only: prod.case) (simp only: llam_cap_siphash_finish_def Let_def sip_abs_def prod.case)
qed

lemma version_family_word:
  "llam_cap_read64_le (le_bytes 4 v @ le_bytes 4 f) = push_bit 32 (ucast (f :: u32)) OR ucast (v :: u32)"
proof (rule bit_word_eqI)
  fix n assume n: "n < LENGTH(64)"
  have low: "bit v m \<Longrightarrow> m < 32" "bit f m \<Longrightarrow> m < 32" for m
    using bit_imp_le_length [of v m] bit_imp_le_length [of f m] by auto
  have q: "n div 8 < 4 \<longleftrightarrow> n < 32" by auto
  have r: "8 * (n div 8) + n mod 8 = n" "8 * (n div 8 - 4) + n mod 8 = n - 32" if "\<not> n < 32"
    using that by (simp_all add: diff_mult_distrib2)
  show "bit (llam_cap_read64_le (le_bytes 4 v @ le_bytes 4 f)) n
      = bit (push_bit 32 (ucast f) OR (ucast v :: u64)) n"
    using n low q r
    by (cases "n < 32") (auto simp: bit_read64_le le_bytes_def nth_append bit_simps)
qed

lemma siphash_words:
  assumes "length nonce = 16"
  shows "siphash_2_4 k0 k1 (le_bytes 4 v @ le_bytes 4 f @ le_bytes 8 w1 @ le_bytes 8 w2 @ le_bytes 8 w3 @
      le_bytes 8 w4 @ le_bytes 8 w5 @ le_bytes 8 w6 @ nonce)
    = llam_cap_siphash_finish (fold (\<lambda>w s. llam_cap_siphash_compress s w)
        [push_bit 32 (ucast (f :: u32)) OR ucast (v :: u32), w1, w2, w3, w4, w5, w6,
         llam_cap_read64_le nonce, llam_cap_read64_le (drop 8 nonce)] (llam_cap_siphash_init k0 k1))"
proof -
  have m: "le_bytes 4 v @ le_bytes 4 f @ le_bytes 8 w1 @ le_bytes 8 w2 @ le_bytes 8 w3 @
      le_bytes 8 w4 @ le_bytes 8 w5 @ le_bytes 8 w6 @ nonce
    = (le_bytes 4 v @ le_bytes 4 f) @ le_bytes 8 w1 @ le_bytes 8 w2 @ le_bytes 8 w3 @
      le_bytes 8 w4 @ le_bytes 8 w5 @ le_bytes 8 w6 @ take 8 nonce @ drop 8 nonce @ []" (is "?m = ?m'")
    by simp
  have t8: "llam_cap_read64_le (take 8 nonce) = llam_cap_read64_le nonce"
    using read64_append [of "take 8 nonce" "drop 8 nonce"] assms by simp
  have w: "le_word (le_bytes 8 x) = x" for x :: u64
    by (simp add: le_word_read64) (simp add: le_bytes_8 read_write64_le)
  have w0: "le_word (le_bytes 4 v @ le_bytes 4 f) = push_bit 32 (ucast f) OR ucast v"
    by (simp add: le_word_read64 version_family_word)
  have w8: "le_word (take 8 nonce) = llam_cap_read64_le nonce"
    "le_word (drop 8 nonce) = llam_cap_read64_le (drop 8 nonce)"
    using assms by (simp_all add: le_word_read64 t8)
  have init: "(k0 XOR 0x736f6d6570736575, k1 XOR 0x646f72616e646f6d,
      k0 XOR 0x6c7967656e657261, k1 XOR 0x7465646279746573) = sip_abs (llam_cap_siphash_init k0 k1)"
    by (simp add: sip_abs_def llam_cap_siphash_init_def xor.commute)
  have blocks: "sip_blocks (sip_abs s) ?m' = (sip_abs (fold (\<lambda>w s. llam_cap_siphash_compress s w)
        [push_bit 32 (ucast f) OR ucast v, w1, w2, w3, w4, w5, w6,
         llam_cap_read64_le nonce, llam_cap_read64_le (drop 8 nonce)] s), [])" for s
    using assms
    by (simp add: sip_blocks_step w w0 w8 sip_compress_abs del: append_assoc append_Nil2)
      (simp add: sip_blocks.simps [of _ "[]"])
  have len: "of_nat (length ?m) = (72 :: u64)" using assms by simp
  show ?thesis
    unfolding siphash_2_4_def init len
    unfolding m blocks sip_finish_abs by (simp add: le_word_def)
qed

text \<open>
  C14. The tag of a token is textbook SipHash-2-4 of its canonical 72 bytes, computed once
  under each half of the key and written in little-endian order.
\<close>

theorem mac_is_siphash:
  assumes "length (tk_nonce token) = LLAM_CAPABILITY_NONCE_BYTES"
  shows "llam_cap_mac key token =
    le_bytes 8 (siphash_2_4 (key_words key ! 0) (key_words key ! 1) (token_bytes token)) @
    le_bytes 8 (siphash_2_4 (key_words key ! 2) (key_words key ! 3) (token_bytes token))"
  using assms
  unfolding token_bytes_def llam_cap_mac_def Let_def llam_cap_siphash_compress_pair_def le_bytes_8 [symmetric]
  by (simp add: siphash_words LLAM_CAPABILITY_NONCE_BYTES_def)

section \<open>Issuing, validating and attenuating\<close>

lemma length_mac [simp]: "length (llam_cap_mac key token) = 16"
  by (simp add: llam_cap_mac_def Let_def)

lemma xor_eq_zero_iff_u8: "a XOR b = 0 \<longleftrightarrow> a = (b :: u8)"
  by (metis xor.assoc xor.right_neutral xor_self_eq)

lemma fold_or_zero:
  "fold (\<lambda>i d. d OR f i) is d = (0 :: u8) \<longleftrightarrow> d = 0 \<and> (\<forall>i\<in>set is. f i = 0)"
  by (induction "is" arbitrary: d) (auto simp: or_eq_0_iff)

lemma mac_equal_iff:
  assumes "length a = 16" "length b = 16"
  shows "llam_cap_mac_equal a b \<longleftrightarrow> a = b"
proof -
  have "llam_cap_mac_equal a b \<longleftrightarrow> (\<forall>i<16. a ! i XOR b ! i = 0)"
    by (simp add: llam_cap_mac_equal_def fold_or_zero LLAM_CAPABILITY_MAC_BYTES_def atLeast0LessThan Ball_def)
  also have "\<dots> \<longleftrightarrow> (\<forall>i<16. a ! i = b ! i)" by (simp add: xor_eq_zero_iff_u8)
  finally show ?thesis using assms by (simp add: list_eq_iff_nth_eq)
qed

lemma mac_ignores_mac [simp]: "llam_cap_mac key (token\<lparr>tk_mac := m\<rparr>) = llam_cap_mac key token"
  by (simp add: llam_cap_mac_def)

text \<open>The fields an object lends to every token that names it.\<close>

definition token_names :: "capability_object \<Rightarrow> capability_token \<Rightarrow> bool" where
  "token_names obj tok \<longleftrightarrow> tk_family tok = co_family obj \<and> tk_runtime_id tok = co_runtime_id obj \<and>
     tk_slot tok = co_slot obj \<and> tk_generation tok = co_generation obj \<and>
     tk_revocation_epoch tok = co_revocation_epoch obj \<and> tk_subject_id tok = co_subject_id obj"

definition object_ok :: "capability_object \<Rightarrow> bool" where
  "object_ok obj \<longleftrightarrow> co_runtime_id obj \<noteq> 0 \<and> co_family obj \<noteq> 0 \<and> co_slot obj \<noteq> 0 \<and>
     co_slot obj \<noteq> UINT64_MAX \<and> co_generation obj \<noteq> 0 \<and> co_revocation_epoch obj \<noteq> 0"

definition token_fresh :: "capability_key \<Rightarrow> capability_token \<Rightarrow> bool" where
  "token_fresh key tok \<longleftrightarrow> tk_version tok = LLAM_CAPABILITY_VERSION \<and>
     length (tk_nonce tok) = LLAM_CAPABILITY_NONCE_BYTES \<and> tk_mac tok = llam_cap_mac key tok"

lemma fill_nonce_cases:
  assumes "llam_cap_fill_nonce os tok key = (r, tok', os')"
  shows "(r = Inl EIO \<and> tok' = tok) \<or>
    (r = Inr () \<and> (\<exists>nonce. length nonce = LLAM_CAPABILITY_NONCE_BYTES \<and> tok' = tok\<lparr>tk_nonce := nonce\<rparr>))"
  using assms
  by (force simp: llam_cap_fill_nonce_def Let_def LLAM_CAPABILITY_NONCE_BYTES_def
      split: prod.splits option.splits)

lemma issue_cases:
  assumes "llam_capability_issue os key (Some obj) rights (Some t0) = (r, out, os')"
  shows "(\<exists>e. r = Inl e \<and> out = Some zero_token \<and>
      (e = EINVAL \<and> \<not> (llam_cap_key_valid key \<and> object_ok obj \<and> rights \<noteq> 0) \<or> e = EIO)) \<or>
    (\<exists>tok. r = Inr () \<and> out = Some tok \<and> token_names obj tok \<and> tk_rights tok = rights \<and>
      token_fresh key tok \<and> llam_cap_key_valid key \<and> object_ok obj \<and> rights \<noteq> 0)"
proof -
  let ?tok = "zero_token\<lparr>tk_version := LLAM_CAPABILITY_VERSION, tk_family := co_family obj,
    tk_runtime_id := co_runtime_id obj, tk_slot := co_slot obj,
    tk_generation := co_generation obj, tk_rights := rights,
    tk_revocation_epoch := co_revocation_epoch obj, tk_subject_id := co_subject_id obj\<rparr>"
  obtain q tok' os2 where n: "llam_cap_fill_nonce os ?tok key = (q, tok', os2)" by (metis prod_cases3)
  show ?thesis
  proof (cases "llam_cap_key_valid key \<and> object_ok obj \<and> rights \<noteq> 0")
    case False
    with assms show ?thesis by (auto simp: llam_capability_issue_def object_ok_def Let_def)
  next
    case True
    with assms n fill_nonce_cases [OF n] show ?thesis
      by (auto simp: llam_capability_issue_def object_ok_def Let_def token_names_def token_fresh_def)
  qed
qed

lemma issue_none:
  "llam_capability_issue os key obj rights None = (Inl EINVAL, None, os)"
  "llam_capability_issue os key None rights (Some t0) = (Inl EINVAL, Some zero_token, os)"
  by (simp_all add: llam_capability_issue_def split: option.splits)

definition token_shape :: "capability_token \<Rightarrow> bool" where
  "token_shape tok \<longleftrightarrow> tk_version tok = LLAM_CAPABILITY_VERSION \<and> tk_family tok \<noteq> 0 \<and>
     tk_runtime_id tok \<noteq> 0 \<and> tk_slot tok \<noteq> 0 \<and> tk_slot tok \<noteq> UINT64_MAX \<and>
     tk_generation tok \<noteq> 0 \<and> tk_revocation_epoch tok \<noteq> 0 \<and> tk_rights tok \<noteq> 0"

lemma validate_subject_ok_iff:
  "llam_capability_validate_subject key token required epoch subject = Inr () \<longleftrightarrow>
   (\<exists>tok. token = Some tok \<and> llam_cap_key_valid key \<and> required \<noteq> 0 \<and> token_shape tok \<and>
      tk_revocation_epoch tok = epoch \<and> tk_rights tok AND required = required \<and>
      tk_subject_id tok = subject \<and> llam_cap_mac_equal (llam_cap_mac key tok) (tk_mac tok))"
  by (auto simp: llam_capability_validate_subject_def token_shape_def llam_capability_has_rights_def
      split: option.splits)

lemma fresh_token_validates:
  assumes "token_fresh key tok" "token_names obj tok" "object_ok obj" "llam_cap_key_valid key"
    and "required \<noteq> 0" "tk_rights tok \<noteq> 0" "tk_rights tok AND required = required"
  shows "llam_capability_validate_subject key (Some tok) required (co_revocation_epoch obj)
    (co_subject_id obj) = Inr ()"
  using assms
  by (auto simp: validate_subject_ok_iff token_fresh_def token_names_def object_ok_def token_shape_def
      mac_equal_iff)

text \<open>
  C15. Issuing and validating agree: an issued token names the object and carries exactly the
  requested rights, and validation under the same key accepts it for every non-empty subset of these rights at the
  object's epoch and subject, and for no right outside them, no other epoch and no other subject. A failed
  issue leaves a zeroed output token.
\<close>

theorem issue_validate_roundtrip:
  assumes "llam_capability_issue os key (Some obj) rights (Some t0) = (r, out, os')"
  shows "case r of
      Inl e \<Rightarrow> out = Some zero_token
    | Inr _ \<Rightarrow> \<exists>tok. out = Some tok \<and> token_names obj tok \<and> tk_rights tok = rights \<and>
        (\<forall>required epoch subject.
           llam_capability_validate_subject key out required epoch subject = Inr () \<longleftrightarrow>
             required \<noteq> 0 \<and> rights AND required = required \<and>
             epoch = co_revocation_epoch obj \<and> subject = co_subject_id obj)"
  using issue_cases [OF assms]
proof (elim disjE exE conjE)
  fix tok assume tok: "r = Inr ()" "out = Some tok" "token_names obj tok" "tk_rights tok = rights"
    "token_fresh key tok" "llam_cap_key_valid key" "object_ok obj" "rights \<noteq> 0"
  have "llam_capability_validate_subject key out required epoch subject = Inr () \<longleftrightarrow>
      required \<noteq> 0 \<and> rights AND required = required \<and>
      epoch = co_revocation_epoch obj \<and> subject = co_subject_id obj" (is "?l = ?r")
    for required epoch subject
  proof
    assume ?l
    then show ?r using tok by (auto simp: validate_subject_ok_iff token_names_def)
  next
    assume ?r
    then show ?l using fresh_token_validates [OF tok(5,3,7,6)] tok by simp
  qed
  then show ?thesis using tok by simp
qed simp_all

lemma attenuate_ok:
  assumes "llam_capability_attenuate os key token subset_rights epoch (Some t0) = (Inr (), out, os')"
  shows "\<exists>src tok. token = Some src \<and> out = Some tok \<and>
        llam_capability_validate_subject key token subset_rights epoch (tk_subject_id src) = Inr () \<and>
        tk_rights tok = subset_rights \<and> tk_rights src AND tk_rights tok = tk_rights tok \<and>
        tk_family tok = tk_family src \<and> tk_runtime_id tok = tk_runtime_id src \<and>
        tk_slot tok = tk_slot src \<and> tk_generation tok = tk_generation src \<and>
        tk_revocation_epoch tok = epoch \<and> tk_subject_id tok = tk_subject_id src \<and>
        llam_capability_validate_subject key out subset_rights epoch (tk_subject_id src) = Inr ()"
proof -
  obtain src where src: "token = Some src" "subset_rights \<noteq> 0"
      "llam_capability_validate_subject key token subset_rights epoch (tk_subject_id src) = Inr ()"
    and iss: "llam_capability_issue os key (Some \<lparr>co_runtime_id = tk_runtime_id src, co_family = tk_family src,
      co_slot = tk_slot src, co_generation = tk_generation src,
      co_revocation_epoch = tk_revocation_epoch src, co_subject_id = tk_subject_id src\<rparr>)
      subset_rights (Some zero_token) = (Inr (), out, os')"
    using assms
    by (auto simp: llam_capability_attenuate_def Let_def validate_subject_ok_iff
        split: if_splits sum.splits prod.splits option.splits)
  from issue_cases [OF iss] obtain tok where tok: "out = Some tok" "tk_rights tok = subset_rights"
    "token_names \<lparr>co_runtime_id = tk_runtime_id src, co_family = tk_family src,
      co_slot = tk_slot src, co_generation = tk_generation src,
      co_revocation_epoch = tk_revocation_epoch src, co_subject_id = tk_subject_id src\<rparr> tok"
    "token_fresh key tok" by auto
  show ?thesis
    using src tok
    by (auto simp: validate_subject_ok_iff token_names_def token_fresh_def token_shape_def mac_equal_iff)
qed

text \<open>
  Attenuation is monotone and fails closed: it succeeds only if the source token is valid for
  the requested rights; then the new token names the same object, epoch and subject with exactly the requested
  rights, a subset of the source's, and validates for them. Otherwise the output is zeroed, also
  when the output is the source itself.
\<close>

theorem attenuate_monotone:
  assumes "llam_capability_attenuate os key token subset_rights epoch (Some t0) = (r, out, os')"
  shows "case r of
      Inl e \<Rightarrow> out = Some zero_token
    | Inr _ \<Rightarrow> \<exists>src tok. token = Some src \<and> out = Some tok \<and>
        llam_capability_validate_subject key token subset_rights epoch (tk_subject_id src) = Inr () \<and>
        tk_rights tok = subset_rights \<and> tk_rights src AND tk_rights tok = tk_rights tok \<and>
        tk_family tok = tk_family src \<and> tk_runtime_id tok = tk_runtime_id src \<and>
        tk_slot tok = tk_slot src \<and> tk_generation tok = tk_generation src \<and>
        tk_revocation_epoch tok = epoch \<and> tk_subject_id tok = tk_subject_id src \<and>
        llam_capability_validate_subject key out subset_rights epoch (tk_subject_id src) = Inr ()"
proof (cases r)
  case (Inl e)
  with assms show ?thesis
    by (auto simp: llam_capability_attenuate_def Let_def split: if_splits sum.splits prod.splits)
next
  case (Inr u)
  with assms have "llam_capability_attenuate os key token subset_rights epoch (Some t0) = (Inr (), out, os')" by simp
  from attenuate_ok [OF this] show ?thesis using Inr by simp
qed

section \<open>Keys\<close>

lemma entropy_word_cases:
  assumes "llam_cap_entropy_word os = (w, os')"
  shows "(w = None) \<or> (\<exists>x. w = Some x \<and> x \<noteq> 0 \<and> os_entropy os = Some x # os_entropy os')"
  using assms
  by (auto simp: llam_cap_entropy_word_def llam_public_slot_entropy_from_os_def os_take_entropy_def
      split: list.splits option.splits prod.splits if_splits)

lemma fallback_secret_entropy:
  "llam_public_slot_fallback_secret os a b c = (f, os') \<Longrightarrow> os_entropy os' = os_entropy os"
  by (auto simp: llam_public_slot_fallback_secret_def os_take_clock_def Let_def
      split: list.splits option.splits prod.splits)

lemma key_clear_zero: "length (key_words key) = 4 \<Longrightarrow> llam_capability_key_clear key = zero_key"
  by (auto simp: llam_capability_key_clear_def zero_key_def length_Suc_conv eval_nat_numeral upt_rec)

lemma key_init_loop_cases:
  assumes "key_init_loop os key scope seed is = (r, key', os')" "length (key_words key) = 4"
  shows "(r = Inl EIO \<and> key' = zero_key) \<or>
    (r = Inr () \<and> length (key_words key') = 4 \<and>
      (\<exists>ws. length ws = length is \<and> 0 \<notin> set ws \<and> os_entropy os = map Some ws @ os_entropy os'))"
  using assms
proof (induction "is" arbitrary: os key)
  case (Cons i js)
  obtain w os1 where w: "llam_cap_entropy_word os = (w, os1)" by fastforce
  show ?case
  proof (cases w)
    case None
    with Cons.prems w show ?thesis by (simp add: key_clear_zero)
  next
    case (Some x)
    obtain f os2 where f: "llam_public_slot_fallback_secret os1 (os_key_addr os1) scope
        (seed XOR push_bit 32 (of_nat i)) = (f, os2)" by fastforce
    let ?k = "key\<lparr>key_words := (key_words key)
      [i := llam_public_slot_mix64 ((x XOR f) XOR 0x9e3779b97f4a7c15 * of_nat (i + 1))]\<rparr>"
    have run: "key_init_loop os2 ?k scope seed js = (r, key', os')"
      using Cons.prems(1) w Some f by (simp add: Let_def)
    have x: "x \<noteq> 0" "os_entropy os = Some x # os_entropy os2"
      using entropy_word_cases [OF w] Some fallback_secret_entropy [OF f] by auto
    have "length (key_words ?k) = 4" using Cons.prems(2) by simp
    from Cons.IH [OF run this] show ?thesis
    proof (elim disjE exE conjE)
      fix ws assume "r = Inr ()" "length (key_words key') = 4" "length ws = length js" "0 \<notin> set ws"
        "os_entropy os2 = map Some ws @ os_entropy os'"
      with x show ?thesis by (intro disjI2 conjI exI [of _ "x # ws"]) auto
    qed simp
  qed
qed auto

text \<open>
  Key initialisation fails closed: a key is accepted only if it is non-zero and was built from four non-zero
  words of operating-system entropy; on every failure the error is \<^verbatim>\<open>EIO\<close> and no key material is left behind.
\<close>

theorem key_init_fails_closed:
  "case llam_capability_key_init os scope seed of
     (Inl e, key, os') \<Rightarrow> e = EIO \<and> key = zero_key
   | (Inr _, key, os') \<Rightarrow> llam_cap_key_valid key \<and> length (key_words key) = 4 \<and>
       (\<exists>a b c d. 0 \<notin> set [a, b, c, d] \<and> os_entropy os = map Some [a, b, c, d] @ os_entropy os')"
proof -
  obtain r key os' where run: "key_init_loop os zero_key scope seed [0..<4] = (r, key, os')"
    by (metis prod_cases3)
  from key_init_loop_cases [OF run] have c: "(r = Inl EIO \<and> key = zero_key) \<or>
    (r = Inr () \<and> length (key_words key) = 4 \<and>
      (\<exists>ws. length ws = 4 \<and> 0 \<notin> set ws \<and> os_entropy os = map Some ws @ os_entropy os'))"
    by (simp add: zero_key_def)
  have z: "\<not> llam_cap_key_valid key \<Longrightarrow> length (key_words key) = 4 \<Longrightarrow> key = zero_key"
    by (cases key) (auto simp: llam_cap_key_valid_def zero_key_def length_Suc_conv eval_nat_numeral or_eq_0_iff)
  from c show ?thesis
  proof (elim disjE exE conjE)
    fix ws assume r: "r = Inr ()" and l: "length (key_words key) = 4"
      and ws: "length ws = 4" "0 \<notin> set ws" "os_entropy os = map Some ws @ os_entropy os'"
    from ws(1) obtain a b c d where "ws = [a, b, c, d]" by (auto simp: length_Suc_conv eval_nat_numeral)
    with ws have "\<exists>a b c d. 0 \<notin> set [a, b, c, d] \<and> os_entropy os = map Some [a, b, c, d] @ os_entropy os'"
      by blast
    with r l z show ?thesis by (simp add: llam_capability_key_init_def run)
  qed (simp add: llam_capability_key_init_def run)
qed

section \<open>A concrete key and object\<close>

definition example_key :: capability_key where
  "example_key = \<lparr>key_words = [1, 2, 3, 4]\<rparr>"

definition example_object :: capability_object where
  "example_object = \<lparr>co_runtime_id = 9, co_family = 2, co_slot = 5, co_generation = 11,
     co_revocation_epoch = 7, co_subject_id = 6\<rparr>"

definition example_entropy_os :: os_env where
  "example_entropy_os = example_os\<lparr>os_entropy := [Some 21, Some 22, Some 23, Some 24]\<rparr>"

lemma issue_succeeds:
  assumes "llam_cap_key_valid key" "object_ok obj" "rights \<noteq> 0"
    and "os_entropy os = Some a # Some b # es" "a \<noteq> 0" "b \<noteq> 0"
  shows "\<exists>tok os'. llam_capability_issue os key (Some obj) rights (Some t0) = (Inr (), Some tok, os') \<and>
    os_entropy os' = es"
proof -
  have e: "llam_cap_entropy_word os = (Some a, os\<lparr>os_entropy := Some b # es\<rparr>)"
    "llam_cap_entropy_word (os\<lparr>os_entropy := Some b # es\<rparr>) = (Some b, os\<lparr>os_entropy := es\<rparr>)"
    using assms(4-6)
    by (simp_all add: llam_cap_entropy_word_def llam_public_slot_entropy_from_os_def os_take_entropy_def)
  have "\<exists>tok' os'. llam_cap_fill_nonce os tok key = (Inr (), tok', os') \<and> os_entropy os' = es" for tok
    by (auto simp: llam_cap_fill_nonce_def e Let_def split: prod.splits dest!: fallback_secret_entropy)
  then obtain tok' os' where "llam_cap_fill_nonce os (zero_token\<lparr>tk_version := LLAM_CAPABILITY_VERSION,
      tk_family := co_family obj, tk_runtime_id := co_runtime_id obj, tk_slot := co_slot obj,
      tk_generation := co_generation obj, tk_rights := rights, tk_revocation_epoch := co_revocation_epoch obj,
      tk_subject_id := co_subject_id obj\<rparr>) key = (Inr (), tok', os')" "os_entropy os' = es"
    by blast
  then show ?thesis using assms(1-3) by (simp add: llam_capability_issue_def object_ok_def Let_def)
qed

lemma example_key_object: "llam_cap_key_valid example_key" "object_ok example_object"
  by (simp_all add: llam_cap_key_valid_def example_key_def object_ok_def example_object_def)

theorem mac_is_siphash_witness:
  "llam_cap_mac example_key zero_token =
     le_bytes 8 (siphash_2_4 1 2 (token_bytes zero_token)) @ le_bytes 8 (siphash_2_4 3 4 (token_bytes zero_token))"
  using mac_is_siphash [of zero_token example_key] by (simp add: zero_token_def example_key_def numeral_2_eq_2 numeral_3_eq_3)

theorem issue_validate_roundtrip_witness:
  "\<exists>tok os'. llam_capability_issue example_entropy_os example_key (Some example_object) 3 (Some zero_token)
       = (Inr (), Some tok, os') \<and>
     llam_capability_validate_subject example_key (Some tok) 1 7 6 = Inr () \<and>
     llam_capability_validate_subject example_key (Some tok) 4 7 6 \<noteq> Inr ()"
proof -
  have "os_entropy example_entropy_os = Some 21 # Some 22 # [Some 23, Some 24]" by (simp add: example_entropy_os_def)
  from issue_succeeds [OF example_key_object _ this, of 3 zero_token] obtain tok os'
    where i: "llam_capability_issue example_entropy_os example_key (Some example_object) 3 (Some zero_token)
       = (Inr (), Some tok, os')" by auto
  have v: "llam_capability_validate_subject example_key (Some tok) required 7 6 = Inr () \<longleftrightarrow>
      required \<noteq> 0 \<and> 3 AND required = required" for required
    using issue_validate_roundtrip [OF i] by (auto simp: example_object_def)
  have "llam_capability_validate_subject example_key (Some tok) 1 7 6 = Inr ()"
    "llam_capability_validate_subject example_key (Some tok) 4 7 6 \<noteq> Inr ()"
    unfolding v by simp_all
  with i show ?thesis by blast
qed

theorem attenuate_monotone_witness:
  "\<exists>src tok os'. llam_capability_attenuate (example_entropy_os\<lparr>os_entropy := [Some 23, Some 24]\<rparr>) example_key (Some src) 1 7 (Some src)
       = (Inr (), Some tok, os') \<and> tk_rights src = 3 \<and> tk_rights tok = 1 \<and>
     llam_capability_validate_subject example_key (Some tok) 1 7 6 = Inr ()"
proof -
  let ?os2 = "example_entropy_os\<lparr>os_entropy := [Some 23, Some 24]\<rparr>"
  have "os_entropy example_entropy_os = Some 21 # Some 22 # [Some 23, Some 24]" by (simp add: example_entropy_os_def)
  from issue_succeeds [OF example_key_object _ this, of 3 zero_token] obtain src os1
    where i: "llam_capability_issue example_entropy_os example_key (Some example_object) 3 (Some zero_token)
       = (Inr (), Some src, os1)" by auto
  from issue_cases [OF i] have src: "token_names example_object src" "tk_rights src = 3" "token_fresh example_key src"
    by auto
  have sid: "tk_subject_id src = 6" using src(1) by (simp add: token_names_def example_object_def)
  have v: "llam_capability_validate_subject example_key (Some src) 1 7 6 = Inr ()"
    using fresh_token_validates [OF src(3,1) example_key_object(2,1), of 1] src(2) by (simp add: example_object_def)
  let ?obj = "\<lparr>co_runtime_id = tk_runtime_id src, co_family = tk_family src, co_slot = tk_slot src,
    co_generation = tk_generation src, co_revocation_epoch = tk_revocation_epoch src,
    co_subject_id = tk_subject_id src\<rparr>"
  have ok: "object_ok ?obj" using src(1) example_key_object(2) by (auto simp: token_names_def object_ok_def)
  from issue_succeeds [OF example_key_object(1) ok, of 1 ?os2 23 24 "[]" zero_token] obtain tok os2
    where i2: "llam_capability_issue ?os2 example_key (Some ?obj) 1 (Some zero_token) = (Inr (), Some tok, os2)"
    by auto
  have a: "llam_capability_attenuate ?os2 example_key (Some src) 1 7 (Some src) = (Inr (), Some tok, os2)"
    using v src(2) i2 by (simp add: llam_capability_attenuate_def sid)
  from attenuate_monotone [OF a] show ?thesis using a src(2) sid by auto
qed

end
