(* ===== verification/Ring_Queue.thy ===== *)
theory Ring_Queue
  imports Capability
begin

text \<open>
  The shared-memory ring of the broker (\<^verbatim>\<open>internal/runtime_broker_ring.h\<close>,
  \<^verbatim>\<open>core/broker/ring/broker_ring_queue.c\<close>, \<^verbatim>\<open>broker_ring_stats.c\<close>): two single-producer single-consumer queues with
  free-running 64-bit cursors over 256-entry arrays, and the diagnostic counters. Both queues and the
  message ring of a broker channel implement one bounded FIFO interface, given here as a locale.
  The operations are modelled as seen by the side that calls them, between its accesses to the
  cursors of the other side.
\<close>

section \<open>The bounded FIFO interface\<close>

text \<open>
  A queue with a capacity, and with a budget of insertions for queues whose cursors run freely
  through the machine word: a put uses up at most one unit.
\<close>

locale bounded_fifo =
  fixes inv :: "'s \<Rightarrow> bool"
    and contents :: "'s \<Rightarrow> 'x list"
    and bound :: "'s \<Rightarrow> nat"
    and budget :: "'s \<Rightarrow> nat"
    and put :: "'x \<Rightarrow> 's \<Rightarrow> 's result"
    and take_one :: "'s \<Rightarrow> ('x \<times> 's) result"
  assumes put_ok: "inv s \<Longrightarrow> length (contents s) < bound s \<Longrightarrow> 0 < budget s \<Longrightarrow>
      \<exists>s'. put x s = Inr s' \<and> inv s' \<and> contents s' = contents s @ [x] \<and> bound s' = bound s \<and>
        budget s \<le> Suc (budget s')"
    and put_full: "inv s \<Longrightarrow> bound s \<le> length (contents s) \<Longrightarrow> put x s = Inl EAGAIN"
    and take_ok: "inv s \<Longrightarrow> contents s = x # xs \<Longrightarrow>
      \<exists>s'. take_one s = Inr (x, s') \<and> inv s' \<and> contents s' = xs \<and> bound s' = bound s"
    and take_empty: "inv s \<Longrightarrow> contents s = [] \<Longrightarrow> take_one s = Inl EAGAIN"
begin

primrec put_all :: "'x list \<Rightarrow> 's \<Rightarrow> 's result" where
  "put_all [] s = Inr s"
| "put_all (x # xs) s = (case put x s of Inl e \<Rightarrow> Inl e | Inr s' \<Rightarrow> put_all xs s')"

primrec take_n :: "nat \<Rightarrow> 's \<Rightarrow> ('x list \<times> 's) result" where
  "take_n 0 s = Inr ([], s)"
| "take_n (Suc n) s = (case take_one s of Inl e \<Rightarrow> Inl e
     | Inr (x, s') \<Rightarrow> map_sum id (\<lambda>(xs, s). (x # xs, s)) (take_n n s'))"

lemma put_all_ok:
  assumes "inv s" "length (contents s) + length xs \<le> bound s" "length xs \<le> budget s"
  shows "\<exists>s'. put_all xs s = Inr s' \<and> inv s' \<and> contents s' = contents s @ xs \<and> bound s' = bound s"
  using assms
proof (induction xs arbitrary: s)
  case (Cons x xs)
  then obtain s1 where s1: "put x s = Inr s1" "inv s1" "contents s1 = contents s @ [x]" "bound s1 = bound s"
    "budget s \<le> Suc (budget s1)"
    using put_ok [of s x] by auto
  have "length (contents s1) + length xs \<le> bound s1" "length xs \<le> budget s1" using Cons.prems s1 by simp_all
  from Cons.IH [OF s1(2) this] show ?case using s1 by auto
qed simp

lemma take_n_ok:
  assumes "inv s" "n \<le> length (contents s)"
  shows "\<exists>s'. take_n n s = Inr (take n (contents s), s') \<and> inv s' \<and> contents s' = drop n (contents s)"
  using assms
proof (induction n arbitrary: s)
  case (Suc n)
  then obtain x xs where c: "contents s = x # xs" by (cases "contents s") auto
  then obtain s1 where s1: "take_one s = Inr (x, s1)" "inv s1" "contents s1 = xs"
    using take_ok [OF Suc.prems(1)] by blast
  have "n \<le> length (contents s1)" using Suc.prems(2) c s1(3) by simp
  from Suc.IH [OF s1(2) this] show ?case using s1 c by auto
qed simp

text \<open>Everything put into an empty queue comes out once, in order.\<close>

lemma fifo_roundtrip:
  assumes "inv s" "contents s = []" "length xs \<le> bound s" "length xs \<le> budget s"
  shows "\<exists>s1 s2. put_all xs s = Inr s1 \<and> take_n (length xs) s1 = Inr (xs, s2) \<and> contents s2 = []"
proof -
  from put_all_ok [of s xs] assms obtain s1 where "put_all xs s = Inr s1" "inv s1" "contents s1 = xs"
    by auto
  moreover from this take_n_ok [of s1 "length xs"] obtain s2
    where "take_n (length xs) s1 = Inr (xs, s2)" "contents s2 = []" by auto
  ultimately show ?thesis by blast
qed

end

section \<open>The ring\<close>

definition LLAM_BROKER_RING_MAGIC :: u32 where "LLAM_BROKER_RING_MAGIC = 0x4c4c5251"
definition LLAM_BROKER_RING_VERSION :: u32 where "LLAM_BROKER_RING_VERSION = 2"
definition LLAM_BROKER_RING_CAP :: nat where "LLAM_BROKER_RING_CAP = 256"
definition LLAM_BROKER_RING_MASK :: u64 where "LLAM_BROKER_RING_MASK = 255"
definition LLAM_BROKER_RING_DATA_BYTES :: nat where "LLAM_BROKER_RING_DATA_BYTES = 4096"
definition LLAM_BROKER_RING_SERVE_BATCH_MAX :: nat where "LLAM_BROKER_RING_SERVE_BATCH_MAX = 32"

record ring_submission =
  sb_request_id :: u64
  sb_op :: u32
  sb_arg0 :: u64
  sb_arg1 :: u64
  sb_arg2 :: u64
  sb_token :: capability_token

record ring_completion =
  cp_request_id :: u64
  cp_status :: int
  cp_error_code :: errno
  cp_result0 :: u64
  cp_result1 :: u64

definition zero_submission :: ring_submission where
  "zero_submission = \<lparr>sb_request_id = 0, sb_op = 0, sb_arg0 = 0, sb_arg1 = 0, sb_arg2 = 0, sb_token = zero_token\<rparr>"

definition zero_completion :: ring_completion where
  "zero_completion = \<lparr>cp_request_id = 0, cp_status = 0, cp_error_code = E_OK, cp_result0 = 0, cp_result1 = 0\<rparr>"

record broker_ring =
  rg_magic :: u32
  rg_version :: u32
  rg_capacity :: u32
  rg_submit_head :: u64
  rg_submit_tail :: u64
  rg_complete_head :: u64
  rg_complete_tail :: u64
  rg_client_stats :: "u64 list"
  rg_broker_stats :: "u64 list"
  rg_submissions :: "ring_submission list"
  rg_completions :: "ring_completion list"
  rg_data :: "u8 list"

text \<open>The counters, by the index the source's enumerations give them.\<close>

definition STAT_SUBMIT_PUSHES :: nat where "STAT_SUBMIT_PUSHES = 0"
definition STAT_SUBMIT_FULL :: nat where "STAT_SUBMIT_FULL = 1"
definition STAT_SUBMIT_TAIL_PUBLISHES :: nat where "STAT_SUBMIT_TAIL_PUBLISHES = 2"
definition STAT_COMPLETE_DRAIN_CALLS :: nat where "STAT_COMPLETE_DRAIN_CALLS = 3"
definition STAT_COMPLETE_DRAIN_ENTRIES :: nat where "STAT_COMPLETE_DRAIN_ENTRIES = 4"
definition STAT_COMPLETE_EMPTY :: nat where "STAT_COMPLETE_EMPTY = 5"
definition STAT_COMPLETE_HEAD_PUBLISHES :: nat where "STAT_COMPLETE_HEAD_PUBLISHES = 6"
definition STAT_COMPLETE_BATCH_MAX :: nat where "STAT_COMPLETE_BATCH_MAX = 7"
definition STAT_SERVE_CALLS :: nat where "STAT_SERVE_CALLS = 0"
definition STAT_SERVE_SUCCESS :: nat where "STAT_SERVE_SUCCESS = 1"
definition STAT_SUBMIT_EMPTY :: nat where "STAT_SUBMIT_EMPTY = 2"
definition STAT_COMPLETE_FULL :: nat where "STAT_COMPLETE_FULL = 3"
definition STAT_SUBMIT_HEAD_PUBLISHES :: nat where "STAT_SUBMIT_HEAD_PUBLISHES = 4"
definition STAT_COMPLETE_TAIL_PUBLISHES :: nat where "STAT_COMPLETE_TAIL_PUBLISHES = 5"
definition STAT_SERVE_LATENCY_NS_TOTAL :: nat where "STAT_SERVE_LATENCY_NS_TOTAL = 6"
definition STAT_SERVE_LATENCY_NS_MAX :: nat where "STAT_SERVE_LATENCY_NS_MAX = 7"

definition llam_broker_ring_client_stat_add :: "broker_ring \<Rightarrow> nat \<Rightarrow> u64 \<Rightarrow> broker_ring" where
  "llam_broker_ring_client_stat_add ring stat delta =
     ring\<lparr>rg_client_stats := (rg_client_stats ring)[stat := rg_client_stats ring ! stat + delta]\<rparr>"

definition llam_broker_ring_client_stat_max :: "broker_ring \<Rightarrow> nat \<Rightarrow> u64 \<Rightarrow> broker_ring" where
  "llam_broker_ring_client_stat_max ring stat v =
     (if rg_client_stats ring ! stat < v
      then ring\<lparr>rg_client_stats := (rg_client_stats ring)[stat := v]\<rparr> else ring)"

definition llam_broker_ring_broker_stat_add :: "broker_ring \<Rightarrow> nat \<Rightarrow> u64 \<Rightarrow> broker_ring" where
  "llam_broker_ring_broker_stat_add ring stat delta =
     ring\<lparr>rg_broker_stats := (rg_broker_stats ring)[stat := rg_broker_stats ring ! stat + delta]\<rparr>"

definition llam_broker_ring_broker_stat_max :: "broker_ring \<Rightarrow> nat \<Rightarrow> u64 \<Rightarrow> broker_ring" where
  "llam_broker_ring_broker_stat_max ring stat v =
     (if rg_broker_stats ring ! stat < v
      then ring\<lparr>rg_broker_stats := (rg_broker_stats ring)[stat := v]\<rparr> else ring)"

definition llam_broker_ring_valid :: "broker_ring \<Rightarrow> bool" where
  "llam_broker_ring_valid ring \<longleftrightarrow>
     rg_magic ring = LLAM_BROKER_RING_MAGIC \<and> rg_version ring = LLAM_BROKER_RING_VERSION \<and>
     rg_capacity ring = of_nat LLAM_BROKER_RING_CAP"

definition llam_broker_ring_window_valid :: "u64 \<Rightarrow> u64 \<Rightarrow> bool" where
  "llam_broker_ring_window_valid head tail \<longleftrightarrow> head \<le> tail \<and> tail - head \<le> of_nat LLAM_BROKER_RING_CAP"

text \<open>A fresh ring, whatever the memory held before.\<close>

definition llam_broker_ring_init :: broker_ring where
  "llam_broker_ring_init =
     \<lparr>rg_magic = LLAM_BROKER_RING_MAGIC, rg_version = LLAM_BROKER_RING_VERSION,
      rg_capacity = of_nat LLAM_BROKER_RING_CAP,
      rg_submit_head = 0, rg_submit_tail = 0, rg_complete_head = 0, rg_complete_tail = 0,
      rg_client_stats = replicate 8 0, rg_broker_stats = replicate 8 0,
      rg_submissions = replicate LLAM_BROKER_RING_CAP zero_submission,
      rg_completions = replicate LLAM_BROKER_RING_CAP zero_completion,
      rg_data = replicate LLAM_BROKER_RING_DATA_BYTES 0\<rparr>"

definition ring_index :: "u64 \<Rightarrow> nat" where
  "ring_index cursor = unat (cursor AND LLAM_BROKER_RING_MASK)"

section \<open>Queue operations\<close>

definition llam_broker_ring_submit_push ::
    "broker_ring \<Rightarrow> ring_submission option \<Rightarrow> unit result \<times> broker_ring" where
  "llam_broker_ring_submit_push ring entry =
     (case entry of
        None \<Rightarrow> (Inl EINVAL, ring)
      | Some e \<Rightarrow>
          if \<not> llam_broker_ring_valid ring then (Inl EINVAL, ring)
          else let tail = rg_submit_tail ring; head = rg_submit_head ring in
            if \<not> llam_broker_ring_window_valid head tail then (Inl EINVAL, ring)
            else if of_nat LLAM_BROKER_RING_CAP \<le> tail - head
            then (Inl EAGAIN, llam_broker_ring_client_stat_add ring STAT_SUBMIT_FULL 1)
            else let ring = ring\<lparr>rg_submissions := (rg_submissions ring)[ring_index tail := e]\<rparr>;
                     ring = ring\<lparr>rg_submit_tail := tail + 1\<rparr>;
                     ring = llam_broker_ring_client_stat_add ring STAT_SUBMIT_PUSHES 1;
                     ring = llam_broker_ring_client_stat_add ring STAT_SUBMIT_TAIL_PUBLISHES 1
                 in (Inr (), ring))"

definition llam_broker_ring_submit_pop ::
    "broker_ring \<Rightarrow> ring_submission option \<Rightarrow> unit result \<times> ring_submission option \<times> broker_ring" where
  "llam_broker_ring_submit_pop ring out_entry =
     (let out_entry = map_option (\<lambda>_. zero_submission) out_entry in
      if \<not> llam_broker_ring_valid ring \<or> out_entry = None then (Inl EINVAL, out_entry, ring)
      else let head = rg_submit_head ring; tail = rg_submit_tail ring in
        if \<not> llam_broker_ring_window_valid head tail then (Inl EINVAL, out_entry, ring)
        else if head = tail then (Inl EAGAIN, out_entry, ring)
        else (Inr (), Some (rg_submissions ring ! ring_index head), ring\<lparr>rg_submit_head := head + 1\<rparr>))"

definition llam_broker_ring_complete_push ::
    "broker_ring \<Rightarrow> ring_completion option \<Rightarrow> unit result \<times> broker_ring" where
  "llam_broker_ring_complete_push ring entry =
     (case entry of
        None \<Rightarrow> (Inl EINVAL, ring)
      | Some e \<Rightarrow>
          if \<not> llam_broker_ring_valid ring then (Inl EINVAL, ring)
          else let tail = rg_complete_tail ring; head = rg_complete_head ring in
            if \<not> llam_broker_ring_window_valid head tail then (Inl EINVAL, ring)
            else if of_nat LLAM_BROKER_RING_CAP \<le> tail - head
            then (Inl EAGAIN, llam_broker_ring_broker_stat_add ring STAT_COMPLETE_FULL 1)
            else let ring = ring\<lparr>rg_completions := (rg_completions ring)[ring_index tail := e]\<rparr>;
                     ring = ring\<lparr>rg_complete_tail := tail + 1\<rparr>;
                     ring = llam_broker_ring_broker_stat_add ring STAT_COMPLETE_TAIL_PUBLISHES 1
                 in (Inr (), ring))"

text \<open>
  Draining a batch. The output array is \<open>None\<close> for a null pointer; \<open>max_entries\<close> is the
  element count the caller states for it. \<^verbatim>\<open>sizeof\<close> of a completion is 32 bytes.
\<close>

definition llam_broker_ring_complete_drain ::
    "broker_ring \<Rightarrow> ring_completion list option \<Rightarrow> nat \<Rightarrow> nat option \<Rightarrow>
     unit result \<times> ring_completion list option \<times> nat option \<times> broker_ring" where
  "llam_broker_ring_complete_drain ring out_entries max_entries out_count =
     (let out_count = map_option (\<lambda>_. 0) out_count in
      if out_entries \<noteq> None \<and> 0 < max_entries \<and> 18446744073709551615 div 32 < max_entries
      then (Inl EOVERFLOW, map_option (\<lambda>es. es[0 := zero_completion]) out_entries, out_count, ring)
      else let out_entries = (if 0 < max_entries
                 then map_option (\<lambda>es. replicate max_entries zero_completion @ drop max_entries es) out_entries
                 else out_entries)
           in if \<not> llam_broker_ring_valid ring \<or> out_count = None \<or> (0 < max_entries \<and> out_entries = None)
              then (Inl EINVAL, out_entries, out_count, ring)
              else if max_entries = 0 then (Inr (), out_entries, out_count, ring)
              else let ring = llam_broker_ring_client_stat_add ring STAT_COMPLETE_DRAIN_CALLS 1;
                       head = rg_complete_head ring; tail = rg_complete_tail ring
                   in if \<not> llam_broker_ring_window_valid head tail
                      then (Inl EINVAL, out_entries, out_count, ring)
                      else let available = tail - head in
                        if available = 0
                        then (Inr (), out_entries, out_count,
                              llam_broker_ring_client_stat_add ring STAT_COMPLETE_EMPTY 1)
                        else let count = (if unat available < max_entries then unat available else max_entries);
                                 entries = map (\<lambda>i. rg_completions ring ! ring_index (head + of_nat i)) [0..<count];
                                 ring = ring\<lparr>rg_complete_head := head + of_nat count\<rparr>;
                                 ring = llam_broker_ring_client_stat_add ring STAT_COMPLETE_DRAIN_ENTRIES (of_nat count);
                                 ring = llam_broker_ring_client_stat_add ring STAT_COMPLETE_HEAD_PUBLISHES 1;
                                 ring = llam_broker_ring_client_stat_max ring STAT_COMPLETE_BATCH_MAX (of_nat count)
                             in (Inr (), map_option (\<lambda>es. entries @ drop count es) out_entries, Some count, ring))"

definition llam_broker_ring_complete_pop ::
    "broker_ring \<Rightarrow> ring_completion option \<Rightarrow> unit result \<times> ring_completion option \<times> broker_ring" where
  "llam_broker_ring_complete_pop ring out_entry =
     (let out_entry = map_option (\<lambda>_. zero_completion) out_entry in
      case out_entry of
        None \<Rightarrow> (Inl EINVAL, out_entry, ring)
      | Some e \<Rightarrow>
          if \<not> llam_broker_ring_valid ring then (Inl EINVAL, out_entry, ring)
          else (case llam_broker_ring_complete_drain ring (Some [e]) 1 (Some 0) of
                  (Inl err, es, _, ring) \<Rightarrow> (Inl err, map_option (\<lambda>es. es ! 0) es, ring)
                | (Inr _, es, count, ring) \<Rightarrow>
                    (if count = Some 0 then Inl EAGAIN else Inr (), map_option (\<lambda>es. es ! 0) es, ring)))"

record ring_stats =
  rs_client_submit_pushes :: u64
  rs_client_submit_full :: u64
  rs_client_submit_tail_publishes :: u64
  rs_client_complete_drain_calls :: u64
  rs_client_complete_drain_entries :: u64
  rs_client_complete_empty :: u64
  rs_client_complete_head_publishes :: u64
  rs_client_complete_batch_max :: u64
  rs_broker_serve_calls :: u64
  rs_broker_serve_success :: u64
  rs_broker_submit_empty :: u64
  rs_broker_complete_full :: u64
  rs_broker_submit_head_publishes :: u64
  rs_broker_complete_tail_publishes :: u64
  rs_broker_serve_latency_ns_total :: u64
  rs_broker_serve_latency_ns_max :: u64
  rs_cursor_write_estimate :: u64

definition zero_ring_stats :: ring_stats where
  "zero_ring_stats = \<lparr>rs_client_submit_pushes = 0, rs_client_submit_full = 0,
     rs_client_submit_tail_publishes = 0, rs_client_complete_drain_calls = 0,
     rs_client_complete_drain_entries = 0, rs_client_complete_empty = 0,
     rs_client_complete_head_publishes = 0, rs_client_complete_batch_max = 0,
     rs_broker_serve_calls = 0, rs_broker_serve_success = 0, rs_broker_submit_empty = 0,
     rs_broker_complete_full = 0, rs_broker_submit_head_publishes = 0,
     rs_broker_complete_tail_publishes = 0, rs_broker_serve_latency_ns_total = 0,
     rs_broker_serve_latency_ns_max = 0, rs_cursor_write_estimate = 0\<rparr>"

definition llam_broker_ring_collect_stats ::
    "broker_ring \<Rightarrow> ring_stats option \<Rightarrow> unit result \<times> ring_stats option" where
  "llam_broker_ring_collect_stats ring out_stats =
     (let out_stats = map_option (\<lambda>_. zero_ring_stats) out_stats in
      if \<not> llam_broker_ring_valid ring \<or> out_stats = None then (Inl EINVAL, out_stats)
      else let c = (\<lambda>i. rg_client_stats ring ! i); b = (\<lambda>i. rg_broker_stats ring ! i) in
        (Inr (), Some \<lparr>rs_client_submit_pushes = c STAT_SUBMIT_PUSHES,
           rs_client_submit_full = c STAT_SUBMIT_FULL,
           rs_client_submit_tail_publishes = c STAT_SUBMIT_TAIL_PUBLISHES,
           rs_client_complete_drain_calls = c STAT_COMPLETE_DRAIN_CALLS,
           rs_client_complete_drain_entries = c STAT_COMPLETE_DRAIN_ENTRIES,
           rs_client_complete_empty = c STAT_COMPLETE_EMPTY,
           rs_client_complete_head_publishes = c STAT_COMPLETE_HEAD_PUBLISHES,
           rs_client_complete_batch_max = c STAT_COMPLETE_BATCH_MAX,
           rs_broker_serve_calls = b STAT_SERVE_CALLS,
           rs_broker_serve_success = b STAT_SERVE_SUCCESS,
           rs_broker_submit_empty = b STAT_SUBMIT_EMPTY,
           rs_broker_complete_full = b STAT_COMPLETE_FULL,
           rs_broker_submit_head_publishes = b STAT_SUBMIT_HEAD_PUBLISHES,
           rs_broker_complete_tail_publishes = b STAT_COMPLETE_TAIL_PUBLISHES,
           rs_broker_serve_latency_ns_total = b STAT_SERVE_LATENCY_NS_TOTAL,
           rs_broker_serve_latency_ns_max = b STAT_SERVE_LATENCY_NS_MAX,
           rs_cursor_write_estimate =
             c STAT_SUBMIT_TAIL_PUBLISHES + c STAT_COMPLETE_HEAD_PUBLISHES +
             b STAT_SUBMIT_HEAD_PUBLISHES + b STAT_COMPLETE_TAIL_PUBLISHES\<rparr>))"

section \<open>Cursor arithmetic\<close>

lemma ring_index_mod: "ring_index c = unat c mod 256"
proof -
  have "ring_index c = unat (c AND mask 8)"
    by (simp add: ring_index_def LLAM_BROKER_RING_MASK_def mask_eq_exp_minus_1)
  then show ?thesis by (simp only: unat_and_mask_mod) simp
qed

lemma window_valid_unat:
  "llam_broker_ring_window_valid h t \<longleftrightarrow> unat h \<le> unat t \<and> unat t - unat h \<le> 256"
  by (auto simp: llam_broker_ring_window_valid_def LLAM_BROKER_RING_CAP_def word_le_nat_alt unat_sub_if')

lemma unat_window_len: "unat h \<le> unat t \<Longrightarrow> unat (t - h) = unat t - unat (h :: u64)"
  by (simp add: unat_sub_if')

definition ring_wf :: "broker_ring \<Rightarrow> bool" where
  "ring_wf r \<longleftrightarrow> llam_broker_ring_valid r \<and>
     length (rg_submissions r) = 256 \<and> length (rg_completions r) = 256 \<and>
     length (rg_data r) = 4096 \<and> length (rg_client_stats r) = 8 \<and> length (rg_broker_stats r) = 8"

definition submit_inv :: "broker_ring \<Rightarrow> bool" where
  "submit_inv r \<longleftrightarrow> ring_wf r \<and> llam_broker_ring_window_valid (rg_submit_head r) (rg_submit_tail r)"

definition complete_inv :: "broker_ring \<Rightarrow> bool" where
  "complete_inv r \<longleftrightarrow> ring_wf r \<and> llam_broker_ring_window_valid (rg_complete_head r) (rg_complete_tail r)"

definition submit_contents :: "broker_ring \<Rightarrow> ring_submission list" where
  "submit_contents r = window (rg_submissions r) 256 (unat (rg_submit_head r))
     (unat (rg_submit_tail r) - unat (rg_submit_head r))"

definition complete_contents :: "broker_ring \<Rightarrow> ring_completion list" where
  "complete_contents r = window (rg_completions r) 256 (unat (rg_complete_head r))
     (unat (rg_complete_tail r) - unat (rg_complete_head r))"

lemma stat_fields [simp]:
  "rg_submit_head (llam_broker_ring_client_stat_add r s d) = rg_submit_head r"
  "rg_submit_tail (llam_broker_ring_client_stat_add r s d) = rg_submit_tail r"
  "rg_complete_head (llam_broker_ring_client_stat_add r s d) = rg_complete_head r"
  "rg_complete_tail (llam_broker_ring_client_stat_add r s d) = rg_complete_tail r"
  "rg_submissions (llam_broker_ring_client_stat_add r s d) = rg_submissions r"
  "rg_completions (llam_broker_ring_client_stat_add r s d) = rg_completions r"
  "rg_data (llam_broker_ring_client_stat_add r s d) = rg_data r"
  "rg_submit_head (llam_broker_ring_client_stat_max r s d) = rg_submit_head r"
  "rg_submit_tail (llam_broker_ring_client_stat_max r s d) = rg_submit_tail r"
  "rg_complete_head (llam_broker_ring_client_stat_max r s d) = rg_complete_head r"
  "rg_complete_tail (llam_broker_ring_client_stat_max r s d) = rg_complete_tail r"
  "rg_submissions (llam_broker_ring_client_stat_max r s d) = rg_submissions r"
  "rg_completions (llam_broker_ring_client_stat_max r s d) = rg_completions r"
  "rg_data (llam_broker_ring_client_stat_max r s d) = rg_data r"
  by (simp_all add: llam_broker_ring_client_stat_add_def llam_broker_ring_client_stat_max_def)

lemma broker_stat_fields [simp]:
  "rg_submit_head (llam_broker_ring_broker_stat_add r s d) = rg_submit_head r"
  "rg_submit_tail (llam_broker_ring_broker_stat_add r s d) = rg_submit_tail r"
  "rg_complete_head (llam_broker_ring_broker_stat_add r s d) = rg_complete_head r"
  "rg_complete_tail (llam_broker_ring_broker_stat_add r s d) = rg_complete_tail r"
  "rg_submissions (llam_broker_ring_broker_stat_add r s d) = rg_submissions r"
  "rg_completions (llam_broker_ring_broker_stat_add r s d) = rg_completions r"
  "rg_data (llam_broker_ring_broker_stat_add r s d) = rg_data r"
  "rg_submit_head (llam_broker_ring_broker_stat_max r s d) = rg_submit_head r"
  "rg_submit_tail (llam_broker_ring_broker_stat_max r s d) = rg_submit_tail r"
  "rg_complete_head (llam_broker_ring_broker_stat_max r s d) = rg_complete_head r"
  "rg_complete_tail (llam_broker_ring_broker_stat_max r s d) = rg_complete_tail r"
  "rg_submissions (llam_broker_ring_broker_stat_max r s d) = rg_submissions r"
  "rg_completions (llam_broker_ring_broker_stat_max r s d) = rg_completions r"
  "rg_data (llam_broker_ring_broker_stat_max r s d) = rg_data r"
  by (simp_all add: llam_broker_ring_broker_stat_add_def llam_broker_ring_broker_stat_max_def)

lemma stat_wf [simp]:
  "ring_wf (llam_broker_ring_client_stat_add r s d) = ring_wf r"
  "ring_wf (llam_broker_ring_client_stat_max r s d) = ring_wf r"
  "ring_wf (llam_broker_ring_broker_stat_add r s d) = ring_wf r"
  "ring_wf (llam_broker_ring_broker_stat_max r s d) = ring_wf r"
  by (simp_all add: ring_wf_def llam_broker_ring_valid_def llam_broker_ring_client_stat_add_def
      llam_broker_ring_client_stat_max_def llam_broker_ring_broker_stat_add_def
      llam_broker_ring_broker_stat_max_def)

definition put_submission :: "ring_submission \<Rightarrow> broker_ring \<Rightarrow> broker_ring result" where
  "put_submission e r = (case llam_broker_ring_submit_push r (Some e) of
     (Inl err, _) \<Rightarrow> Inl err | (Inr _, r') \<Rightarrow> Inr r')"

definition take_submission :: "broker_ring \<Rightarrow> (ring_submission \<times> broker_ring) result" where
  "take_submission r = (case llam_broker_ring_submit_pop r (Some zero_submission) of
     (Inr _, Some e, r') \<Rightarrow> Inr (e, r') | (Inl err, _, _) \<Rightarrow> Inl err | _ \<Rightarrow> Inl UNDEFINED)"

definition put_completion :: "ring_completion \<Rightarrow> broker_ring \<Rightarrow> broker_ring result" where
  "put_completion e r = (case llam_broker_ring_complete_push r (Some e) of
     (Inl err, _) \<Rightarrow> Inl err | (Inr _, r') \<Rightarrow> Inr r')"

definition take_completion :: "broker_ring \<Rightarrow> (ring_completion \<times> broker_ring) result" where
  "take_completion r = (case llam_broker_ring_complete_pop r (Some zero_completion) of
     (Inr _, Some e, r') \<Rightarrow> Inr (e, r') | (Inl err, _, _) \<Rightarrow> Inl err | _ \<Rightarrow> Inl UNDEFINED)"

lemma cap_word_le: "of_nat LLAM_BROKER_RING_CAP \<le> t - h \<longleftrightarrow> 256 \<le> unat (t - h :: u64)"
  by (simp add: word_le_nat_alt LLAM_BROKER_RING_CAP_def)

interpretation submissions: bounded_fifo submit_inv submit_contents "\<lambda>_. 256"
  "\<lambda>r. 2 ^ 64 - 1 - unat (rg_submit_tail r)" put_submission take_submission
proof
  fix s x assume inv: "submit_inv s" and len: "length (submit_contents s) < 256"
    and room: "0 < 2 ^ 64 - 1 - unat (rg_submit_tail s)"
  let ?t = "rg_submit_tail s" and ?h = "rg_submit_head s"
  have le: "unat ?h \<le> unat ?t" and wf: "ring_wf s" and lt: "unat ?t - unat ?h < 256"
    using inv len by (simp_all add: submit_inv_def window_valid_unat submit_contents_def)
  have "?t \<noteq> - 1" using room by (auto simp: unsigned_minus_1_eq_mask mask_eq_exp_minus_1)
  then have t1: "unat (?t + 1) = Suc (unat ?t)" by (rule unat_Suc_no_wrap)
  let ?s = "llam_broker_ring_client_stat_add (llam_broker_ring_client_stat_add
    (s\<lparr>rg_submissions := (rg_submissions s)[ring_index ?t := x], rg_submit_tail := ?t + 1\<rparr>) STAT_SUBMIT_PUSHES 1)
    STAT_SUBMIT_TAIL_PUBLISHES 1"
  have put: "put_submission x s = Inr ?s"
    using inv lt le
    by (simp add: put_submission_def llam_broker_ring_submit_push_def Let_def submit_inv_def ring_wf_def
        cap_word_le unat_window_len)
  have wf': "ring_wf ?s" using wf by simp (simp add: ring_wf_def llam_broker_ring_valid_def)
  have n: "Suc (unat ?t) - unat ?h = Suc (unat ?t - unat ?h)" "unat ?h + (unat ?t - unat ?h) = unat ?t"
    using le by simp_all
  have lim: "Suc (unat ?t) - unat ?h \<le> 256"
    "18446744073709551615 - unat ?t \<le> Suc (18446744073709551614 - unat ?t)"
    using n(1) lt by linarith+
  have "submit_contents ?s = submit_contents s @ [x]"
    using window_push [of "unat ?t - unat ?h" 256 "rg_submissions s" "unat ?h" x] wf lt
    by (simp add: submit_contents_def t1 n ring_index_mod ring_wf_def)
  then show "\<exists>s'. put_submission x s = Inr s' \<and> submit_inv s' \<and> submit_contents s' = submit_contents s @ [x] \<and>
      256 = (256 :: nat) \<and> 2 ^ 64 - 1 - unat ?t \<le> Suc (2 ^ 64 - 1 - unat (rg_submit_tail s'))"
    using put wf' le lim by (intro exI [of _ ?s]) (simp add: submit_inv_def window_valid_unat t1)
next
  fix s x assume "submit_inv s" "256 \<le> length (submit_contents s)"
  then show "put_submission x s = Inl EAGAIN"
    by (simp add: put_submission_def llam_broker_ring_submit_push_def submit_inv_def ring_wf_def
        submit_contents_def window_valid_unat Let_def cap_word_le unat_window_len)
next
  fix s x xs assume inv: "submit_inv s" and c: "submit_contents s = x # xs"
  let ?t = "rg_submit_tail s" and ?h = "rg_submit_head s"
  have le: "unat ?h \<le> unat ?t" "unat ?t - unat ?h \<le> 256" and wf: "ring_wf s"
    using inv by (simp_all add: submit_inv_def window_valid_unat)
  obtain n where n: "unat ?t - unat ?h = Suc n" using c by (cases "unat ?t - unat ?h") (auto simp: submit_contents_def)
  then have ne: "?h \<noteq> ?t" and nw: "?h \<noteq> - 1"
    using unsigned_less [of ?t, where ?'a = nat] by (auto simp: unsigned_minus_1_eq_mask mask_eq_exp_minus_1)
  have h1: "unat (?h + 1) = Suc (unat ?h)" by (rule unat_Suc_no_wrap [OF nw])
  have hd: "x = rg_submissions s ! ring_index ?h"
    and tl: "xs = window (rg_submissions s) 256 (Suc (unat ?h)) n"
    using c by (simp_all add: submit_contents_def n window_Suc ring_index_mod)
  have "take_submission s = Inr (x, s\<lparr>rg_submit_head := ?h + 1\<rparr>)"
    using inv ne hd
    by (simp add: take_submission_def llam_broker_ring_submit_pop_def submit_inv_def ring_wf_def Let_def)
  moreover have "submit_inv (s\<lparr>rg_submit_head := ?h + 1\<rparr>)"
  proof -
    have "Suc (unat ?h) \<le> unat ?t" "unat ?t - Suc (unat ?h) \<le> 256" using le n by linarith+
    then show ?thesis using wf by (simp add: submit_inv_def window_valid_unat h1 ring_wf_def llam_broker_ring_valid_def)
  qed
  moreover have "unat ?t - Suc (unat ?h) = n" using n by simp
  then have "submit_contents (s\<lparr>rg_submit_head := ?h + 1\<rparr>) = xs"
    by (simp add: submit_contents_def h1 tl)
  ultimately show "\<exists>s'. take_submission s = Inr (x, s') \<and> submit_inv s' \<and> submit_contents s' = xs \<and>
      256 = (256 :: nat)" by blast
next
  fix s assume inv: "submit_inv s" and c: "submit_contents s = []"
  have "unat (rg_submit_tail s) - unat (rg_submit_head s) = 0"
    using arg_cong [OF c, of length] by (simp add: submit_contents_def)
  with inv show "take_submission s = Inl EAGAIN"
    by (auto simp: take_submission_def llam_broker_ring_submit_pop_def submit_inv_def ring_wf_def Let_def
        submit_contents_def window_valid_unat word_unat_eq_iff)
qed

section \<open>Draining completions\<close>

lemma ring_index_add:
  "unat c + i < 2 ^ 64 \<Longrightarrow> ring_index (c + of_nat i) = (unat c + i) mod 256"
  by (simp add: ring_index_mod unat_word_ariths unat_of_nat)

lemma unat_add_of_nat: "unat (c :: u64) + i < 2 ^ 64 \<Longrightarrow> unat (c + of_nat i) = unat c + i"
  by (simp add: unat_word_ariths unat_of_nat)

lemma complete_drain_ok:
  assumes inv: "complete_inv r" and m: "0 < m" "m \<le> 18446744073709551615 div 32"
    and k: "k = min m (length (complete_contents r))"
  shows "\<exists>r'. llam_broker_ring_complete_drain r (Some es) m (Some c) =
      (Inr (), Some (take k (complete_contents r) @ replicate (m - k) zero_completion @ drop m es), Some k, r') \<and>
    complete_inv r' \<and> complete_contents r' = drop k (complete_contents r) \<and>
    submit_inv r' = submit_inv r \<and> submit_contents r' = submit_contents r \<and>
    rg_complete_tail r' = rg_complete_tail r"
proof -
  let ?t = "rg_complete_tail r" and ?h = "rg_complete_head r"
  let ?r1 = "llam_broker_ring_client_stat_add r STAT_COMPLETE_DRAIN_CALLS 1"
  have wf: "ring_wf r" "llam_broker_ring_valid r" and win: "llam_broker_ring_window_valid ?h ?t"
    and le: "unat ?h \<le> unat ?t" "unat ?t - unat ?h \<le> 256"
    using inv by (simp_all add: complete_inv_def window_valid_unat ring_wf_def)
  have len: "length (complete_contents r) = unat (?t - ?h)"
    by (simp add: complete_contents_def unat_window_len [OF le(1)])
  have valid1: "llam_broker_ring_valid ?r1" using wf(1) stat_wf(1) [of r] unfolding ring_wf_def by blast
  show ?thesis
  proof (cases "?t - ?h = 0")
    case True
    then have e: "complete_contents r = []" "k = 0" using len k by auto
    have "llam_broker_ring_complete_drain r (Some es) m (Some c) =
      (Inr (), Some (replicate m zero_completion @ drop m es), Some 0,
        llam_broker_ring_client_stat_add ?r1 STAT_COMPLETE_EMPTY 1)"
      using m wf(2) win True by (simp add: llam_broker_ring_complete_drain_def Let_def)
    with e show ?thesis
      using inv
      by (simp add: complete_inv_def complete_contents_def submit_inv_def submit_contents_def)
  next
    case False
    let ?n = "unat (?t - ?h)"
    have kk: "k = (if ?n < m then ?n else m)" "k \<le> ?n" "k \<le> m" using k len by auto
    have n: "?n = unat ?t - unat ?h" by (rule unat_window_len [OF le(1)])
    have bnd: "unat ?h + ?n < 2 ^ 64" using le(1) n unsigned_less [of ?t, where ?'a = nat] by simp
    have entries: "map (\<lambda>i. rg_completions r ! ring_index (?h + of_nat i)) [0..<k] = take k (complete_contents r)"
      using kk(2) bnd
      by (auto simp: complete_contents_def n [symmetric] window_take window_def ring_index_add intro!: nth_equalityI)
    have hk: "unat (?h + of_nat k) = unat ?h + k" using kk(2) bnd by (intro unat_add_of_nat) simp
    let ?r2 = "llam_broker_ring_client_stat_max (llam_broker_ring_client_stat_add
      (llam_broker_ring_client_stat_add (?r1\<lparr>rg_complete_head := ?h + of_nat k\<rparr>)
        STAT_COMPLETE_DRAIN_ENTRIES (of_nat k)) STAT_COMPLETE_HEAD_PUBLISHES 1) STAT_COMPLETE_BATCH_MAX (of_nat k)"
    have "drop k (replicate m zero_completion @ drop m es) = replicate (m - k) zero_completion @ drop m es"
      using kk(3) by simp
    then have run: "llam_broker_ring_complete_drain r (Some es) m (Some c) =
      (Inr (), Some (take k (complete_contents r) @ replicate (m - k) zero_completion @ drop m es), Some k, ?r2)"
      using m wf(2) win False entries
      by (simp add: llam_broker_ring_complete_drain_def Let_def kk(1) [symmetric])
    have wf2: "ring_wf (?r1\<lparr>rg_complete_head := ?h + of_nat k\<rparr>)"
      using wf(1) stat_wf(1) [of r] unfolding ring_wf_def llam_broker_ring_valid_def by simp
    have rest: "unat ?t - (unat ?h + k) = ?n - k" "unat ?h + k \<le> unat ?t" using n kk(2) le(1) by linarith+
    have "complete_contents ?r2 = drop k (complete_contents r)"
      using kk(2) by (simp add: complete_contents_def hk rest(1) n [symmetric] window_drop)
    moreover have "complete_inv ?r2"
      using wf2 rest le(2) n by (simp add: complete_inv_def window_valid_unat hk)
    moreover have "submit_inv ?r2 = submit_inv r" "submit_contents ?r2 = submit_contents r"
      using wf wf2 by (simp_all add: submit_inv_def submit_contents_def)
    ultimately show ?thesis using run by (intro exI [of _ ?r2]) simp
  qed
qed

interpretation completions: bounded_fifo complete_inv complete_contents "\<lambda>_. 256"
  "\<lambda>r. 2 ^ 64 - 1 - unat (rg_complete_tail r)" put_completion take_completion
proof
  fix s x assume inv: "complete_inv s" and len: "length (complete_contents s) < 256"
    and room: "0 < 2 ^ 64 - 1 - unat (rg_complete_tail s)"
  let ?t = "rg_complete_tail s" and ?h = "rg_complete_head s"
  have le: "unat ?h \<le> unat ?t" and wf: "ring_wf s" and lt: "unat ?t - unat ?h < 256"
    using inv len by (simp_all add: complete_inv_def window_valid_unat complete_contents_def)
  have "?t \<noteq> - 1" using room by (auto simp: unsigned_minus_1_eq_mask mask_eq_exp_minus_1)
  then have t1: "unat (?t + 1) = Suc (unat ?t)" by (rule unat_Suc_no_wrap)
  let ?s = "llam_broker_ring_broker_stat_add
    (s\<lparr>rg_completions := (rg_completions s)[ring_index ?t := x], rg_complete_tail := ?t + 1\<rparr>)
    STAT_COMPLETE_TAIL_PUBLISHES 1"
  have put: "put_completion x s = Inr ?s"
    using inv lt le
    by (simp add: put_completion_def llam_broker_ring_complete_push_def Let_def complete_inv_def ring_wf_def
        cap_word_le unat_window_len)
  have wf': "ring_wf ?s" using wf by simp (simp add: ring_wf_def llam_broker_ring_valid_def)
  have n: "Suc (unat ?t) - unat ?h = Suc (unat ?t - unat ?h)" "unat ?h + (unat ?t - unat ?h) = unat ?t"
    using le by simp_all
  have lim: "Suc (unat ?t) - unat ?h \<le> 256"
    "18446744073709551615 - unat ?t \<le> Suc (18446744073709551614 - unat ?t)"
    using n(1) lt by linarith+
  have "complete_contents ?s = complete_contents s @ [x]"
    using window_push [of "unat ?t - unat ?h" 256 "rg_completions s" "unat ?h" x] wf lt
    by (simp add: complete_contents_def t1 n ring_index_mod ring_wf_def)
  then show "\<exists>s'. put_completion x s = Inr s' \<and> complete_inv s' \<and> complete_contents s' = complete_contents s @ [x] \<and>
      256 = (256 :: nat) \<and> 2 ^ 64 - 1 - unat ?t \<le> Suc (2 ^ 64 - 1 - unat (rg_complete_tail s'))"
    using put wf' le lim by (intro exI [of _ ?s]) (simp add: complete_inv_def window_valid_unat t1)
next
  fix s x assume "complete_inv s" "256 \<le> length (complete_contents s)"
  then show "put_completion x s = Inl EAGAIN"
    by (simp add: put_completion_def llam_broker_ring_complete_push_def complete_inv_def ring_wf_def
        complete_contents_def window_valid_unat Let_def cap_word_le unat_window_len)
next
  fix s x xs assume inv: "complete_inv s" and c: "complete_contents s = x # xs"
  from complete_drain_ok [OF inv, of 1 1 "[zero_completion]" 0] c obtain s'
    where "llam_broker_ring_complete_drain s (Some [zero_completion]) 1 (Some 0) = (Inr (), Some [x], Some 1, s')"
      "complete_inv s'" "complete_contents s' = xs" by auto
  then show "\<exists>s'. take_completion s = Inr (x, s') \<and> complete_inv s' \<and> complete_contents s' = xs \<and>
      256 = (256 :: nat)"
    using inv by (simp add: take_completion_def llam_broker_ring_complete_pop_def complete_inv_def ring_wf_def)
next
  fix s assume inv: "complete_inv s" and c: "complete_contents s = []"
  from complete_drain_ok [OF inv, of 1 0 "[zero_completion]" 0] c obtain s'
    where "llam_broker_ring_complete_drain s (Some [zero_completion]) 1 (Some 0)
      = (Inr (), Some [zero_completion], Some 0, s')" by auto
  then show "take_completion s = Inl EAGAIN"
    using inv by (simp add: take_completion_def llam_broker_ring_complete_pop_def complete_inv_def ring_wf_def)
qed

section \<open>Queue theorems\<close>

lemma ring_init_inv:
  "submit_inv llam_broker_ring_init" "complete_inv llam_broker_ring_init"
  "submit_contents llam_broker_ring_init = []" "complete_contents llam_broker_ring_init = []"
  by (simp_all add: submit_inv_def complete_inv_def ring_wf_def llam_broker_ring_valid_def
      llam_broker_ring_init_def window_valid_unat submit_contents_def complete_contents_def
      LLAM_BROKER_RING_CAP_def LLAM_BROKER_RING_DATA_BYTES_def)

text \<open>
  C16. The submission queue is a bounded FIFO: as long as the cursors do not run out of the machine word, any batch
  that fits is accepted, and popping as many entries returns exactly the pushed entries in
  order after the ones already queued. A full queue is refused with \<^verbatim>\<open>EAGAIN\<close>.
\<close>

theorem submission_fifo:
  assumes "submit_inv r" "length (submit_contents r) + length xs \<le> 256"
    and "length xs + unat (rg_submit_tail r) < 2 ^ 64"
  shows "(\<exists>r1 r2. submissions.put_all xs r = Inr r1 \<and>
      submissions.take_n (length (submit_contents r) + length xs) r1 = Inr (submit_contents r @ xs, r2) \<and>
      submit_contents r2 = []) \<and>
    (length (submit_contents r) = 256 \<longrightarrow> put_submission x r = Inl EAGAIN)"
proof -
  have "length xs \<le> 2 ^ 64 - 1 - unat (rg_submit_tail r)" using assms(3) by linarith
  from submissions.put_all_ok [OF assms(1,2) this] obtain r1
    where r1: "submissions.put_all xs r = Inr r1" "submit_inv r1" "submit_contents r1 = submit_contents r @ xs"
    by auto
  from submissions.take_n_ok [OF r1(2), of "length (submit_contents r) + length xs"] r1(3) obtain r2
    where "submissions.take_n (length (submit_contents r) + length xs) r1 = Inr (submit_contents r @ xs, r2)"
      "submit_contents r2 = []" by auto
  with r1 submissions.put_full [OF assms(1), of x] show ?thesis by auto
qed

theorem submission_fifo_witness:
  "\<exists>r1 r2. submissions.put_all [zero_submission\<lparr>sb_op := 2\<rparr>, zero_submission\<lparr>sb_op := 3\<rparr>] llam_broker_ring_init = Inr r1 \<and>
     submissions.take_n 2 r1 = Inr ([zero_submission\<lparr>sb_op := 2\<rparr>, zero_submission\<lparr>sb_op := 3\<rparr>], r2) \<and>
     submit_contents r2 = []"
proof -
  let ?xs = "[zero_submission\<lparr>sb_op := 2\<rparr>, zero_submission\<lparr>sb_op := 3\<rparr>]"
  have len: "length ?xs = 2" "unat (rg_submit_tail llam_broker_ring_init) = 0"
    by (simp_all add: llam_broker_ring_init_def)
  from submission_fifo [OF ring_init_inv(1), of ?xs]
  have "\<exists>r1 r2. submissions.put_all ?xs llam_broker_ring_init = Inr r1 \<and>
      submissions.take_n (Suc (Suc 0)) r1 = Inr (?xs, r2) \<and> submit_contents r2 = []"
    unfolding ring_init_inv len by (simp del: submissions.put_all.simps submissions.take_n.simps)
  then show ?thesis by (simp only: numeral_2_eq_2)
qed

text \<open>
  Draining completions returns the longest prefix of the queued completions that fits, in order,
  zeroes the rest of the caller's array, removes exactly that prefix, and leaves the submission queue
  alone.
\<close>

theorem complete_drain_prefix:
  assumes "complete_inv r" "0 < m" "m \<le> 18446744073709551615 div 32" "length es = m"
  shows "\<exists>r'. llam_broker_ring_complete_drain r (Some es) m (Some c) =
      (Inr (), Some (take m (complete_contents r) @
          replicate (m - length (complete_contents r)) zero_completion),
        Some (min m (length (complete_contents r))), r') \<and>
    complete_inv r' \<and> complete_contents r' = drop m (complete_contents r) \<and>
    submit_contents r' = submit_contents r"
proof -
  let ?k = "min m (length (complete_contents r))"
  have "take ?k (complete_contents r) = take m (complete_contents r)"
    "drop ?k (complete_contents r) = drop m (complete_contents r)"
    "m - ?k = m - length (complete_contents r)" by (simp_all add: min_def)
  with complete_drain_ok [OF assms(1-3) refl, of es c] assms(4) show ?thesis by auto
qed

theorem complete_drain_prefix_witness:
  "\<exists>r'. llam_broker_ring_complete_drain llam_broker_ring_init (Some [zero_completion\<lparr>cp_status := 9\<rparr>]) 1 (Some 7) =
      (Inr (), Some [zero_completion], Some 0, r')"
  using complete_drain_prefix [OF ring_init_inv(2), of 1 "[zero_completion\<lparr>cp_status := 9\<rparr>]" 7]
  by (auto simp: ring_init_inv)

end
