(* ===== verification/Broker_State.thy ===== *)
theory Broker_State
  imports Ring_Queue
begin

text \<open>
  The state of the broker (\<^verbatim>\<open>internal/runtime_broker.h\<close>). A \<open>world\<close> is the broker together with
  what one thread of its process sees: its thread-local table, the answers of the operating system
  and of the runtime still to come, shared ring memory, and a log of calls whose effect lies outside
  the broker. The broker lock is a value that records misuse, so that lock discipline is a theorem.
\<close>

section \<open>Limits\<close>

definition LLAM_BROKER_CAP_FAMILY_BUFFER :: u32 where "LLAM_BROKER_CAP_FAMILY_BUFFER = 8"
definition LLAM_BROKER_CAP_FAMILY_DESCRIPTOR :: u32 where "LLAM_BROKER_CAP_FAMILY_DESCRIPTOR = 9"
definition LLAM_BROKER_CAP_FAMILY_CHANNEL :: u32 where "LLAM_BROKER_CAP_FAMILY_CHANNEL = 10"
definition LLAM_BROKER_CAP_FAMILY_TASK :: u32 where "LLAM_BROKER_CAP_FAMILY_TASK = 11"
definition LLAM_BROKER_BUFFER_SLOTS :: nat where "LLAM_BROKER_BUFFER_SLOTS = 64"
definition LLAM_BROKER_DESCRIPTOR_SLOTS :: nat where "LLAM_BROKER_DESCRIPTOR_SLOTS = 64"
definition LLAM_BROKER_CHANNEL_SLOTS :: nat where "LLAM_BROKER_CHANNEL_SLOTS = 64"
definition LLAM_BROKER_TASK_SLOTS :: nat where "LLAM_BROKER_TASK_SLOTS = 64"
definition LLAM_BROKER_TASKS_PER_SUBJECT :: nat where "LLAM_BROKER_TASKS_PER_SUBJECT = 16"
definition LLAM_BROKER_LONG_SLEEP_TASKS_MAX :: nat where "LLAM_BROKER_LONG_SLEEP_TASKS_MAX = 16"
definition LLAM_BROKER_SLEEP_MAX_NS :: u64 where "LLAM_BROKER_SLEEP_MAX_NS = 60 * 1000 * 1000 * 1000"
definition LLAM_BROKER_RING_SESSIONS :: nat where "LLAM_BROKER_RING_SESSIONS = 16"
definition LLAM_BROKER_TRANSPORT_SESSIONS :: nat where "LLAM_BROKER_TRANSPORT_SESSIONS = 64"
definition LLAM_BROKER_BUFFER_MAX_BYTES :: nat where "LLAM_BROKER_BUFFER_MAX_BYTES = 1024 * 1024"
definition LLAM_BROKER_CHANNEL_CAPACITY :: nat where "LLAM_BROKER_CHANNEL_CAPACITY = 64"
definition LLAM_BROKER_CHANNEL_MESSAGE_BYTES :: nat where "LLAM_BROKER_CHANNEL_MESSAGE_BYTES = 256"
definition LLAM_BROKER_ACTIVE_OP_BUSY_SENTINEL :: u32 where
  "LLAM_BROKER_ACTIVE_OP_BUSY_SENTINEL = UINT32_MAX div 2"

definition LLAM_BROKER_BUFFER_TRANSPORT_RIGHTS :: u64 where
  "LLAM_BROKER_BUFFER_TRANSPORT_RIGHTS =
     LLAM_CAP_RIGHT_READ OR LLAM_CAP_RIGHT_WRITE OR LLAM_CAP_RIGHT_DESTROY"
definition LLAM_BROKER_CHANNEL_TRANSPORT_RIGHTS :: u64 where
  "LLAM_BROKER_CHANNEL_TRANSPORT_RIGHTS =
     LLAM_CAP_RIGHT_SEND OR LLAM_CAP_RIGHT_RECV OR LLAM_CAP_RIGHT_CLOSE OR LLAM_CAP_RIGHT_DESTROY"
definition LLAM_BROKER_DESCRIPTOR_TRANSPORT_RIGHTS :: u64 where
  "LLAM_BROKER_DESCRIPTOR_TRANSPORT_RIGHTS =
     LLAM_CAP_RIGHT_READ OR LLAM_CAP_RIGHT_WRITE OR LLAM_CAP_RIGHT_DESTROY"
definition LLAM_BROKER_TASK_TRANSPORT_RIGHTS :: u64 where
  "LLAM_BROKER_TASK_TRANSPORT_RIGHTS = LLAM_CAP_RIGHT_JOIN OR LLAM_CAP_RIGHT_DETACH"

section \<open>Slots and sessions\<close>

record buffer_slot =
  bs_data :: "u8 list option"
  bs_length :: nat
  bs_id :: u64
  bs_generation :: u64
  bs_rights :: u64
  bs_subject_id :: u64
  bs_active :: bool

record descriptor_slot =
  ds_fd :: int
  ds_id :: u64
  ds_generation :: u64
  ds_rights :: u64
  ds_subject_id :: u64
  ds_active :: bool
  ds_close_on_destroy :: bool

record channel_message =
  cm_length :: nat
  cm_data :: "u8 list"

record channel_slot =
  cs_messages :: "channel_message list"
  cs_capacity :: nat
  cs_head :: nat
  cs_tail :: nat
  cs_count :: nat
  cs_id :: u64
  cs_generation :: u64
  cs_rights :: u64
  cs_subject_id :: u64
  cs_active :: bool
  cs_closed :: bool

datatype task_state = STATE_EMPTY | STATE_SPAWNED | STATE_COMPLETED | STATE_JOINED | STATE_DETACHED

record task_slot =
  ts_owner :: u64
  ts_task :: u64
  ts_state :: task_state
  ts_kind :: u32
  ts_id :: u64
  ts_generation :: u64
  ts_rights :: u64
  ts_subject_id :: u64
  ts_arg0 :: u64
  ts_result0 :: u64
  ts_error_code :: errno
  ts_active :: bool

record ring_session =
  rn_ring :: u64
  rn_subject_id :: u64
  rn_submit_head :: u64
  rn_complete_tail :: u64
  rn_mapping_bytes :: nat
  rn_mapping_fd :: int
  rn_mapping_handle :: int
  rn_mapping_name :: string
  rn_active :: bool
  rn_busy :: bool
  rn_owns_mapping :: bool
  rn_reclaim_pending :: bool

record transport_session =
  tn_transport_id :: u64
  tn_subject_id :: u64
  tn_active :: bool

text \<open>What \<^verbatim>\<open>memset(.., 0, ..)\<close> leaves behind.\<close>

definition zero_buffer_slot :: buffer_slot where
  "zero_buffer_slot = \<lparr>bs_data = None, bs_length = 0, bs_id = 0, bs_generation = 0, bs_rights = 0,
     bs_subject_id = 0, bs_active = False\<rparr>"

definition zero_descriptor_slot :: descriptor_slot where
  "zero_descriptor_slot = \<lparr>ds_fd = 0, ds_id = 0, ds_generation = 0, ds_rights = 0, ds_subject_id = 0,
     ds_active = False, ds_close_on_destroy = False\<rparr>"

definition zero_channel_message :: channel_message where
  "zero_channel_message = \<lparr>cm_length = 0, cm_data = replicate LLAM_BROKER_CHANNEL_MESSAGE_BYTES 0\<rparr>"

definition zero_channel_slot :: channel_slot where
  "zero_channel_slot = \<lparr>cs_messages = replicate LLAM_BROKER_CHANNEL_CAPACITY zero_channel_message,
     cs_capacity = 0, cs_head = 0, cs_tail = 0, cs_count = 0, cs_id = 0, cs_generation = 0, cs_rights = 0,
     cs_subject_id = 0, cs_active = False, cs_closed = False\<rparr>"

definition zero_task_slot :: task_slot where
  "zero_task_slot = \<lparr>ts_owner = 0, ts_task = 0, ts_state = STATE_EMPTY, ts_kind = 0, ts_id = 0,
     ts_generation = 0, ts_rights = 0, ts_subject_id = 0, ts_arg0 = 0, ts_result0 = 0,
     ts_error_code = E_OK, ts_active = False\<rparr>"

definition zero_ring_session :: ring_session where
  "zero_ring_session = \<lparr>rn_ring = 0, rn_subject_id = 0, rn_submit_head = 0, rn_complete_tail = 0,
     rn_mapping_bytes = 0, rn_mapping_fd = 0, rn_mapping_handle = 0, rn_mapping_name = [],
     rn_active = False, rn_busy = False, rn_owns_mapping = False, rn_reclaim_pending = False\<rparr>"

definition zero_transport_session :: transport_session where
  "zero_transport_session = \<lparr>tn_transport_id = 0, tn_subject_id = 0, tn_active = False\<rparr>"

section \<open>Broker and world\<close>

text \<open>
  The broker lock as its owner sees it: locking a held lock or releasing a free one is misuse and
  leaves the absorbing value \<open>Broken\<close>.
\<close>

datatype mutex = Unlocked | Locked | Broken

record broker =
  br_runtime :: "u64 option"
  br_lock :: mutex
  br_capability_key :: capability_key
  br_revocation_epoch :: u64
  br_buffers :: "buffer_slot list"
  br_descriptors :: "descriptor_slot list"
  br_channels :: "channel_slot list option"
  br_tasks :: "task_slot list"
  br_ring_sessions :: "ring_session list"
  br_transport_sessions :: "transport_session list"
  br_next_buffer_id :: u64
  br_next_descriptor_id :: u64
  br_next_channel_id :: u64
  br_next_task_id :: u64
  br_next_transport_subject_nonce :: u64
  br_active_ops :: u32
  br_destroy_waiters :: u32
  br_initialized :: bool
  br_destroying :: bool
  br_lock_initialized :: bool
  br_idle_cond_initialized :: bool

definition zero_broker :: broker where
  "zero_broker = \<lparr>br_runtime = None, br_lock = Unlocked, br_capability_key = zero_key, br_revocation_epoch = 0,
     br_buffers = replicate LLAM_BROKER_BUFFER_SLOTS zero_buffer_slot,
     br_descriptors = replicate LLAM_BROKER_DESCRIPTOR_SLOTS zero_descriptor_slot,
     br_channels = None, br_tasks = replicate LLAM_BROKER_TASK_SLOTS zero_task_slot,
     br_ring_sessions = replicate LLAM_BROKER_RING_SESSIONS zero_ring_session,
     br_transport_sessions = replicate LLAM_BROKER_TRANSPORT_SESSIONS zero_transport_session,
     br_next_buffer_id = 0, br_next_descriptor_id = 0, br_next_channel_id = 0, br_next_task_id = 0,
     br_next_transport_subject_nonce = 0, br_active_ops = 0, br_destroy_waiters = 0,
     br_initialized = False, br_destroying = False, br_lock_initialized = False,
     br_idle_cond_initialized = False\<rparr>"

text \<open>A frame table entry of a thread; the broker address 0 is a free entry.\<close>

definition LLAM_BROKER_TLS_OP_DEPTH :: nat where "LLAM_BROKER_TLS_OP_DEPTH = 8"

record tls_op =
  to_broker :: u64
  to_depth :: nat
  to_subject_stack :: "u64 list"

text \<open>
  Calls that leave the broker consume the next answer: its integer value, the error number it
  leaves when it fails, and the bytes it delivers.
\<close>

record sys_answer =
  sa_value :: int
  sa_errno :: errno
  sa_data :: "u8 list"

datatype event =
    EvClose int | EvFreeBuffer "u8 list" | EvJoin u64 | EvDetach u64 | EvRunHandle u64
  | EvSpawn u64 | EvRequestStop u64 | EvRuntimeDestroy u64 | EvSend int "u8 list" | EvUnmap u64 int
  | EvBroadcast

record world =
  w_broker :: broker
  w_self :: u64
  w_tls :: "tls_op list"
  w_os :: os_env
  w_answers :: "sys_answer list"
  w_now :: "u64 list"
  w_rings :: "u64 \<Rightarrow> broker_ring option"
  w_log :: "event list"

definition sys_call :: "world \<Rightarrow> sys_answer \<times> world" where
  "sys_call w = (case w_answers w of
     [] \<Rightarrow> (\<lparr>sa_value = -1, sa_errno = EIO, sa_data = []\<rparr>, w)
   | a # as \<Rightarrow> (a, w\<lparr>w_answers := as\<rparr>))"

definition log_event :: "event \<Rightarrow> world \<Rightarrow> world" where
  "log_event e w = w\<lparr>w_log := w_log w @ [e]\<rparr>"

definition llam_now_ns :: "world \<Rightarrow> u64 \<times> world" where
  "llam_now_ns w = (case w_now w of [] \<Rightarrow> (0, w) | t # ts \<Rightarrow> (t, w\<lparr>w_now := ts\<rparr>))"

abbreviation upd_broker :: "(broker \<Rightarrow> broker) \<Rightarrow> world \<Rightarrow> world" where
  "upd_broker f w \<equiv> w\<lparr>w_broker := f (w_broker w)\<rparr>"

end
