(* ===== verification/Broker_Ops.thy ===== *)
theory Broker_Ops
  imports Broker_State
begin

text \<open>
  The operation protocol of \<^verbatim>\<open>core/broker/broker_ops.c\<close>: the broker lock, the
  active-operation count and the thread-local stack of operation frames with their effective
  subjects. The lemmas show that a begin and its end cancel, that a nested frame cannot change the
  outer subject, and that the lock is never misused by a bracketed operation.
\<close>

section \<open>Operation frames\<close>

definition llam_broker_current_thread_has_op :: "world \<Rightarrow> bool" where
  "llam_broker_current_thread_has_op w \<longleftrightarrow>
     list_ex (\<lambda>e. to_broker e = w_self w \<and> 0 < to_depth e) (w_tls w)"

text \<open>
  The scan stops at the first entry of this broker; only without one is the first free entry used.
\<close>

definition llam_broker_tls_enter_op :: "world \<Rightarrow> u64 \<Rightarrow> unit result \<times> world" where
  "llam_broker_tls_enter_op w subject_id =
     (case first_index (\<lambda>e. to_broker e = w_self w) (w_tls w) of
        Some i \<Rightarrow>
          let e = w_tls w ! i in
          if LLAM_BROKER_TLS_OP_DEPTH \<le> to_depth e then (Inl EOVERFLOW, w)
          else let current_subject = (if 0 < to_depth e then to_subject_stack e ! (to_depth e - 1) else 0) in
            if subject_id \<noteq> 0 \<and> current_subject \<noteq> 0 \<and> current_subject \<noteq> subject_id then (Inl EACCES, w)
            else let effective_subject = (if subject_id \<noteq> 0 then subject_id else current_subject);
                     e = e\<lparr>to_subject_stack := (to_subject_stack e)[to_depth e := effective_subject],
                           to_depth := to_depth e + 1\<rparr>
                 in (Inr (), w\<lparr>w_tls := (w_tls w)[i := e]\<rparr>)
      | None \<Rightarrow>
          (case first_index (\<lambda>e. to_broker e = 0) (w_tls w) of
             None \<Rightarrow> (Inl EOVERFLOW, w)
           | Some j \<Rightarrow>
               let e = (w_tls w ! j)\<lparr>to_broker := w_self w, to_depth := 1,
                         to_subject_stack := (to_subject_stack (w_tls w ! j))[0 := subject_id]\<rparr>
               in (Inr (), w\<lparr>w_tls := (w_tls w)[j := e]\<rparr>)))"

definition llam_broker_tls_leave_op :: "world \<Rightarrow> bool \<times> world" where
  "llam_broker_tls_leave_op w =
     (case first_index (\<lambda>e. to_broker e = w_self w \<and> 0 < to_depth e) (w_tls w) of
        None \<Rightarrow> (False, w)
      | Some i \<Rightarrow>
          let e = w_tls w ! i;
              e = e\<lparr>to_depth := to_depth e - 1\<rparr>;
              e = e\<lparr>to_subject_stack := (to_subject_stack e)[to_depth e := 0]\<rparr>;
              e = (if to_depth e = 0 then e\<lparr>to_broker := 0\<rparr> else e)
          in (True, w\<lparr>w_tls := (w_tls w)[i := e]\<rparr>))"

definition llam_broker_current_subject :: "world \<Rightarrow> u64" where
  "llam_broker_current_subject w =
     (case first_index (\<lambda>e. to_broker e = w_self w \<and> 0 < to_depth e) (w_tls w) of
        None \<Rightarrow> 0
      | Some i \<Rightarrow> to_subject_stack (w_tls w ! i) ! (to_depth (w_tls w ! i) - 1))"

section \<open>Lock and operation pins\<close>

definition llam_broker_lock :: "world \<Rightarrow> unit result \<times> world" where
  "llam_broker_lock w =
     (if \<not> br_lock_initialized (w_broker w) then (Inl EINVAL, w)
      else (Inr (), upd_broker (\<lambda>b. b\<lparr>br_lock := (if br_lock b = Unlocked then Locked else Broken)\<rparr>) w))"

definition llam_broker_unlock :: "world \<Rightarrow> world" where
  "llam_broker_unlock w =
     (if br_lock_initialized (w_broker w)
      then upd_broker (\<lambda>b. b\<lparr>br_lock := (if br_lock b = Locked then Unlocked else Broken)\<rparr>) w
      else w)"

definition llam_broker_begin_op_subject :: "world \<Rightarrow> u64 \<Rightarrow> unit result \<times> world" where
  "llam_broker_begin_op_subject w subject_id =
     (case llam_broker_lock w of
        (Inl e, w) \<Rightarrow> (Inl e, w)
      | (Inr _, w) \<Rightarrow>
          let nested = llam_broker_current_thread_has_op w; b = w_broker w in
          if \<not> br_initialized b \<or> br_runtime b = None \<or> (br_destroying b \<and> \<not> nested)
          then (Inl EINVAL, llam_broker_unlock w)
          else if LLAM_BROKER_ACTIVE_OP_BUSY_SENTINEL - 1 \<le> br_active_ops b
          then (Inl EBUSY, llam_broker_unlock w)
          else (case llam_broker_tls_enter_op w subject_id of
                  (Inl e, w) \<Rightarrow> (Inl e, llam_broker_unlock w)
                | (Inr _, w) \<Rightarrow>
                    (Inr (), llam_broker_unlock
                       (upd_broker (\<lambda>b. b\<lparr>br_active_ops := br_active_ops b + 1\<rparr>) w))))"

definition llam_broker_begin_op :: "world \<Rightarrow> unit result \<times> world" where
  "llam_broker_begin_op w = llam_broker_begin_op_subject w 0"

definition llam_broker_end_op :: "world \<Rightarrow> world" where
  "llam_broker_end_op w =
     (case llam_broker_lock w of
        (Inl _, w) \<Rightarrow> w
      | (Inr _, w) \<Rightarrow>
          (case llam_broker_tls_leave_op w of
             (False, w) \<Rightarrow> llam_broker_unlock w
           | (True, w) \<Rightarrow>
               let b = w_broker w;
                   b = (if LLAM_BROKER_ACTIVE_OP_BUSY_SENTINEL \<le> br_active_ops b then b
                        else if 0 < br_active_ops b then b\<lparr>br_active_ops := br_active_ops b - 1\<rparr> else b);
                   w = w\<lparr>w_broker := b\<rparr>;
                   w = (if br_destroying b \<and> br_active_ops b = 0 \<and> br_idle_cond_initialized b
                        then log_event EvBroadcast w else w)
               in llam_broker_unlock w))"

text \<open>
  The bracketing that most public operations share: pin the broker, take the lock, run the body, and
  release both on every path out. \<open>fail\<close> turns the error number of a refused pin or lock into the
  operation's failure.
\<close>

definition with_op_subject :: "u64 \<Rightarrow> (errno \<Rightarrow> 'r) \<Rightarrow> (world \<Rightarrow> 'r \<times> world) \<Rightarrow> world \<Rightarrow> 'r \<times> world" where
  "with_op_subject subject_id fail body w =
     (case llam_broker_begin_op_subject w subject_id of
        (Inl e, w) \<Rightarrow> (fail e, w)
      | (Inr _, w) \<Rightarrow> (case body w of (r, w) \<Rightarrow> (r, llam_broker_end_op w)))"

definition with_op :: "(errno \<Rightarrow> 'r) \<Rightarrow> (world \<Rightarrow> 'r \<times> world) \<Rightarrow> world \<Rightarrow> 'r \<times> world" where
  "with_op fail body w = with_op_subject 0 fail body w"

definition with_lock :: "(errno \<Rightarrow> 'r) \<Rightarrow> (world \<Rightarrow> 'r \<times> world) \<Rightarrow> world \<Rightarrow> 'r \<times> world" where
  "with_lock fail body w =
     (case llam_broker_lock w of
        (Inl e, w) \<Rightarrow> (fail e, w)
      | (Inr _, w) \<Rightarrow> (case body w of (r, w) \<Rightarrow> (r, llam_broker_unlock w)))"

definition locked_op :: "(errno \<Rightarrow> 'r) \<Rightarrow> (world \<Rightarrow> 'r \<times> world) \<Rightarrow> world \<Rightarrow> 'r \<times> world" where
  "locked_op fail body w = with_op fail (with_lock fail body) w"

section \<open>Well-formed frames\<close>

definition tls_entry_wf :: "tls_op \<Rightarrow> bool" where
  "tls_entry_wf e \<longleftrightarrow> length (to_subject_stack e) = 8 \<and> to_depth e \<le> 8 \<and>
     (to_broker e = 0 \<longleftrightarrow> to_depth e = 0) \<and>
     (\<forall>i. to_depth e \<le> i \<and> i < 8 \<longrightarrow> to_subject_stack e ! i = 0)"

definition tls_unique :: "u64 \<Rightarrow> tls_op list \<Rightarrow> bool" where
  "tls_unique self es \<longleftrightarrow>
     (\<forall>i j. i < 8 \<and> j < 8 \<and> to_broker (es ! i) = self \<and> to_broker (es ! j) = self \<longrightarrow> i = j)"

definition tls_wf :: "world \<Rightarrow> bool" where
  "tls_wf w \<longleftrightarrow> length (w_tls w) = 8 \<and> list_all tls_entry_wf (w_tls w) \<and> w_self w \<noteq> 0 \<and>
     tls_unique (w_self w) (w_tls w)"

text \<open>The depth of the thread's frame stack for this broker.\<close>

definition op_depth :: "world \<Rightarrow> nat" where
  "op_depth w = (case first_index (\<lambda>e. to_broker e = w_self w) (w_tls w) of
     None \<Rightarrow> 0 | Some i \<Rightarrow> to_depth (w_tls w ! i))"

definition ops_wf :: "world \<Rightarrow> bool" where
  "ops_wf w \<longleftrightarrow> tls_wf w \<and> op_depth w \<le> unat (br_active_ops (w_broker w)) \<and>
     br_active_ops (w_broker w) < LLAM_BROKER_ACTIVE_OP_BUSY_SENTINEL \<and>
     br_lock (w_broker w) = Unlocked"

lemma tls_wf_nth: "tls_wf w \<Longrightarrow> i < 8 \<Longrightarrow> tls_entry_wf (w_tls w ! i)"
  by (simp add: tls_wf_def list_all_length)

lemma first_self_iff:
  assumes "tls_wf w"
  shows "first_index (\<lambda>e. to_broker e = w_self w \<and> 0 < to_depth e) (w_tls w)
    = first_index (\<lambda>e. to_broker e = w_self w) (w_tls w)"
proof -
  have "(to_broker e = w_self w \<and> 0 < to_depth e) = (to_broker e = w_self w)" if "e \<in> set (w_tls w)" for e
  proof -
    have "tls_entry_wf e" "w_self w \<noteq> 0" using assms that unfolding tls_wf_def list_all_iff by blast+
    then show ?thesis by (auto simp: tls_entry_wf_def)
  qed
  then show ?thesis by (rule first_index_cong)
qed

lemma tls_wf_unique:
  "tls_wf w \<Longrightarrow> i < 8 \<Longrightarrow> j < 8 \<Longrightarrow> to_broker (w_tls w ! i) = w_self w \<Longrightarrow>
   to_broker (w_tls w ! j) = w_self w \<Longrightarrow> i = j"
  unfolding tls_wf_def tls_unique_def by blast

lemma tls_wf_length: "tls_wf w \<Longrightarrow> length (w_tls w) = 8"
  by (simp add: tls_wf_def)

lemma first_self_Some:
  assumes "tls_wf w" "i < 8" "to_broker (w_tls w ! i) = w_self w"
  shows "first_index (\<lambda>e. to_broker e = w_self w) (w_tls w) = Some i"
proof (rule first_index_unique)
  show "i < length (w_tls w)" using assms(1,2) by (simp add: tls_wf_def)
  show "to_broker (w_tls w ! i) = w_self w" by (rule assms(3))
  show "\<And>j. j < length (w_tls w) \<Longrightarrow> to_broker (w_tls w ! j) = w_self w \<Longrightarrow> j = i"
    using tls_wf_unique [OF assms(1) _ assms(2) _ assms(3)] tls_wf_length [OF assms(1)] by simp
qed

text \<open>No other entry of the table belongs to this broker.\<close>

definition self_only :: "world \<Rightarrow> nat \<Rightarrow> bool" where
  "self_only w i \<longleftrightarrow> (\<forall>j<8. to_broker (w_tls w ! j) = w_self w \<longrightarrow> j = i)"

lemma tls_update_wf:
  assumes "tls_wf w" "i < 8" "tls_entry_wf e" "to_broker e = w_self w"
    and un: "self_only w i"
  shows "tls_wf (w\<lparr>w_tls := (w_tls w)[i := e]\<rparr>)"
proof -
  have "\<forall>x\<in>set ((w_tls w)[i := e]). tls_entry_wf x"
    using assms(1,3) set_update_subset_insert [of "w_tls w" i e] unfolding tls_wf_def list_all_iff by blast
  moreover have "to_broker ((w_tls w)[i := e] ! j) = w_self w \<Longrightarrow> j < 8 \<Longrightarrow> j = i" for j
    using un unfolding self_only_def by (cases "j = i") auto
  then have "tls_unique (w_self w) ((w_tls w)[i := e])" unfolding tls_unique_def by blast
  ultimately show ?thesis using assms(1) by (simp add: tls_wf_def list_all_iff)
qed

text \<open>What a successful enter pushes, a leave pops, whatever happened in between to the rest of the world.\<close>

definition pushed_frame :: "world \<Rightarrow> u64 \<Rightarrow> world \<Rightarrow> nat \<Rightarrow> tls_op \<Rightarrow> bool" where
  "pushed_frame w subject w' i e \<longleftrightarrow> i < 8 \<and> w' = w\<lparr>w_tls := (w_tls w)[i := e]\<rparr> \<and> tls_entry_wf e \<and>
     to_broker e = w_self w \<and> to_depth e = Suc (op_depth w) \<and>
     to_subject_stack e ! op_depth w = (if subject \<noteq> 0 then subject else llam_broker_current_subject w) \<and>
     (subject \<noteq> 0 \<longrightarrow> llam_broker_current_subject w \<in> {0, subject}) \<and>
     self_only w i \<and>
     e\<lparr>to_broker := (if op_depth w = 0 then 0 else w_self w), to_depth := op_depth w,
       to_subject_stack := (to_subject_stack e)[op_depth w := 0]\<rparr> = w_tls w ! i"

lemma tls_enter_first:
  assumes wf: "tls_wf w" and run: "llam_broker_tls_enter_op w subject = (Inr (), w')"
    and None: "first_index (\<lambda>e. to_broker e = w_self w) (w_tls w) = None"
  shows "\<exists>i e. pushed_frame w subject w' i e"
proof -
  have len: "length (w_tls w) = 8" and self: "w_self w \<noteq> 0" using wf by (simp_all add: tls_wf_def)
  have none: "to_broker (w_tls w ! j) \<noteq> w_self w" if "j < 8" for j
    using that len None nth_mem [of j "w_tls w"] by auto
  have c: "llam_broker_current_subject w = 0" "op_depth w = 0"
    unfolding llam_broker_current_subject_def first_self_iff [OF wf] op_depth_def None by simp_all
  obtain j where j: "first_index (\<lambda>e. to_broker e = 0) (w_tls w) = Some j"
    using run unfolding llam_broker_tls_enter_op_def None by (auto split: option.splits)
  then have jj: "j < 8" "to_broker (w_tls w ! j) = 0" using first_index_SomeD [OF j] len by auto
  define e where "e = w_tls w ! j"
  define e' where "e' = e\<lparr>to_broker := w_self w, to_depth := 1, to_subject_stack := (to_subject_stack e)[0 := subject]\<rparr>"
  have ew: "tls_entry_wf e" unfolding e_def by (rule tls_wf_nth [OF wf jj(1)])
  then have d: "to_depth e = 0" "length (to_subject_stack e) = 8" "to_subject_stack e ! 0 = 0"
    using jj(2) by (auto simp: tls_entry_wf_def e_def)
  have w': "w' = w\<lparr>w_tls := (w_tls w)[j := e']\<rparr>"
    using run unfolding llam_broker_tls_enter_op_def None by (simp add: j Let_def e'_def e_def)
  have u: "(to_subject_stack e)[0 := 0] = to_subject_stack e" using d(3) by (metis list_update_id)
  have "tls_entry_wf e'" using ew d self by (auto simp: tls_entry_wf_def nth_list_update e'_def)
  moreover have "e'\<lparr>to_broker := 0, to_depth := 0, to_subject_stack := (to_subject_stack e')[0 := 0]\<rparr> = e"
    using d(1) jj(2) [folded e_def] u by (intro tls_op.equality) (simp_all add: e'_def)
  moreover have "self_only w j" using none by (simp add: self_only_def)
  ultimately have "pushed_frame w subject w' j e'"
    using jj w' d unfolding pushed_frame_def c by (simp add: e'_def e_def)
  then show ?thesis by blast
qed

lemma tls_enter_nested:
  assumes wf: "tls_wf w" and run: "llam_broker_tls_enter_op w subject = (Inr (), w')"
    and Some: "first_index (\<lambda>e. to_broker e = w_self w) (w_tls w) = Some i"
  shows "\<exists>i e. pushed_frame w subject w' i e"
proof -
  define e where "e = w_tls w ! i"
  define cur where "cur = llam_broker_current_subject w"
  have len: "length (w_tls w) = 8" and self: "w_self w \<noteq> 0" using wf by (simp_all add: tls_wf_def)
  have i: "i < 8" "to_broker e = w_self w" using first_index_SomeD [OF Some] len by (auto simp: e_def)
  have ew: "tls_entry_wf e" unfolding e_def by (rule tls_wf_nth [OF wf i(1)])
  then have d: "0 < to_depth e" "length (to_subject_stack e) = 8"
    using i(2) self by (auto simp: tls_entry_wf_def)
  have c: "cur = to_subject_stack e ! (to_depth e - 1)" and dp: "op_depth w = to_depth e"
    using Some by (simp_all add: cur_def llam_broker_current_subject_def first_self_iff [OF wf] op_depth_def e_def)
  define e' where "e' = e\<lparr>to_subject_stack := (to_subject_stack e)[to_depth e := if subject \<noteq> 0 then subject else cur],
    to_depth := to_depth e + 1\<rparr>"
  have run': "(if 8 \<le> to_depth e then (Inl EOVERFLOW, w)
      else if subject \<noteq> 0 \<and> cur \<noteq> 0 \<and> cur \<noteq> subject then (Inl EACCES, w)
      else (Inr (), w\<lparr>w_tls := (w_tls w)[i := e']\<rparr>)) = (Inr (), w')"
    using run d(1) unfolding llam_broker_tls_enter_op_def Some
    by (simp add: LLAM_BROKER_TLS_OP_DEPTH_def Let_def e'_def e_def [symmetric] c cong: if_cong)
  then have lt: "to_depth e < 8" by (cases "8 \<le> to_depth e") simp_all
  with run' have acc: "subject \<noteq> 0 \<longrightarrow> cur \<in> {0, subject}"
    by (cases "subject \<noteq> 0 \<and> cur \<noteq> 0 \<and> cur \<noteq> subject") auto
  with run' lt have w': "w' = w\<lparr>w_tls := (w_tls w)[i := e']\<rparr>" by (auto split: if_splits)
  have "to_subject_stack e ! to_depth e = 0" using ew lt by (simp add: tls_entry_wf_def)
  then have u: "(to_subject_stack e)[to_depth e := 0] = to_subject_stack e" by (metis list_update_id)
  have "tls_entry_wf e'" using ew lt d i(2) self by (auto simp: tls_entry_wf_def nth_list_update e'_def)
  moreover have "self_only w i"
    using tls_wf_unique [OF wf _ i(1)] i(2) unfolding e_def self_only_def by blast
  moreover have "e'\<lparr>to_broker := w_self w, to_depth := to_depth e,
      to_subject_stack := (to_subject_stack e')[to_depth e := 0]\<rparr> = e"
    using i(2) u by (intro tls_op.equality) (simp_all add: e'_def)
  moreover have "to_broker e' = w_self w" "to_depth e' = Suc (to_depth e)"
      "to_subject_stack e' ! to_depth e = (if subject \<noteq> 0 then subject else cur)"
    using i(2) d lt by (simp_all add: e'_def)
  ultimately have "pushed_frame w subject w' i e'"
    using i(1) w' acc d(1) unfolding pushed_frame_def dp cur_def [symmetric] e_def [symmetric]
    by simp
  then show ?thesis by blast
qed

lemma tls_enter_pushes:
  "tls_wf w \<Longrightarrow> llam_broker_tls_enter_op w subject = (Inr (), w') \<Longrightarrow> \<exists>i e. pushed_frame w subject w' i e"
  using tls_enter_first tls_enter_nested by (cases "first_index (\<lambda>e. to_broker e = w_self w) (w_tls w)") blast+

lemma tls_enter_ok:
  assumes wf: "tls_wf w" and run: "llam_broker_tls_enter_op w subject = (Inr (), w')"
  shows "w' = w\<lparr>w_tls := w_tls w'\<rparr>" "tls_wf w'" "op_depth w' = Suc (op_depth w)"
    "llam_broker_current_thread_has_op w'"
    "llam_broker_current_subject w' = (if subject \<noteq> 0 then subject else llam_broker_current_subject w)"
    "subject \<noteq> 0 \<Longrightarrow> llam_broker_current_subject w \<in> {0, subject}"
    "w_tls v = w_tls w' \<Longrightarrow> w_self v = w_self w \<Longrightarrow>
       llam_broker_tls_leave_op v = (True, v\<lparr>w_tls := w_tls w\<rparr>)"
proof -
  have len: "length (w_tls w) = 8" using wf by (simp add: tls_wf_def)
  obtain i e where p: "pushed_frame w subject w' i e" using tls_enter_pushes [OF wf run] by blast
  note P = p [unfolded pushed_frame_def]
  from P have i: "i < 8" and w': "w' = w\<lparr>w_tls := (w_tls w)[i := e]\<rparr>" by blast+
  show "w' = w\<lparr>w_tls := w_tls w'\<rparr>" by (simp add: w')
  show wf': "tls_wf w'" unfolding w' by (rule tls_update_wf [OF wf i]) (use P in blast)+
  have first: "first_index (\<lambda>e. to_broker e = w_self w) ((w_tls w)[i := e]) = Some i"
    using first_self_Some [OF wf' i] i len P by (simp add: w')
  then have first': "first_index (\<lambda>e. to_broker e = w_self w \<and> 0 < to_depth e) ((w_tls w)[i := e]) = Some i"
    using first_self_iff [OF wf'] by (simp add: w')
  have dp: "to_depth e = Suc (op_depth w)" "to_broker e = w_self w" using P by blast+
  show "op_depth w' = Suc (op_depth w)"
    unfolding op_depth_def [of w'] using first i len dp by (simp add: w')
  show "llam_broker_current_thread_has_op w'"
    unfolding llam_broker_current_thread_has_op_def list_ex_length
    using i len dp by (intro exI [of _ i]) (simp add: w')
  show "llam_broker_current_subject w' = (if subject \<noteq> 0 then subject else llam_broker_current_subject w)"
    unfolding llam_broker_current_subject_def [of w'] using first' i len P by (simp add: w')
  show "subject \<noteq> 0 \<Longrightarrow> llam_broker_current_subject w \<in> {0, subject}" using P by blast
  show "llam_broker_tls_leave_op v = (True, v\<lparr>w_tls := w_tls w\<rparr>)"
    if v: "w_tls v = w_tls w'" "w_self v = w_self w"
  proof -
    define e1 where "e1 = e\<lparr>to_depth := op_depth w, to_subject_stack := (to_subject_stack e)[op_depth w := 0]\<rparr>"
    have popped: "(if op_depth w = 0 then e1\<lparr>to_broker := 0\<rparr> else e1) = w_tls w ! i"
      using P dp by (cases e) (auto simp: e1_def)
    have "llam_broker_tls_leave_op v
      = (True, v\<lparr>w_tls := (w_tls w)[i := if op_depth w = 0 then e1\<lparr>to_broker := 0\<rparr> else e1]\<rparr>)"
      unfolding llam_broker_tls_leave_op_def using first' i len dp by (simp add: Let_def v w' e1_def)
    then show ?thesis unfolding popped by simp
  qed
qed

lemma tls_enter_fail: "llam_broker_tls_enter_op w subject = (Inl e, w') \<Longrightarrow> w' = w"
  by (auto simp: llam_broker_tls_enter_op_def Let_def split: option.splits if_splits)

section \<open>A begin and its end cancel\<close>

text \<open>What the end of an operation must find unchanged.\<close>

definition same_frame :: "world \<Rightarrow> world \<Rightarrow> bool" where
  "same_frame v w \<longleftrightarrow> w_tls v = w_tls w \<and> w_self v = w_self w \<and>
     br_active_ops (w_broker v) = br_active_ops (w_broker w) \<and> br_lock (w_broker v) = br_lock (w_broker w) \<and>
     br_lock_initialized (w_broker v) = br_lock_initialized (w_broker w)"

lemma same_frame_refl [simp, intro]: "same_frame w w"
  by (simp add: same_frame_def)

lemma same_frame_trans [trans]: "same_frame u v \<Longrightarrow> same_frame v w \<Longrightarrow> same_frame u w"
  by (simp add: same_frame_def)

lemma same_frame_subject: "same_frame v w \<Longrightarrow> llam_broker_current_subject v = llam_broker_current_subject w"
  by (simp add: same_frame_def llam_broker_current_subject_def cong: option.case_cong)

lemma lock_free:
  "br_lock_initialized (w_broker w) \<Longrightarrow> br_lock (w_broker w) = Unlocked \<Longrightarrow>
   llam_broker_lock w = (Inr (), upd_broker (\<lambda>b. b\<lparr>br_lock := Locked\<rparr>) w)"
  by (simp add: llam_broker_lock_def)

lemma unlock_held:
  "br_lock_initialized (w_broker w) \<Longrightarrow> br_lock (w_broker w) = Locked \<Longrightarrow>
   llam_broker_unlock w = upd_broker (\<lambda>b. b\<lparr>br_lock := Unlocked\<rparr>) w"
  by (simp add: llam_broker_unlock_def)

lemma relock_same: "br_lock (w_broker w) = l \<Longrightarrow> w\<lparr>w_broker := (w_broker w)\<lparr>br_lock := l\<rparr>\<rparr> = w"
  by auto

definition entered :: "world \<Rightarrow> u64 \<Rightarrow> world \<Rightarrow> bool" where
  "entered w subject w' \<longleftrightarrow>
     w' = w\<lparr>w_tls := w_tls w', w_broker := (w_broker w)\<lparr>br_active_ops := br_active_ops (w_broker w) + 1\<rparr>\<rparr> \<and>
     ops_wf w' \<and> llam_broker_current_thread_has_op w' \<and> op_depth w' = Suc (op_depth w) \<and>
     llam_broker_current_subject w' = (if subject \<noteq> 0 then subject else llam_broker_current_subject w) \<and>
     (subject \<noteq> 0 \<longrightarrow> llam_broker_current_subject w \<in> {0, subject}) \<and>
     br_initialized (w_broker w) \<and> br_runtime (w_broker w) \<noteq> None \<and> br_lock_initialized (w_broker w) \<and>
     (br_destroying (w_broker w) \<longrightarrow> llam_broker_current_thread_has_op w)"

definition left_op :: "tls_op list \<Rightarrow> world \<Rightarrow> world" where
  "left_op tls v =
     (let b = (w_broker v)\<lparr>br_active_ops := br_active_ops (w_broker v) - 1\<rparr>; v = v\<lparr>w_tls := tls, w_broker := b\<rparr>
      in if br_destroying b \<and> br_active_ops b = 0 \<and> br_idle_cond_initialized b then log_event EvBroadcast v else v)"

lemma begin_op_fail:
  assumes "br_lock (w_broker w) = Unlocked" and run: "llam_broker_begin_op_subject w subject = (Inl e, w')"
  shows "w' = w" "e \<in> {EINVAL, EBUSY, EOVERFLOW, EACCES}"
proof -
  let ?u = "upd_broker (\<lambda>b. b\<lparr>br_lock := Locked\<rparr>) w"
  have ent: "llam_broker_tls_enter_op ?u subject = (Inl x, v) \<Longrightarrow> x \<in> {EOVERFLOW, EACCES} \<and> v = ?u" for x v
    by (auto simp: llam_broker_tls_enter_op_def Let_def split: option.splits if_splits)
  have "w' = w \<and> e \<in> {EINVAL, EBUSY, EOVERFLOW, EACCES}"
  proof (cases "br_lock_initialized (w_broker w)")
    case False
    then show ?thesis using run by (simp add: llam_broker_begin_op_subject_def llam_broker_lock_def)
  next
    case True
    note L = lock_free [OF True assms(1)]
    show ?thesis using run True assms(1) ent
      unfolding llam_broker_begin_op_subject_def L
      by (auto simp: Let_def unlock_held relock_same split: if_splits prod.splits sum.splits)
  qed
  then show "w' = w" "e \<in> {EINVAL, EBUSY, EOVERFLOW, EACCES}" by auto
qed

lemma subject_broker_irrelevant:
  "llam_broker_current_subject (w\<lparr>w_broker := b\<rparr>) = llam_broker_current_subject w"
  "llam_broker_current_thread_has_op (w\<lparr>w_broker := b\<rparr>) = llam_broker_current_thread_has_op w"
  "op_depth (w\<lparr>w_broker := b\<rparr>) = op_depth w" "tls_wf (w\<lparr>w_broker := b\<rparr>) = tls_wf w"
  by (simp_all add: llam_broker_current_subject_def llam_broker_current_thread_has_op_def op_depth_def tls_wf_def
      cong: option.case_cong)

lemma sentinel_gt_one: "\<not> LLAM_BROKER_ACTIVE_OP_BUSY_SENTINEL \<le> 1"
  unfolding LLAM_BROKER_ACTIVE_OP_BUSY_SENTINEL_def by code_simp

lemma begin_op_ok:
  assumes wf: "ops_wf w" and run: "llam_broker_begin_op_subject w subject = (Inr (), w')"
  shows "entered w subject w'"
    and "same_frame v w' \<Longrightarrow> llam_broker_end_op v = left_op (w_tls w) v"
proof -
  let ?u = "upd_broker (\<lambda>b. b\<lparr>br_lock := Locked\<rparr>) w"
  have un: "br_lock (w_broker w) = Unlocked" and tw: "tls_wf ?u" and dep: "op_depth w \<le> unat (br_active_ops (w_broker w))"
    using wf by (simp_all add: ops_wf_def subject_broker_irrelevant)
  have li: "br_lock_initialized (w_broker w)"
    using run by (auto simp: llam_broker_begin_op_subject_def llam_broker_lock_def split: if_splits)
  note L = lock_free [OF li un]
  obtain x where ent: "llam_broker_tls_enter_op ?u subject = (Inr (), x)"
    and w': "w' = llam_broker_unlock (upd_broker (\<lambda>b. b\<lparr>br_active_ops := br_active_ops b + 1\<rparr>) x)"
    and g: "br_initialized (w_broker w)" "br_runtime (w_broker w) \<noteq> None"
       "br_destroying (w_broker w) \<longrightarrow> llam_broker_current_thread_has_op w"
       "br_active_ops (w_broker w) < LLAM_BROKER_ACTIVE_OP_BUSY_SENTINEL - 1"
    using run unfolding llam_broker_begin_op_subject_def L
    by (auto simp: Let_def subject_broker_irrelevant split: if_splits prod.splits sum.splits)
  note E = tls_enter_ok [OF tw ent]
  let ?b = "(w_broker w)\<lparr>br_active_ops := br_active_ops (w_broker w) + 1\<rparr>"
  have x: "w_broker x = (w_broker w)\<lparr>br_lock := Locked\<rparr>" "x\<lparr>w_broker := b\<rparr> = w\<lparr>w_tls := w_tls x, w_broker := b\<rparr>" for b
    by (subst E(1), simp)+
  have bu: "?b\<lparr>br_lock := Unlocked\<rparr> = ?b" using un by (intro broker.equality) simp_all
  have wx: "w' = x\<lparr>w_broker := ?b\<rparr>"
    unfolding w' using li un bu by (simp add: unlock_held x(1))
  have wx': "w' = w\<lparr>w_tls := w_tls x, w_broker := ?b\<rparr>" unfolding wx by (rule x(2))
  have a: "br_active_ops (w_broker w) + 1 < LLAM_BROKER_ACTIVE_OP_BUSY_SENTINEL"
      "unat (br_active_ops (w_broker w) + 1) = unat (br_active_ops (w_broker w)) + 1"
    using g(4) by (auto simp: LLAM_BROKER_ACTIVE_OP_BUSY_SENTINEL_def word_less_nat_alt unat_word_ariths)
  have "ops_wf w'"
    unfolding ops_wf_def using E(2,3) dep a un
    by (simp add: wx subject_broker_irrelevant)
  then show "entered w subject w'"
    unfolding entered_def using E(3-6) g li by (simp add: wx subject_broker_irrelevant) (simp add: x)
  show "llam_broker_end_op v = left_op (w_tls w) v" if v: "same_frame v w'"
  proof -
    have vv: "w_tls v = w_tls x" "w_self v = w_self w" "br_lock_initialized (w_broker v)" "br_lock (w_broker v) = Unlocked"
      "br_active_ops (w_broker v) = br_active_ops (w_broker w) + 1"
      using v li un by (simp_all add: same_frame_def wx')
    have ne: "0 < br_active_ops (w_broker w) + 1" using a(2) by (simp add: word_less_nat_alt)
    have le: "\<not> LLAM_BROKER_ACTIVE_OP_BUSY_SENTINEL \<le> br_active_ops (w_broker w) + 1" using a(1) by simp
    show ?thesis
      unfolding llam_broker_end_op_def lock_free [OF vv(3,4)] left_op_def
      using E(7) [of "upd_broker (\<lambda>b. b\<lparr>br_lock := Locked\<rparr>) v"] vv le ne sentinel_gt_one
      by (simp add: Let_def unlock_held log_event_def)
  qed
qed

lemma entered_fields:
  assumes "entered w subject u"
  shows "w_broker u = (w_broker w)\<lparr>br_active_ops := br_active_ops (w_broker w) + 1\<rparr>"
    "w_self u = w_self w" "w_os u = w_os w" "w_answers u = w_answers w" "w_now u = w_now w"
    "w_rings u = w_rings w" "w_log u = w_log w"
proof -
  have u: "u = w\<lparr>w_tls := w_tls u, w_broker := (w_broker w)\<lparr>br_active_ops := br_active_ops (w_broker w) + 1\<rparr>\<rparr>"
    using assms unfolding entered_def by blast
  show "w_broker u = (w_broker w)\<lparr>br_active_ops := br_active_ops (w_broker w) + 1\<rparr>"
    "w_self u = w_self w" "w_os u = w_os w" "w_answers u = w_answers w" "w_now u = w_now w"
    "w_rings u = w_rings w" "w_log u = w_log w" by (subst u, simp)+
qed

lemma left_op_frame:
  assumes "ops_wf w" "entered w subject u" "same_frame v u"
  shows "same_frame (left_op (w_tls w) v) w" "ops_wf (left_op (w_tls w) v)"
proof -
  note u = entered_fields [OF assms(2)]
  show f: "same_frame (left_op (w_tls w) v) w"
    using assms(3) u by (auto simp: same_frame_def left_op_def Let_def log_event_def)
  then have "tls_wf (left_op (w_tls w) v) = tls_wf w" "op_depth (left_op (w_tls w) v) = op_depth w"
    by (simp_all add: same_frame_def tls_wf_def op_depth_def cong: option.case_cong)
  with f assms(1) show "ops_wf (left_op (w_tls w) v)" by (simp add: ops_wf_def same_frame_def)
qed

text \<open>Elimination of the brackets: either the operation is refused and nothing changes, or its body runs inside.\<close>

lemma with_op_subject_cases:
  assumes wf: "ops_wf w" and res: "with_op_subject subject fail body w = (r, w')"
    and frame: "\<And>u r u'. entered w subject u \<Longrightarrow> body u = (r, u') \<Longrightarrow> same_frame u' u"
  obtains (refused) e where "r = fail e" "w' = w" "e \<in> {EINVAL, EBUSY, EOVERFLOW, EACCES}"
    | (run) u u' where "entered w subject u" "body u = (r, u')" "same_frame u' u" "w' = left_op (w_tls w) u'"
proof (cases "llam_broker_begin_op_subject w subject")
  case (Pair b u)
  have un: "br_lock (w_broker w) = Unlocked" using wf by (simp add: ops_wf_def)
  show ?thesis
  proof (cases b)
    case (Inl e)
    then show ?thesis using res Pair begin_op_fail [OF un, of subject e u]
      by (intro refused [of e]) (auto simp: with_op_subject_def)
  next
    case (Inr unit)
    then have beg: "llam_broker_begin_op_subject w subject = (Inr (), u)" using Pair by simp
    obtain r' u' where b: "body u = (r', u')" by fastforce
    with res beg have "r' = r" and w': "w' = llam_broker_end_op u'" by (auto simp: with_op_subject_def)
    note B = begin_op_ok [OF wf beg]
    have f: "same_frame u' u" by (rule frame [OF B(1) b])
    show ?thesis by (rule run [OF B(1) b [unfolded \<open>r' = r\<close>] f]) (simp add: w' B(2) [OF f])
  qed
qed

lemma with_lock_ok:
  assumes "br_lock_initialized (w_broker w)" "br_lock (w_broker w) = Unlocked"
    and "body (upd_broker (\<lambda>b. b\<lparr>br_lock := Locked\<rparr>) w) = (r, u)"
    and "same_frame u (upd_broker (\<lambda>b. b\<lparr>br_lock := Locked\<rparr>) w)"
  shows "with_lock fail body w = (r, upd_broker (\<lambda>b. b\<lparr>br_lock := Unlocked\<rparr>) u)"
  using assms by (simp add: with_lock_def lock_free unlock_held same_frame_def)

definition holding :: "world \<Rightarrow> world \<Rightarrow> bool" where
  "holding w u \<longleftrightarrow> (\<exists>v. entered w 0 v \<and> u = upd_broker (\<lambda>b. b\<lparr>br_lock := Locked\<rparr>) v)"

definition released :: "world \<Rightarrow> world \<Rightarrow> world" where
  "released w u = left_op (w_tls w) (upd_broker (\<lambda>b. b\<lparr>br_lock := Unlocked\<rparr>) u)"

lemma locked_op_cases:
  assumes wf: "ops_wf w" and res: "locked_op fail body w = (r, w')"
    and frame: "\<And>u r u'. holding w u \<Longrightarrow> body u = (r, u') \<Longrightarrow> same_frame u' u"
  obtains (refused) e where "r = fail e" "w' = w" "e \<in> {EINVAL, EBUSY, EOVERFLOW, EACCES}"
    | (run) u u' where "holding w u" "body u = (r, u')" "same_frame u' u" "w' = released w u'"
proof -
  let ?L = "\<lambda>v. upd_broker (\<lambda>b. b\<lparr>br_lock := Locked\<rparr>) v" and ?U = "\<lambda>v. upd_broker (\<lambda>b. b\<lparr>br_lock := Unlocked\<rparr>) v"
  have ent: "br_lock_initialized (w_broker v) \<and> br_lock (w_broker v) = Unlocked \<and> holding w (?L v)" if "entered w 0 v" for v
  proof -
    have "br_lock (w_broker v) = Unlocked" using that by (simp add: entered_def ops_wf_def)
    moreover have "br_lock_initialized (w_broker v)"
      using that entered_fields(1) [OF that] by (simp add: entered_def)
    ultimately show ?thesis using that by (auto simp: holding_def)
  qed
  have step: "\<exists>u'. body (?L v) = (s, u') \<and> same_frame u' (?L v) \<and> x = ?U u' \<and> same_frame x v"
    if "entered w 0 v" "with_lock fail body v = (s, x)" for v s x
  proof -
    obtain s' u' where b: "body (?L v) = (s', u')" by fastforce
    have f: "same_frame u' (?L v)" using frame [OF _ b] ent [OF that(1)] by blast
    have "with_lock fail body v = (s', ?U u')" using with_lock_ok [where body = body and w = v, OF _ _ b f] ent [OF that(1)] by blast
    moreover have "same_frame (?U u') v" using f ent [OF that(1)] by (simp add: same_frame_def)
    ultimately show ?thesis using that(2) b f by auto
  qed
  show ?thesis
  proof (rule with_op_subject_cases [OF wf res [unfolded locked_op_def with_op_def]], goal_cases)
    case (1 u r u')
    then show ?case using step by blast
  next
    case (2 e)
    then show ?case by (rule refused)
  next
    case (3 v x)
    then show ?case using step [OF 3(1,2)] ent [OF 3(1)] by (auto simp: released_def intro: run)
  qed
qed

text \<open>The same as disjunctions, for bodies that never touch the frame.\<close>

definition frame_body :: "(world \<Rightarrow> 'r \<times> world) \<Rightarrow> bool" where
  "frame_body body \<longleftrightarrow> (\<forall>u. same_frame (snd (body u)) u)"

lemma locked_op_run:
  assumes "frame_body body" "ops_wf w" "locked_op fail body w = (r, w')"
  shows "(\<exists>e\<in>{EINVAL, EBUSY, EOVERFLOW, EACCES}. r = fail e \<and> w' = w) \<or>
    (\<exists>u u'. holding w u \<and> body u = (r, u') \<and> same_frame u' u \<and> w' = released w u')"
proof -
  have "\<And>u r u'. holding w u \<Longrightarrow> body u = (r, u') \<Longrightarrow> same_frame u' u"
    using assms(1) unfolding frame_body_def by (metis snd_conv)
  then show ?thesis by (rule locked_op_cases [OF assms(2,3)]) blast+
qed

lemma with_op_subject_run:
  assumes "\<And>u. entered w subject u \<Longrightarrow> same_frame (snd (body u)) u" "ops_wf w"
    and "with_op_subject subject fail body w = (r, w')"
  shows "(\<exists>e\<in>{EINVAL, EBUSY, EOVERFLOW, EACCES}. r = fail e \<and> w' = w) \<or>
    (\<exists>u u'. entered w subject u \<and> body u = (r, u') \<and> same_frame u' u \<and> w' = left_op (w_tls w) u')"
proof -
  have "\<And>u r u'. entered w subject u \<Longrightarrow> body u = (r, u') \<Longrightarrow> same_frame u' u"
    using assms(1) by (metis snd_conv)
  then show ?thesis by (rule with_op_subject_cases [OF assms(2,3)]) blast+
qed

lemma holding_fields:
  assumes "holding w u"
  shows "w_broker u = (w_broker w)\<lparr>br_active_ops := br_active_ops (w_broker w) + 1, br_lock := Locked\<rparr>"
    "w_self u = w_self w" "w_os u = w_os w" "w_answers u = w_answers w" "w_now u = w_now w"
    "w_rings u = w_rings w" "w_log u = w_log w" "llam_broker_current_subject u = llam_broker_current_subject w"
    "br_initialized (w_broker w)" "br_runtime (w_broker w) \<noteq> None"
  using assms by (auto simp: holding_def entered_fields subject_broker_irrelevant) (simp_all add: entered_def)

lemma released_frame:
  assumes "ops_wf w" "holding w u" "same_frame v u"
  shows "same_frame (released w v) w" "ops_wf (released w v)"
proof -
  obtain x where x: "entered w 0 x" "u = upd_broker (\<lambda>b. b\<lparr>br_lock := Locked\<rparr>) x" using assms(2) by (auto simp: holding_def)
  then have "same_frame (upd_broker (\<lambda>b. b\<lparr>br_lock := Unlocked\<rparr>) v) x"
    using assms(3) by (auto simp: same_frame_def entered_def ops_wf_def)
  from left_op_frame [OF assms(1) x(1) this] show "same_frame (released w v) w" "ops_wf (released w v)"
    by (simp_all add: released_def)
qed

lemma released_fields [simp]:
  "w_broker (released w v) = (w_broker v)\<lparr>br_lock := Unlocked, br_active_ops := br_active_ops (w_broker v) - 1\<rparr>"
  "w_self (released w v) = w_self v" "w_os (released w v) = w_os v" "w_answers (released w v) = w_answers v"
  "w_now (released w v) = w_now v" "w_rings (released w v) = w_rings v" "w_tls (released w v) = w_tls w"
  by (simp_all add: released_def left_op_def Let_def log_event_def)

lemma left_op_pushed:
  "\<not> br_destroying (w_broker w) \<Longrightarrow>
   left_op (w_tls w) (w\<lparr>w_tls := tls, w_broker := (w_broker w)\<lparr>br_active_ops := br_active_ops (w_broker w) + 1\<rparr>\<rparr>) = w"
  by (simp add: left_op_def)

text \<open>A small initialised broker, seen by a thread with no open frame.\<close>

definition example_broker :: broker where
  "example_broker = zero_broker\<lparr>br_runtime := Some 7, br_capability_key := example_key, br_revocation_epoch := 1,
     br_channels := Some (replicate LLAM_BROKER_CHANNEL_SLOTS zero_channel_slot),
     br_next_buffer_id := 1, br_next_descriptor_id := 1, br_next_channel_id := 1, br_next_task_id := 1,
     br_initialized := True, br_lock_initialized := True, br_idle_cond_initialized := True\<rparr>"

definition example_world :: world where
  "example_world = \<lparr>w_broker = example_broker, w_self = 4096,
     w_tls = replicate 8 \<lparr>to_broker = 0, to_depth = 0, to_subject_stack = replicate 8 0\<rparr>,
     w_os = example_entropy_os, w_answers = [], w_now = [], w_rings = (\<lambda>_. None), w_log = []\<rparr>"

lemma first_index_replicate: "first_index P (replicate n x) = (if 0 < n \<and> P x then Some 0 else None)"
  by (cases n) auto

lemma example_tls: "w_tls example_world = replicate 8 \<lparr>to_broker = 0, to_depth = 0, to_subject_stack = replicate 8 0\<rparr>"
    "w_self example_world = 4096" "w_broker example_world = example_broker"
  by (simp_all add: example_world_def)

lemma example_world_wf: "ops_wf example_world"
proof -
  have "0 < LLAM_BROKER_ACTIVE_OP_BUSY_SENTINEL" unfolding LLAM_BROKER_ACTIVE_OP_BUSY_SENTINEL_def by code_simp
  moreover have "tls_unique 4096 (w_tls example_world)" by (auto simp: tls_unique_def example_tls)
  moreover have "op_depth example_world = 0" by (simp add: op_depth_def example_tls first_index_replicate)
  moreover have "tls_wf example_world"
    using calculation(2) by (simp add: tls_wf_def tls_entry_wf_def example_tls list_all_iff)
  ultimately show ?thesis by (simp add: ops_wf_def example_tls example_broker_def zero_broker_def)
qed

lemma example_world_begin: "\<exists>w. llam_broker_begin_op_subject example_world subject = (Inr (), w)"
proof -
  have "LLAM_BROKER_ACTIVE_OP_BUSY_SENTINEL \<noteq> 1" unfolding LLAM_BROKER_ACTIVE_OP_BUSY_SENTINEL_def by code_simp
  then show ?thesis
    by (simp add: llam_broker_begin_op_subject_def llam_broker_lock_def llam_broker_tls_enter_op_def example_tls
      first_index_replicate example_broker_def zero_broker_def Let_def)
qed

section \<open>Properties of the operation protocol\<close>

text \<open>A successful begin pins the broker once more and pushes one frame of the calling thread, and the matching
  end gives back exactly the state before the begin (teardown not pending): the operation count, the frame table and the
  lock are those of the caller, at any nesting depth and for any requested subject.\<close>

theorem begin_end_restores:
  assumes "ops_wf w" "llam_broker_begin_op_subject w subject = (Inr (), w')" "\<not> br_destroying (w_broker w)"
  shows "br_active_ops (w_broker w') = br_active_ops (w_broker w) + 1 \<and> op_depth w' = Suc (op_depth w) \<and>
    llam_broker_end_op w' = w"
proof -
  note B = begin_op_ok [OF assms(1,2)]
  have w': "w' = w\<lparr>w_tls := w_tls w', w_broker := (w_broker w)\<lparr>br_active_ops := br_active_ops (w_broker w) + 1\<rparr>\<rparr>"
    using B(1) unfolding entered_def by blast
  have "left_op (w_tls w) w' = w"
    by (subst w') (rule left_op_pushed [OF assms(3)])
  then show ?thesis using B(1) B(2) [of w'] entered_fields(1) [OF B(1)] by (simp add: entered_def)
qed

theorem begin_end_restores_witness:
  "llam_broker_end_op (snd (llam_broker_begin_op_subject example_world 5)) = example_world"
proof -
  obtain w where w: "llam_broker_begin_op_subject example_world 5 = (Inr (), w)" using example_world_begin by blast
  have "\<not> br_destroying (w_broker example_world)" by (simp add: example_tls example_broker_def zero_broker_def)
  then show ?thesis using begin_end_restores [OF example_world_wf w] w by simp
qed

text \<open>C17. A nested frame cannot change the subject on whose behalf the thread acts: a frame that names no subject
  inherits the one of the enclosing frame, one that names a subject is accepted only when the enclosing frame has none
  or the same, and any other is refused with the state untouched.\<close>

theorem nested_subject_confined:
  assumes "ops_wf w" "llam_broker_begin_op_subject w subject = (r, w')" "llam_broker_current_subject w \<noteq> 0"
  shows "(case r of Inl _ \<Rightarrow> w' = w | Inr _ \<Rightarrow>
      subject \<in> {0, llam_broker_current_subject w} \<and> llam_broker_current_subject w' = llam_broker_current_subject w)"
proof (cases r)
  case (Inl e)
  then show ?thesis using begin_op_fail [of w subject e w'] assms by (simp add: ops_wf_def)
next
  case (Inr u)
  then have "entered w subject w'" using begin_op_ok(1) [OF assms(1)] assms(2) by simp
  then show ?thesis using Inr assms(3) by (auto simp: entered_def)
qed

theorem nested_subject_confined_witness:
  "let w = snd (llam_broker_begin_op_subject example_world 5); (r, w') = llam_broker_begin_op_subject w 6
   in isl r \<and> w' = w"
proof -
  obtain w where w: "llam_broker_begin_op_subject example_world 5 = (Inr (), w)" using example_world_begin by blast
  have ent: "ops_wf w" "llam_broker_current_subject w = 5"
    using begin_op_ok(1) [OF example_world_wf w] by (simp_all add: entered_def)
  obtain r w' where r: "llam_broker_begin_op_subject w 6 = (r, w')" by fastforce
  show ?thesis using nested_subject_confined [OF ent(1) r] ent(2) w r by (simp split: sum.splits)
qed

end
