(* ===== verification/Broker_Authority.thy ===== *)
theory Broker_Authority
  imports Broker_Ops
begin

text \<open>
  Broker authority: the revocation epoch, issuing, validating and attenuating object capabilities
  (\<^verbatim>\<open>core/broker/broker.c\<close>), validation against the live object tables and the output-clearing
  helpers (\<^verbatim>\<open>core/broker/broker_validate.c\<close>). \<open>authorises\<close> is the abstract meaning of a capability:
  the token is authentic, belongs to this runtime, epoch and subject, and names a live object that
  still grants the rights. The lemmas show that validation decides exactly that, that the bracketed
  operations leave the broker as they found it, and that revoking ends every older token.
\<close>

section \<open>Rights and identifiers\<close>

definition llam_broker_validate_object_rights :: "u32 \<Rightarrow> u64 \<Rightarrow> unit result" where
  "llam_broker_validate_object_rights family rights =
     (if rights = 0 then Inl EINVAL
      else let check = (\<lambda>allowed. if rights AND NOT allowed \<noteq> 0 then Inl EACCES else Inr ()) in
        if family = LLAM_BROKER_CAP_FAMILY_BUFFER then check LLAM_BROKER_BUFFER_TRANSPORT_RIGHTS
        else if family = LLAM_BROKER_CAP_FAMILY_DESCRIPTOR then check LLAM_BROKER_DESCRIPTOR_TRANSPORT_RIGHTS
        else if family = LLAM_BROKER_CAP_FAMILY_CHANNEL then check LLAM_BROKER_CHANNEL_TRANSPORT_RIGHTS
        else if family = LLAM_BROKER_CAP_FAMILY_TASK then check LLAM_BROKER_TASK_TRANSPORT_RIGHTS
        else Inl EINVAL)"

definition llam_broker_validate_next_object_id :: "u64 \<Rightarrow> unit result" where
  "llam_broker_validate_next_object_id next_id =
     (if next_id = 0 then Inl ENOSPC else if next_id = UINT64_MAX then Inl EOVERFLOW else Inr ())"

section \<open>Issue and revoke\<close>

definition llam_broker_issue_object_cap_unlocked ::
    "world \<Rightarrow> u32 \<Rightarrow> u64 \<Rightarrow> u64 \<Rightarrow> u64 \<Rightarrow> capability_token option \<Rightarrow>
     (unit result \<times> capability_token option) \<times> world" where
  "llam_broker_issue_object_cap_unlocked w family slot generation rights out_token =
     (let out_token = map_option (\<lambda>_. zero_token) out_token; b = w_broker w in
      case br_runtime b of
        None \<Rightarrow> ((Inl EINVAL, out_token), w)
      | Some runtime_id \<Rightarrow>
          if \<not> br_initialized b then ((Inl EINVAL, out_token), w)
          else (case llam_broker_validate_object_rights family rights of
                  Inl e \<Rightarrow> ((Inl e, out_token), w)
                | Inr _ \<Rightarrow>
                    let object = \<lparr>co_runtime_id = runtime_id, co_family = family, co_slot = slot,
                          co_generation = generation, co_revocation_epoch = br_revocation_epoch b,
                          co_subject_id = llam_broker_current_subject w\<rparr>
                    in (case llam_capability_issue (w_os w) (br_capability_key b) (Some object) rights out_token of
                          (r, out, os) \<Rightarrow> ((r, out), w\<lparr>w_os := os\<rparr>))))"

definition llam_broker_revocation_epoch_unlocked :: "broker \<Rightarrow> u64" where
  "llam_broker_revocation_epoch_unlocked b = (if \<not> br_initialized b then 0 else br_revocation_epoch b)"

definition llam_broker_revocation_epoch :: "world \<Rightarrow> u64 \<times> world" where
  "llam_broker_revocation_epoch w =
     with_op (\<lambda>_. 0) (\<lambda>w. (llam_broker_revocation_epoch_unlocked (w_broker w), w)) w"

text \<open>
  The compare-exchange loop. \<open>observed\<close> holds the values that failing exchanges read back, spurious
  failures and other threads included; once it is exhausted the exchange succeeds. The result is the
  return value with the epoch that the final exchange stores, if there is one.
\<close>

primrec revoke_all_loop :: "u64 list \<Rightarrow> u64 \<Rightarrow> u64 result \<times> u64" where
  "revoke_all_loop [] current_epoch =
     (if current_epoch = 0 \<or> current_epoch = UINT64_MAX then (Inl EOVERFLOW, 0)
      else (Inr (current_epoch + 1), current_epoch + 1))"
| "revoke_all_loop (e # es) current_epoch =
     (if current_epoch = 0 then (Inl EOVERFLOW, 0) else revoke_all_loop es e)"

definition llam_broker_revoke_all :: "u64 list \<Rightarrow> world \<Rightarrow> u64 result \<times> world" where
  "llam_broker_revoke_all observed w =
     with_op Inl
       (\<lambda>w. case revoke_all_loop observed (br_revocation_epoch (w_broker w)) of
          (r, epoch) \<Rightarrow> (r, upd_broker (\<lambda>b. b\<lparr>br_revocation_epoch := epoch\<rparr>) w)) w"

definition llam_broker_issue_object_cap ::
    "world \<Rightarrow> u32 \<Rightarrow> u64 \<Rightarrow> u64 \<Rightarrow> u64 \<Rightarrow> capability_token option \<Rightarrow>
     (unit result \<times> capability_token option) \<times> world" where
  "llam_broker_issue_object_cap w family slot generation rights out_token =
     (let out_token = map_option (\<lambda>_. zero_token) out_token in
      locked_op (\<lambda>e. (Inl e, out_token))
        (\<lambda>w. llam_broker_issue_object_cap_unlocked w family slot generation rights out_token) w)"

section \<open>Validation\<close>

definition llam_broker_validate_live_object_unlocked ::
    "broker \<Rightarrow> capability_token option \<Rightarrow> u64 \<Rightarrow> unit result" where
  "llam_broker_validate_live_object_unlocked b token required_rights =
     (case token of
        None \<Rightarrow> Inl EINVAL
      | Some tok \<Rightarrow>
          let ok = (\<lambda>found. if found then Inr () else Inl EACCES) in
          if tk_family tok = LLAM_BROKER_CAP_FAMILY_BUFFER then
            ok (list_ex (\<lambda>s. bs_active s \<and> bs_id s = tk_slot tok \<and> bs_generation s = tk_generation tok \<and>
                  bs_rights s AND required_rights = required_rights) (br_buffers b))
          else if tk_family tok = LLAM_BROKER_CAP_FAMILY_DESCRIPTOR then
            ok (list_ex (\<lambda>s. ds_active s \<and> ds_id s = tk_slot tok \<and> ds_generation s = tk_generation tok \<and>
                  ds_rights s AND required_rights = required_rights) (br_descriptors b))
          else if tk_family tok = LLAM_BROKER_CAP_FAMILY_CHANNEL then
            (case br_channels b of
               None \<Rightarrow> Inl UNDEFINED
             | Some cs \<Rightarrow>
                 ok (list_ex (\<lambda>s. cs_active s \<and> cs_id s = tk_slot tok \<and> cs_generation s = tk_generation tok \<and>
                       cs_rights s AND required_rights = required_rights) cs))
          else if tk_family tok = LLAM_BROKER_CAP_FAMILY_TASK then
            ok (list_ex (\<lambda>s. ts_active s \<and> ts_id s = tk_slot tok \<and> ts_generation s = tk_generation tok \<and>
                  ts_rights s AND required_rights = required_rights) (br_tasks b))
          else Inl EACCES)"

definition llam_broker_validate_cap_unlocked :: "world \<Rightarrow> capability_token option \<Rightarrow> u64 \<Rightarrow> unit result" where
  "llam_broker_validate_cap_unlocked w token required_rights =
     (let b = w_broker w in
      case (br_runtime b, token) of
        (None, _) \<Rightarrow> Inl EINVAL
      | (_, None) \<Rightarrow> Inl EINVAL
      | (Some runtime_id, Some tok) \<Rightarrow>
          if \<not> br_initialized b \<or> required_rights = 0 then Inl EINVAL
          else (case llam_capability_validate_subject (br_capability_key b) token required_rights
                       (llam_broker_revocation_epoch_unlocked b) (llam_broker_current_subject w) of
                  Inl e \<Rightarrow> Inl e
                | Inr _ \<Rightarrow>
                    if tk_runtime_id tok \<noteq> runtime_id then Inl EACCES
                    else llam_broker_validate_live_object_unlocked b token required_rights))"

definition llam_broker_validate_cap :: "world \<Rightarrow> capability_token option \<Rightarrow> u64 \<Rightarrow> unit result \<times> world" where
  "llam_broker_validate_cap w token required_rights =
     locked_op Inl (\<lambda>w. (llam_broker_validate_cap_unlocked w token required_rights, w)) w"

definition llam_broker_validate_token_family_unlocked ::
    "world \<Rightarrow> capability_token option \<Rightarrow> u32 \<Rightarrow> u64 \<Rightarrow> unit result" where
  "llam_broker_validate_token_family_unlocked w token expected_family required_rights =
     (case token of
        None \<Rightarrow> Inl EINVAL
      | Some tok \<Rightarrow>
          (case llam_broker_validate_cap_unlocked w token required_rights of
             Inl e \<Rightarrow> Inl e
           | Inr _ \<Rightarrow> if tk_family tok \<noteq> expected_family then Inl EACCES else Inr ()))"

text \<open>The source token is copied before the output is cleared, so the output may alias the input.\<close>

definition llam_broker_attenuate_cap ::
    "world \<Rightarrow> capability_token option \<Rightarrow> u64 \<Rightarrow> capability_token option \<Rightarrow>
     (unit result \<times> capability_token option) \<times> world" where
  "llam_broker_attenuate_cap w token subset_rights out_token =
     (if out_token = None then ((Inl EINVAL, out_token), w)
      else let source = (case token of Some t \<Rightarrow> t | None \<Rightarrow> zero_token); out_token = Some zero_token in
        if subset_rights = 0 then ((Inl EINVAL, out_token), w)
        else locked_op (\<lambda>e. (Inl e, out_token))
          (\<lambda>w. case llam_broker_validate_cap_unlocked w (if token \<noteq> None then Some source else None) subset_rights of
             Inl e \<Rightarrow> ((Inl e, out_token), w)
           | Inr _ \<Rightarrow>
               let epoch = llam_broker_revocation_epoch_unlocked (w_broker w) in
               (case llam_capability_attenuate (w_os w) (br_capability_key (w_broker w)) (Some source) subset_rights
                       epoch (Some zero_token) of
                  (Inl e, _, os) \<Rightarrow> ((Inl e, out_token), w\<lparr>w_os := os\<rparr>)
                | (Inr _, attenuated, os) \<Rightarrow> ((Inr (), attenuated), w\<lparr>w_os := os\<rparr>))) w)"

section \<open>Clearing output buffers\<close>

definition llam_broker_fail_clear_output :: "u8 list option \<Rightarrow> nat \<Rightarrow> errno \<Rightarrow> 'a result \<times> u8 list option" where
  "llam_broker_fail_clear_output out_data len error_code =
     (Inl (if error_code \<noteq> E_OK then error_code else EINVAL),
      if 0 < len then map_option (\<lambda>d. overlay d 0 (replicate len 0)) out_data else out_data)"

definition llam_broker_fail_clear_output_ssize :: "u8 list option \<Rightarrow> nat \<Rightarrow> errno \<Rightarrow> nat result \<times> u8 list option" where
  "llam_broker_fail_clear_output_ssize out_data len error_code = llam_broker_fail_clear_output out_data len error_code"

definition llam_broker_finish_read_clear_tail ::
    "u8 list option \<Rightarrow> nat \<Rightarrow> nat result \<Rightarrow> nat result \<times> u8 list option" where
  "llam_broker_finish_read_clear_tail out_data len r =
     (case r of
        Inl e \<Rightarrow> llam_broker_fail_clear_output_ssize out_data len e
      | Inr n \<Rightarrow>
          (case out_data of
             None \<Rightarrow> if 0 < len then (Inl EINVAL, out_data) else (r, out_data)
           | Some d \<Rightarrow>
               if n < len then (r, Some (overlay d n (replicate (len - n) 0))) else (r, out_data)))"

section \<open>The meaning of a capability\<close>

text \<open>The rights that a live object of a family grants under a slot number and generation.\<close>

definition live_objects :: "broker \<Rightarrow> (u32 \<times> u64 \<times> u64 \<times> u64) set" where
  "live_objects b =
     (\<lambda>s. (LLAM_BROKER_CAP_FAMILY_BUFFER, bs_id s, bs_generation s, bs_rights s)) ` {s \<in> set (br_buffers b). bs_active s} \<union>
     (\<lambda>s. (LLAM_BROKER_CAP_FAMILY_DESCRIPTOR, ds_id s, ds_generation s, ds_rights s)) ` {s \<in> set (br_descriptors b). ds_active s} \<union>
     (\<lambda>s. (LLAM_BROKER_CAP_FAMILY_CHANNEL, cs_id s, cs_generation s, cs_rights s)) ` {s \<in> \<Union> (set ` set_option (br_channels b)). cs_active s} \<union>
     (\<lambda>s. (LLAM_BROKER_CAP_FAMILY_TASK, ts_id s, ts_generation s, ts_rights s)) ` {s \<in> set (br_tasks b). ts_active s}"

definition authorises :: "broker \<Rightarrow> u64 \<Rightarrow> capability_token \<Rightarrow> u64 \<Rightarrow> bool" where
  "authorises b subject tok required \<longleftrightarrow> br_initialized b \<and> required \<noteq> 0 \<and>
     br_runtime b = Some (tk_runtime_id tok) \<and> tk_revocation_epoch tok = br_revocation_epoch b \<and>
     tk_subject_id tok = subject \<and> tk_rights tok AND required = required \<and>
     token_shape tok \<and> llam_cap_key_valid (br_capability_key b) \<and>
     llam_cap_mac_equal (llam_cap_mac (br_capability_key b) tok) (tk_mac tok) \<and>
     (\<exists>rights. (tk_family tok, tk_slot tok, tk_generation tok, rights) \<in> live_objects b \<and> rights AND required = required)"

lemmas family_defs = LLAM_BROKER_CAP_FAMILY_BUFFER_def LLAM_BROKER_CAP_FAMILY_DESCRIPTOR_def
  LLAM_BROKER_CAP_FAMILY_CHANNEL_def LLAM_BROKER_CAP_FAMILY_TASK_def

lemma family_distinct [simp]:
  "LLAM_BROKER_CAP_FAMILY_BUFFER \<noteq> LLAM_BROKER_CAP_FAMILY_DESCRIPTOR" "LLAM_BROKER_CAP_FAMILY_DESCRIPTOR \<noteq> LLAM_BROKER_CAP_FAMILY_BUFFER"
  "LLAM_BROKER_CAP_FAMILY_BUFFER \<noteq> LLAM_BROKER_CAP_FAMILY_CHANNEL" "LLAM_BROKER_CAP_FAMILY_CHANNEL \<noteq> LLAM_BROKER_CAP_FAMILY_BUFFER"
  "LLAM_BROKER_CAP_FAMILY_BUFFER \<noteq> LLAM_BROKER_CAP_FAMILY_TASK" "LLAM_BROKER_CAP_FAMILY_TASK \<noteq> LLAM_BROKER_CAP_FAMILY_BUFFER"
  "LLAM_BROKER_CAP_FAMILY_DESCRIPTOR \<noteq> LLAM_BROKER_CAP_FAMILY_CHANNEL" "LLAM_BROKER_CAP_FAMILY_CHANNEL \<noteq> LLAM_BROKER_CAP_FAMILY_DESCRIPTOR"
  "LLAM_BROKER_CAP_FAMILY_DESCRIPTOR \<noteq> LLAM_BROKER_CAP_FAMILY_TASK" "LLAM_BROKER_CAP_FAMILY_TASK \<noteq> LLAM_BROKER_CAP_FAMILY_DESCRIPTOR"
  "LLAM_BROKER_CAP_FAMILY_CHANNEL \<noteq> LLAM_BROKER_CAP_FAMILY_TASK" "LLAM_BROKER_CAP_FAMILY_TASK \<noteq> LLAM_BROKER_CAP_FAMILY_CHANNEL"
  by (simp_all add: family_defs)

lemma live_objects_iff:
  "(LLAM_BROKER_CAP_FAMILY_BUFFER, i, g, r) \<in> live_objects b \<longleftrightarrow>
     (\<exists>s\<in>set (br_buffers b). bs_active s \<and> bs_id s = i \<and> bs_generation s = g \<and> bs_rights s = r)"
  "(LLAM_BROKER_CAP_FAMILY_DESCRIPTOR, i, g, r) \<in> live_objects b \<longleftrightarrow>
     (\<exists>s\<in>set (br_descriptors b). ds_active s \<and> ds_id s = i \<and> ds_generation s = g \<and> ds_rights s = r)"
  "(LLAM_BROKER_CAP_FAMILY_CHANNEL, i, g, r) \<in> live_objects b \<longleftrightarrow>
     (\<exists>cs. br_channels b = Some cs \<and> (\<exists>s\<in>set cs. cs_active s \<and> cs_id s = i \<and> cs_generation s = g \<and> cs_rights s = r))"
  "(LLAM_BROKER_CAP_FAMILY_TASK, i, g, r) \<in> live_objects b \<longleftrightarrow>
     (\<exists>s\<in>set (br_tasks b). ts_active s \<and> ts_id s = i \<and> ts_generation s = g \<and> ts_rights s = r)"
  by (auto simp: live_objects_def image_iff)

lemma live_objects_family:
  "(f, i, g, r) \<in> live_objects b \<Longrightarrow>
   f \<in> {LLAM_BROKER_CAP_FAMILY_BUFFER, LLAM_BROKER_CAP_FAMILY_DESCRIPTOR, LLAM_BROKER_CAP_FAMILY_CHANNEL, LLAM_BROKER_CAP_FAMILY_TASK}"
  by (auto simp: live_objects_def)

lemma validate_live_iff:
  assumes "br_channels b \<noteq> None"
  shows "llam_broker_validate_live_object_unlocked b (Some tok) required = Inr () \<longleftrightarrow>
    (\<exists>rights. (tk_family tok, tk_slot tok, tk_generation tok, rights) \<in> live_objects b \<and> rights AND required = required)"
    (is "_ = ?R")
proof -
  obtain cs where cs: "br_channels b = Some cs" using assms by blast
  consider "tk_family tok = LLAM_BROKER_CAP_FAMILY_BUFFER" | "tk_family tok = LLAM_BROKER_CAP_FAMILY_DESCRIPTOR"
    | "tk_family tok = LLAM_BROKER_CAP_FAMILY_CHANNEL" | "tk_family tok = LLAM_BROKER_CAP_FAMILY_TASK"
    | "tk_family tok \<notin> {LLAM_BROKER_CAP_FAMILY_BUFFER, LLAM_BROKER_CAP_FAMILY_DESCRIPTOR,
         LLAM_BROKER_CAP_FAMILY_CHANNEL, LLAM_BROKER_CAP_FAMILY_TASK}" by blast
  then show ?thesis
  proof cases
    case 5
    then have "\<not> ?R" using live_objects_family by blast
    then show ?thesis using 5 by (simp add: llam_broker_validate_live_object_unlocked_def)
  qed (auto simp: llam_broker_validate_live_object_unlocked_def live_objects_iff list_ex_iff cs)
qed

lemma validate_cap_unlocked_iff:
  assumes "br_channels (w_broker w) \<noteq> None"
  shows "llam_broker_validate_cap_unlocked w (Some tok) required = Inr () \<longleftrightarrow>
    authorises (w_broker w) (llam_broker_current_subject w) tok required"
proof (cases "br_initialized (w_broker w) \<and> required \<noteq> 0 \<and> br_runtime (w_broker w) = Some (tk_runtime_id tok)")
  case True
  then show ?thesis
    using validate_live_iff [OF assms, of tok required]
      validate_subject_ok_iff [of "br_capability_key (w_broker w)" "Some tok" required "br_revocation_epoch (w_broker w)"
         "llam_broker_current_subject w"]
    unfolding llam_broker_validate_cap_unlocked_def authorises_def llam_broker_revocation_epoch_unlocked_def
    by (cases "llam_capability_validate_subject (br_capability_key (w_broker w)) (Some tok) required
      (br_revocation_epoch (w_broker w)) (llam_broker_current_subject w)") (auto simp: Let_def)
next
  case False
  then show ?thesis
    unfolding llam_broker_validate_cap_unlocked_def authorises_def
    by (auto simp: Let_def split: option.splits sum.splits)
qed

lemma live_objects_frame [simp]:
  "live_objects (b\<lparr>br_active_ops := n\<rparr>) = live_objects b" "live_objects (b\<lparr>br_lock := l\<rparr>) = live_objects b"
  "live_objects (b\<lparr>br_revocation_epoch := e\<rparr>) = live_objects b"
  by (simp_all add: live_objects_def)

lemma authorises_frame [simp]:
  "authorises (b\<lparr>br_active_ops := n\<rparr>) s tok q = authorises b s tok q"
  "authorises (b\<lparr>br_lock := l\<rparr>) s tok q = authorises b s tok q"
  by (simp_all add: authorises_def)

lemma released_unchanged:
  assumes "ops_wf w" "holding w u" "\<not> br_destroying (w_broker w)"
  shows "released w u = w"
proof -
  obtain v where v: "entered w 0 v" "u = upd_broker (\<lambda>b. b\<lparr>br_lock := Locked\<rparr>) v" using assms(2) by (auto simp: holding_def)
  have "br_lock (w_broker w) = Unlocked" using assms(1) by (simp add: ops_wf_def)
  then have "upd_broker (\<lambda>b. b\<lparr>br_lock := Unlocked\<rparr>) u = v"
    by (auto simp: v(2) entered_fields [OF v(1)] intro!: world.equality broker.equality)
  moreover have "v = w\<lparr>w_tls := w_tls v, w_broker := (w_broker w)\<lparr>br_active_ops := br_active_ops (w_broker w) + 1\<rparr>\<rparr>"
    using v(1) unfolding entered_def by blast
  then have "left_op (w_tls w) v = w" by (rule ssubst) (rule left_op_pushed [OF assms(3)])
  ultimately show ?thesis by (simp add: released_def)
qed

text \<open>Operations that only read the broker.\<close>

lemma locked_read:
  assumes wf: "ops_wf w" and res: "locked_op fail (\<lambda>w. (f w, w)) w = (r, w')" and nd: "\<not> br_destroying (w_broker w)"
  shows "w' = w \<and> ((\<exists>e\<in>{EINVAL, EBUSY, EOVERFLOW, EACCES}. r = fail e) \<or> (\<exists>u. holding w u \<and> r = f u))"
proof -
  have fr: "frame_body (\<lambda>w. (f w, w))" by (simp add: frame_body_def)
  from locked_op_run [OF fr wf res] show ?thesis using released_unchanged [OF wf _ nd] by auto
qed

section \<open>Properties of broker authority\<close>

text \<open>C18. Validating a capability decides whether the token authorises the rights, and changes nothing: when the call
  succeeds the token is authentic, of this runtime, of the current epoch, of the calling subject, and names a live
  object that grants the rights; when it fails, either the operation was refused a pin or the token authorises less.\<close>

theorem validate_cap_decides_authority:
  assumes wf: "ops_wf w" and res: "llam_broker_validate_cap w (Some tok) required = (r, w')"
    and ch: "br_channels (w_broker w) \<noteq> None" and nd: "\<not> br_destroying (w_broker w)"
  shows "w' = w \<and> (case r of Inr _ \<Rightarrow> authorises (w_broker w) (llam_broker_current_subject w) tok required
    | Inl e \<Rightarrow> e \<in> {EINVAL, EBUSY, EOVERFLOW, EACCES} \<or> \<not> authorises (w_broker w) (llam_broker_current_subject w) tok required)"
proof -
  note L = locked_read [OF wf res [unfolded llam_broker_validate_cap_def] nd]
  have "llam_broker_validate_cap_unlocked u (Some tok) required = Inr () \<longleftrightarrow>
      authorises (w_broker w) (llam_broker_current_subject w) tok required" if u: "holding w u" for u
    using validate_cap_unlocked_iff [of u tok required] ch by (simp add: holding_fields [OF u(1)])
  then show ?thesis using L by (cases r) (auto, metis Inl_Inr_False)
qed

theorem validate_cap_decides_authority_witness:
  "snd (llam_broker_validate_cap example_world (Some zero_token) 1) = example_world"
proof -
  have "br_channels (w_broker example_world) \<noteq> None" "\<not> br_destroying (w_broker example_world)"
    by (simp_all add: example_tls example_broker_def zero_broker_def)
  then show ?thesis
    using validate_cap_decides_authority [OF example_world_wf, of zero_token 1
      "fst (llam_broker_validate_cap example_world (Some zero_token) 1)"
      "snd (llam_broker_validate_cap example_world (Some zero_token) 1)"] by simp
qed

lemma revoke_all_loop_result:
  "revoke_all_loop observed e = (r, n) \<Longrightarrow>
   (r = Inl EOVERFLOW \<and> n = 0) \<or> (\<exists>c. c \<in> set (e # observed) \<and> c \<noteq> 0 \<and> c \<noteq> UINT64_MAX \<and> r = Inr n \<and> n = c + 1)"
proof (induction observed arbitrary: e)
  case (Cons a observed)
  then show ?case by (fastforce split: if_splits)
qed (auto split: if_splits)

lemma authorises_epoch: "authorises b s tok q \<Longrightarrow> tk_revocation_epoch tok = br_revocation_epoch b \<and> tk_revocation_epoch tok \<noteq> 0"
  unfolding authorises_def token_shape_def by blast

text \<open>C19. Revoking everything ends every token of the epoch it found: whatever the exchange loop observed from other
  revokers (whose epochs are never below the one it started from), afterwards the epoch is the terminal zero or above
  every token issued before, and no such token authorises anything.\<close>

theorem revoke_all_ends_tokens:
  assumes wf: "ops_wf w" and res: "llam_broker_revoke_all observed w = (r, w')"
    and mono: "\<forall>e\<in>set observed. e = 0 \<or> br_revocation_epoch (w_broker w) \<le> e"
    and old: "tk_revocation_epoch tok \<le> br_revocation_epoch (w_broker w)"
  shows "(case r of Inl e \<Rightarrow> e = EOVERFLOW \<and> br_revocation_epoch (w_broker w') = 0 \<or> w' = w
      | Inr e \<Rightarrow> br_revocation_epoch (w_broker w') = e \<and> br_revocation_epoch (w_broker w) < e) \<and>
    (w' = w \<or> \<not> authorises (w_broker w') subject tok required)"
proof -
  let ?body = "\<lambda>w. case revoke_all_loop observed (br_revocation_epoch (w_broker w)) of
          (r, epoch) \<Rightarrow> (r, upd_broker (\<lambda>b. b\<lparr>br_revocation_epoch := epoch\<rparr>) w)"
  have fr: "same_frame (snd (?body u)) u" for u
    by (auto simp: same_frame_def split: prod.splits)
  from with_op_subject_run [OF fr wf res [unfolded llam_broker_revoke_all_def with_op_def]]
  show ?thesis
  proof (elim disjE exE conjE)
    fix u u' assume run: "entered w 0 u" "?body u = (r, u')" "same_frame u' u" "w' = left_op (w_tls w) u'"
    have eu: "br_revocation_epoch (w_broker u) = br_revocation_epoch (w_broker w)" by (simp add: entered_fields [OF run(1)])
    obtain n where n: "revoke_all_loop observed (br_revocation_epoch (w_broker w)) = (r, n)"
      and u': "u' = upd_broker (\<lambda>b. b\<lparr>br_revocation_epoch := n\<rparr>) u"
      using run(2) by (auto simp: eu split: prod.splits)
    have ep: "br_revocation_epoch (w_broker w') = n" by (simp add: run(4) left_op_def Let_def u' log_event_def)
    have lt: "r = Inl EOVERFLOW \<and> n = 0 \<or> r = Inr n \<and> br_revocation_epoch (w_broker w) < n"
      using revoke_all_loop_result [OF n]
    proof (elim disjE exE conjE)
      fix c assume c: "c \<in> set (br_revocation_epoch (w_broker w) # observed)" "c \<noteq> 0" "c \<noteq> UINT64_MAX" "r = Inr n" "n = c + 1"
      then have "br_revocation_epoch (w_broker w) \<le> c" using mono by auto
      moreover have "c < c + 1" using unat_Suc_no_wrap [OF c(3)] by (simp add: word_less_nat_alt)
      ultimately show ?thesis using c by auto
    qed simp
    then have "\<not> authorises (w_broker w') subject tok required"
      using old authorises_epoch [of "w_broker w'" subject tok required] by (auto simp: ep)
    with lt show ?thesis by (auto simp: ep)
  qed auto
qed

theorem revoke_all_ends_tokens_witness:
  "let (r, w') = llam_broker_revoke_all [1, 1] example_world
   in r = Inr 2 \<and> br_revocation_epoch (w_broker w') = 2 \<and>
      (\<forall>tok. tk_revocation_epoch tok = 1 \<longrightarrow> w' = example_world \<or> \<not> authorises (w_broker w') 0 tok 1)"
proof -
  obtain u where u: "llam_broker_begin_op_subject example_world 0 = (Inr (), u)" using example_world_begin by blast
  have e: "br_revocation_epoch (w_broker example_world) = 1" by (simp add: example_tls example_broker_def)
  have eu: "br_revocation_epoch (w_broker u) = 1"
    using begin_op_ok(1) [OF example_world_wf u] by (simp add: entered_fields e)
  have r: "fst (llam_broker_revoke_all [1, 1] example_world) = Inr 2"
    by (simp add: llam_broker_revoke_all_def with_op_def with_op_subject_def u eu)
  then obtain w' where w': "llam_broker_revoke_all [1, 1] example_world = (Inr 2, w')" by (metis prod.collapse)
  have m: "\<forall>e\<in>set [1, 1]. e = 0 \<or> br_revocation_epoch (w_broker example_world) \<le> e" by (simp add: e)
  show ?thesis using revoke_all_ends_tokens [OF example_world_wf w' m, of zero_token]
      revoke_all_ends_tokens [OF example_world_wf w' m, where subject = 0 and required = 1]
    by (auto simp: w' e zero_token_def)
qed

text \<open>Attenuation never creates authority: it succeeds only with a source token that itself authorises the requested
  subset, yields a token with exactly that subset for the same object, epoch and subject, and on every failure the output
  holds no token.\<close>

theorem attenuate_cap_confined:
  assumes wf: "ops_wf w" and res: "llam_broker_attenuate_cap w token sub_rights (Some old) = ((r, out), w')"
    and ch: "br_channels (w_broker w) \<noteq> None"
  shows "case r of Inl _ \<Rightarrow> out = Some zero_token
    | Inr _ \<Rightarrow> (\<exists>src tok. token = Some src \<and> out = Some tok \<and>
        authorises (w_broker w) (llam_broker_current_subject w) src sub_rights \<and> tk_rights tok = sub_rights \<and>
        tk_rights src AND tk_rights tok = tk_rights tok \<and>
        authorises (w_broker w') (llam_broker_current_subject w) tok sub_rights)"
proof (cases "sub_rights = 0")
  case True
  then show ?thesis using res by (auto simp: llam_broker_attenuate_cap_def Let_def)
next
  case False
  let ?src = "case token of Some t \<Rightarrow> t | None \<Rightarrow> zero_token"
  let ?body = "\<lambda>w. case llam_broker_validate_cap_unlocked w (if token \<noteq> None then Some ?src else None) sub_rights of
             Inl e \<Rightarrow> ((Inl e, Some zero_token), w)
           | Inr _ \<Rightarrow>
               let epoch = llam_broker_revocation_epoch_unlocked (w_broker w) in
               (case llam_capability_attenuate (w_os w) (br_capability_key (w_broker w)) (Some ?src) sub_rights
                       epoch (Some zero_token) of
                  (Inl e, _, os) \<Rightarrow> ((Inl e, Some zero_token), w\<lparr>w_os := os\<rparr>)
                | (Inr _, attenuated, os) \<Rightarrow> ((Inr (), attenuated), w\<lparr>w_os := os\<rparr>))"
  have res': "locked_op (\<lambda>e. (Inl e, Some zero_token)) ?body w = ((r, out), w')"
    using res False by (simp add: llam_broker_attenuate_cap_def Let_def)
  have fr: "frame_body ?body"
    by (auto simp: frame_body_def same_frame_def Let_def split: sum.splits prod.splits)
  from locked_op_run [OF fr wf res'] show ?thesis
  proof (elim disjE exE conjE bexE)
    fix u u' assume u: "holding w u" "?body u = ((r, out), u')" "w' = released w u'"
    note F = holding_fields [OF u(1)]
    show ?thesis
    proof (cases r)
      case (Inl e)
      then show ?thesis using u(2) by (auto simp: Let_def split: sum.splits prod.splits)
    next
      case (Inr x)
      then obtain src os where tk: "token = Some src"
        and v: "llam_broker_validate_cap_unlocked u (Some src) sub_rights = Inr ()"
        and a: "llam_capability_attenuate (w_os u) (br_capability_key (w_broker u)) (Some src) sub_rights
            (llam_broker_revocation_epoch_unlocked (w_broker u)) (Some zero_token) = (Inr (), out, os)"
        and u': "u' = u\<lparr>w_os := os\<rparr>"
        using u(2) by (cases token)
          (auto simp: Let_def llam_broker_validate_cap_unlocked_def split: sum.splits prod.splits option.splits)
      have au: "authorises (w_broker w) (llam_broker_current_subject w) src sub_rights"
        using v validate_cap_unlocked_iff [of u src sub_rights] ch by (simp add: F)
      have "llam_broker_revocation_epoch_unlocked (w_broker u) = br_revocation_epoch (w_broker w)"
        using F by (simp add: llam_broker_revocation_epoch_unlocked_def)
      with attenuate_ok [OF a] obtain tok where tok: "out = Some tok" "tk_rights tok = sub_rights"
          "tk_rights src AND tk_rights tok = tk_rights tok" "tk_family tok = tk_family src" "tk_runtime_id tok = tk_runtime_id src"
          "tk_slot tok = tk_slot src" "tk_generation tok = tk_generation src"
          "llam_capability_validate_subject (br_capability_key (w_broker w)) (Some tok) sub_rights (br_revocation_epoch (w_broker w)) (tk_subject_id src) = Inr ()"
        by (auto simp: F)
      have "authorises (w_broker w') (llam_broker_current_subject w) tok sub_rights"
        using au tok(4-8) by (simp add: authorises_def validate_subject_ok_iff u(3) u' F live_objects_def)
      then show ?thesis using Inr tk au tok(1-3) by auto
    qed
  qed auto
qed

theorem attenuate_cap_confined_witness:
  "snd (fst (llam_broker_attenuate_cap example_world None 1 (Some (zero_token\<lparr>tk_rights := 1\<rparr>)))) = Some zero_token"
proof -
  obtain r out w' where x: "llam_broker_attenuate_cap example_world None 1 (Some (zero_token\<lparr>tk_rights := 1\<rparr>)) = ((r, out), w')"
    by (metis prod.exhaust)
  have "br_channels (w_broker example_world) \<noteq> None" by (simp add: example_tls example_broker_def)
  from attenuate_cap_confined [OF example_world_wf x this] show ?thesis by (auto simp: x split: sum.splits)
qed

end
