(* ===== verification/Object_Table.thy ===== *)
theory Object_Table
  imports Broker_Authority
begin

text \<open>
  What the four object tables of the broker share. Every table is a fixed array of slots with an
  active flag, an object number and a generation; object numbers are drawn from a counter that only
  grows. The locale fixes the fields of a slot type and the image of a cleared slot, and proves once
  that the scan for a token finds the only slot it can mean and that registering, clearing and
  updating a slot keep object numbers distinct. Each table theory interprets it.
\<close>

lemma first_index_update_same:
  "k < length xs \<Longrightarrow> P y = P (xs ! k) \<Longrightarrow> first_index P (xs[k := y]) = first_index P xs"
  by (induction xs arbitrary: k) (auto split: nat.splits)

locale object_table =
  fixes active :: "'s \<Rightarrow> bool" and ident :: "'s \<Rightarrow> u64" and gen :: "'s \<Rightarrow> u64" and rights :: "'s \<Rightarrow> u64"
    and cleared :: "'s"
  assumes cleared_inactive: "\<not> active cleared"
begin

definition numbered :: "u64 \<Rightarrow> 's list \<Rightarrow> bool" where
  "numbered next ss \<longleftrightarrow> (\<forall>s\<in>set ss. active s \<longrightarrow> ident s \<noteq> 0 \<and> ident s < next \<and> gen s \<noteq> 0) \<and>
     inj_on (\<lambda>i. ident (ss ! i)) {i. i < length ss \<and> active (ss ! i)}"

definition scan :: "u64 \<Rightarrow> u64 \<Rightarrow> 's list \<Rightarrow> nat option" where
  "scan i g ss = first_index (\<lambda>s. active s \<and> ident s = i \<and> gen s = g) ss"

lemma numbered_unique:
  assumes "numbered next ss" "i < length ss" "j < length ss" "active (ss ! i)" "active (ss ! j)" "ident (ss ! i) = ident (ss ! j)"
  shows "i = j"
  using assms unfolding numbered_def by (auto dest!: inj_onD [where x = i and y = j])

lemma scan_unique:
  assumes "numbered next ss" "i < length ss" "active (ss ! i)"
  shows "scan (ident (ss ! i)) (gen (ss ! i)) ss = Some i"
  unfolding scan_def using assms numbered_unique [OF assms(1) _ assms(2) _ assms(3)] by (intro first_index_unique) auto

lemma scan_None: "scan i g ss = None \<longleftrightarrow> (\<forall>s\<in>set ss. active s \<longrightarrow> ident s = i \<longrightarrow> gen s \<noteq> g)"
  by (auto simp: scan_def)

lemma scan_Some:
  "scan i g ss = Some k \<Longrightarrow> k < length ss \<and> active (ss ! k) \<and> ident (ss ! k) = i \<and> gen (ss ! k) = g"
  unfolding scan_def by (auto dest: first_index_SomeD)

lemma numbered_update:
  assumes wf: "numbered next ss" and i: "i < length ss" and le: "next \<le> next'"
    and s: "active s \<Longrightarrow> ident s \<noteq> 0 \<and> ident s < next' \<and> gen s \<noteq> 0"
    and new: "active s \<Longrightarrow> ident s = next \<or> active (ss ! i) \<and> ident s = ident (ss ! i)"
  shows "numbered next' (ss[i := s])"
proof -
  have set: "active x \<longrightarrow> ident x \<noteq> 0 \<and> ident x < next' \<and> gen x \<noteq> 0" if "x \<in> set (ss[i := s])" for x
    using set_update_subset_insert [of ss i s] that wf s le unfolding numbered_def by (auto dest: less_le_trans)
  have lt: "ident (ss ! k) < next" if "k < length ss" "active (ss ! k)" for k
    using wf that unfolding numbered_def by simp
  have "inj_on (\<lambda>k. ident (ss[i := s] ! k)) {k. k < length (ss[i := s]) \<and> active (ss[i := s] ! k)}"
  proof (rule inj_onI, clarsimp simp del: nth_list_update)
    fix k l assume k: "k < length ss" "active (ss[i := s] ! k)" and l: "l < length ss" "active (ss[i := s] ! l)"
      and eq: "ident (ss[i := s] ! k) = ident (ss[i := s] ! l)"
    show "k = l"
    proof (cases "k = i \<or> l = i")
      case False
      then show ?thesis using numbered_unique [OF wf k(1) l(1)] k l eq by simp
    next
      case True
      show ?thesis
      proof (rule ccontr)
        assume ne: "k \<noteq> l"
        with True obtain m where m: "m < length ss" "m \<noteq> i" "active (ss ! m)" "active s" "ident (ss ! m) = ident s"
          using k l eq i by (cases "k = i") (auto simp: nth_list_update split: if_splits)
        then show False using lt [OF m(1,3)] new [OF m(4)] numbered_unique [OF wf m(1) i m(3)] by auto
      qed
    qed
  qed
  with set show ?thesis by (auto simp: numbered_def)
qed

lemma numbered_nth:
  "numbered next ss \<Longrightarrow> i < length ss \<Longrightarrow> active (ss ! i) \<Longrightarrow> ident (ss ! i) \<noteq> 0 \<and> ident (ss ! i) < next \<and> gen (ss ! i) \<noteq> 0"
  by (simp add: numbered_def)

lemma numbered_modify:
  "numbered next ss \<Longrightarrow> i < length ss \<Longrightarrow> active (ss ! i) \<Longrightarrow> ident s = ident (ss ! i) \<Longrightarrow> gen s \<noteq> 0 \<Longrightarrow>
   numbered next (ss[i := s])"
  by (rule numbered_update) (auto dest: numbered_nth)

lemma numbered_insert:
  assumes "numbered next ss" "i < length ss" "ident s = next" "gen s \<noteq> 0" "next \<noteq> 0" "next \<noteq> - 1"
  shows "numbered (next + 1) (ss[i := s])"
proof -
  have "next < next + 1" using unat_Suc_no_wrap [OF assms(6)] by (simp add: word_less_nat_alt)
  with assms show ?thesis by (intro numbered_update [OF assms(1,2)]) auto
qed

text \<open>An object number that was never handed out is found nowhere.\<close>

lemma scan_fresh: "numbered next ss \<Longrightarrow> next \<le> i \<Longrightarrow> scan i g ss = None"
  unfolding scan_None numbered_def by (auto dest!: bspec)

text \<open>A table as a finite map from object number and generation to what \<open>f\<close> shows of the slot.\<close>

definition view :: "('s \<Rightarrow> 'v) \<Rightarrow> 's list \<Rightarrow> u64 \<times> u64 \<Rightarrow> 'v option" where
  "view f ss = (\<lambda>(i, g). map_option (\<lambda>k. f (ss ! k)) (scan i g ss))"

lemma view_at: "numbered next ss \<Longrightarrow> k < length ss \<Longrightarrow> active (ss ! k) \<Longrightarrow> view f ss (ident (ss ! k), gen (ss ! k)) = Some (f (ss ! k))"
  by (simp add: view_def scan_unique)

lemma view_modify:
  assumes "numbered next ss" "k < length ss" "active (ss ! k)" "active s" "ident s = ident (ss ! k)" "gen s = gen (ss ! k)"
  shows "view f (ss[k := s]) = (view f ss)((ident s, gen s) \<mapsto> f s)"
proof -
  have sc: "scan i g (ss[k := s]) = scan i g ss" for i g
    unfolding scan_def using assms(2-6) by (simp add: first_index_update_same)
  have "m = k \<longleftrightarrow> (i, g) = (ident s, gen s)" if "scan i g ss = Some m" for i g m
    using scan_Some [OF that] assms numbered_unique [OF assms(1), of m k] by auto
  moreover have "scan (ident s) (gen s) ss = Some k" using scan_unique [OF assms(1-3)] assms(5,6) by simp
  ultimately have "view f (ss[k := s]) (i, g) = ((view f ss)((ident s, gen s) \<mapsto> f s)) (i, g)" for i g
    using assms(2) by (cases "scan i g ss") (auto simp: view_def sc nth_list_update)
  then show ?thesis by (auto simp: fun_eq_iff)
qed

lemma view_replace:
  assumes wf: "numbered next ss" and k: "k < length ss" and new: "ident s = next" "active s" "gen s \<noteq> 0" "next \<noteq> 0" "next \<noteq> - 1"
  shows "view f (ss[k := s]) = (\<lambda>x. if x = (ident s, gen s) then Some (f s)
    else if active (ss ! k) \<and> x = (ident (ss ! k), gen (ss ! k)) then None else view f ss x)"
proof -
  have wf': "numbered (next + 1) (ss[k := s])" by (rule numbered_insert [OF wf k new(1,3-5)])
  have own: "scan (ident s) (gen s) (ss[k := s]) = Some k" using scan_unique [OF wf', of k] k new(2) by simp
  have other: "scan i g (ss[k := s]) = (if active (ss ! k) \<and> (i, g) = (ident (ss ! k), gen (ss ! k)) then None else scan i g ss)"
    if ne: "(i, g) \<noteq> (ident s, gen s)" for i g
  proof (cases "active (ss ! k) \<and> (i, g) = (ident (ss ! k), gen (ss ! k))")
    case True
    have "\<not> (active x \<and> ident x = i \<and> gen x = g)" if x: "x \<in> set (ss[k := s])" for x
    proof
      assume a: "active x \<and> ident x = i \<and> gen x = g"
      from x obtain j where j: "j < length ss" "x = ss[k := s] ! j" by (auto simp: in_set_conv_nth)
      show False
      proof (cases "j = k")
        case False
        then show False using j a True numbered_unique [OF wf j(1) k] by auto
      qed (use j a ne k in auto)
    qed
    then show ?thesis using True unfolding scan_def by simp
  next
    case False
    then show ?thesis unfolding scan_def using k ne by (auto simp: first_index_update_same)
  qed
  have keep: "ss[k := s] ! m = ss ! m" if "scan i g ss = Some m" "\<not> (active (ss ! k) \<and> (i, g) = (ident (ss ! k), gen (ss ! k)))" for i g m
    using scan_Some [OF that(1)] that(2) by (cases "m = k") auto
  show ?thesis
  proof
    fix x :: "u64 \<times> u64"
    obtain i g where x: "x = (i, g)" by fastforce
    show "view f (ss[k := s]) x = (if x = (ident s, gen s) then Some (f s)
      else if active (ss ! k) \<and> x = (ident (ss ! k), gen (ss ! k)) then None else view f ss x)"
    proof (cases "(i, g) = (ident s, gen s)")
      case True
      then show ?thesis using own k by (simp add: view_def x)
    next
      case False
      show ?thesis
      proof (cases "active (ss ! k) \<and> (i, g) = (ident (ss ! k), gen (ss ! k))")
        case True
        then show ?thesis using other [OF False] False by (auto simp: view_def x)
      next
        case old: False
        then have "view f (ss[k := s]) x = view f ss x"
          using other [OF False] keep [of i g] by (cases "scan i g ss") (auto simp: view_def x)
        then show ?thesis using False old by (auto simp: x)
      qed
    qed
  qed
qed

lemma numbered_clear: "numbered next ss \<Longrightarrow> numbered next (ss[i := cleared])"
  by (cases "i < length ss") (auto intro: numbered_update simp: cleared_inactive list_update_beyond)

lemma numbered_all_cleared: "numbered next (replicate n cleared)"
  by (auto simp: numbered_def cleared_inactive inj_on_def)

lemma numbered_clear_some:
  assumes "numbered next ss" shows "numbered next (map (\<lambda>s. if P s then cleared else s) ss)"
proof -
  let ?f = "\<lambda>s. if P s then cleared else s"
  have act: "active (ss ! i) \<and> map ?f ss ! i = ss ! i" if "i < length ss" "active (map ?f ss ! i)" for i
    using that cleared_inactive by (cases "P (ss ! i)") simp_all
  have "inj_on (\<lambda>i. ident (map ?f ss ! i)) {i. i < length (map ?f ss) \<and> active (map ?f ss ! i)}"
  proof (rule inj_onI)
    fix k l assume kl: "k \<in> {i. i < length (map ?f ss) \<and> active (map ?f ss ! i)}"
        "l \<in> {i. i < length (map ?f ss) \<and> active (map ?f ss ! i)}" "ident (map ?f ss ! k) = ident (map ?f ss ! l)"
    then have lt: "k < length ss" "l < length ss" by simp_all
    note A = act [OF lt(1)] act [OF lt(2)]
    from kl(1,2) have ac: "active (map ?f ss ! k)" "active (map ?f ss ! l)" by blast+
    from A(1) [OF ac(1)] A(2) [OF ac(2)] kl(3) have "active (ss ! k)" "active (ss ! l)" "ident (ss ! k) = ident (ss ! l)"
      by metis+
    with lt show "k = l" by (intro numbered_unique [OF assms])
  qed
  moreover have "\<forall>s\<in>set (map ?f ss). active s \<longrightarrow> ident s \<noteq> 0 \<and> ident s < next \<and> gen s \<noteq> 0"
    using assms cleared_inactive by (auto simp: numbered_def)
  ultimately show ?thesis by (auto simp: numbered_def)
qed

end

end
