(* ===== verification/Broker_Buffer.thy ===== *)
theory Broker_Buffer
  imports Object_Table
begin

text \<open>
  Broker-owned byte buffers (\<^verbatim>\<open>core/broker/broker_buffer.c\<close>). A caller's memory is a list of bytes,
  \<open>None\<close> the null pointer; lengths are numbers and offsets 64-bit words, whose sum may wrap. The
  part of each operation between taking and releasing the broker lock is a definition of its own.
  The lemmas show that a registered buffer is reachable through exactly the token that was issued,
  that reads and writes stay inside the buffer and agree with each other, and that a failing read
  leaves nothing but zeros in the caller's memory.
\<close>

definition llam_broker_buffer_free_data :: "u8 list option \<Rightarrow> world \<Rightarrow> world" where
  "llam_broker_buffer_free_data data w = (case data of None \<Rightarrow> w | Some d \<Rightarrow> log_event (EvFreeBuffer d) w)"

definition llam_broker_buffer_slot_reset :: "nat \<Rightarrow> world \<Rightarrow> world" where
  "llam_broker_buffer_slot_reset i w =
     (let w = llam_broker_buffer_free_data (bs_data (br_buffers (w_broker w) ! i)) w
      in upd_broker (\<lambda>b. b\<lparr>br_buffers := (br_buffers b)[i := zero_buffer_slot]\<rparr>) w)"

definition llam_broker_clear_buffers :: "world \<Rightarrow> world" where
  "llam_broker_clear_buffers w = fold llam_broker_buffer_slot_reset [0..<LLAM_BROKER_BUFFER_SLOTS] w"

definition llam_broker_reclaim_subject_buffers :: "u64 \<Rightarrow> world \<Rightarrow> world" where
  "llam_broker_reclaim_subject_buffers subject_id w =
     (if subject_id = 0 then w
      else (case llam_broker_lock w of
              (Inl _, w) \<Rightarrow> w
            | (Inr _, w) \<Rightarrow>
                llam_broker_unlock
                  (fold (\<lambda>i w. let s = br_buffers (w_broker w) ! i in
                           if bs_subject_id s = subject_id \<and> (bs_active s \<or> bs_data s \<noteq> None)
                           then llam_broker_buffer_slot_reset i w else w)
                     [0..<LLAM_BROKER_BUFFER_SLOTS] w)))"

definition llam_broker_find_buffer_unlocked :: "world \<Rightarrow> capability_token option \<Rightarrow> u64 \<Rightarrow> nat result" where
  "llam_broker_find_buffer_unlocked w token required_rights =
     (case llam_broker_validate_token_family_unlocked w token LLAM_BROKER_CAP_FAMILY_BUFFER required_rights of
        Inl e \<Rightarrow> Inl e
      | Inr _ \<Rightarrow>
          (case first_index (\<lambda>s. bs_active s \<and> bs_id s = tk_slot (the token) \<and> bs_generation s = tk_generation (the token))
                  (br_buffers (w_broker w)) of
             None \<Rightarrow> Inl EACCES
           | Some i \<Rightarrow>
               if bs_rights (br_buffers (w_broker w) ! i) AND required_rights \<noteq> required_rights then Inl EACCES
               else Inr i))"

definition register_buffer_locked ::
    "u8 list \<Rightarrow> nat \<Rightarrow> u64 \<Rightarrow> capability_token option \<Rightarrow> world \<Rightarrow> (unit result \<times> capability_token option) \<times> world" where
  "register_buffer_locked data len rights out_token w =
     (let b = w_broker w; fail = (\<lambda>e w. ((Inl e, out_token), llam_broker_buffer_free_data (Some data) w)) in
      if \<not> br_initialized b \<or> br_runtime b = None then fail EINVAL w
      else (case first_index (\<lambda>s. \<not> bs_active s) (br_buffers b) of
              None \<Rightarrow> fail ENOSPC w
            | Some i \<Rightarrow>
                (case llam_broker_validate_next_object_id (br_next_buffer_id b) of
                   Inl e \<Rightarrow> fail e w
                 | Inr _ \<Rightarrow>
                     let w = llam_broker_buffer_slot_reset i w;
                         s = zero_buffer_slot\<lparr>bs_data := Some data, bs_length := len, bs_id := br_next_buffer_id b,
                               bs_generation := 1, bs_rights := rights, bs_subject_id := llam_broker_current_subject w,
                               bs_active := True\<rparr>;
                         w = upd_broker (\<lambda>b. b\<lparr>br_next_buffer_id := br_next_buffer_id b + 1,
                               br_buffers := (br_buffers b)[i := s]\<rparr>) w
                     in (case llam_broker_issue_object_cap_unlocked w LLAM_BROKER_CAP_FAMILY_BUFFER (bs_id s)
                                (bs_generation s) rights out_token of
                           ((Inl e, out), w) \<Rightarrow> ((Inl e, out), llam_broker_buffer_slot_reset i w)
                         | ((Inr _, out), w) \<Rightarrow> ((Inr (), out), w)))))"

definition llam_broker_register_buffer ::
    "world \<Rightarrow> u8 list option \<Rightarrow> nat \<Rightarrow> u64 \<Rightarrow> capability_token option \<Rightarrow>
     (unit result \<times> capability_token option) \<times> world" where
  "llam_broker_register_buffer w initial_data len rights out_token =
     (let out_token = map_option (\<lambda>_. zero_token) out_token in
      if len = 0 \<or> LLAM_BROKER_BUFFER_MAX_BYTES < len \<or> rights = 0 \<or> out_token = None then ((Inl EINVAL, out_token), w)
      else (case llam_broker_validate_object_rights LLAM_BROKER_CAP_FAMILY_BUFFER rights of
              Inl e \<Rightarrow> ((Inl e, out_token), w)
            | Inr _ \<Rightarrow>
                (case os_take_calloc (w_os w) of
                   (False, os) \<Rightarrow> ((Inl ENOMEM, out_token), w\<lparr>w_os := os\<rparr>)
                 | (True, os) \<Rightarrow>
                     let w = w\<lparr>w_os := os\<rparr>;
                         data = (case initial_data of None \<Rightarrow> replicate len 0
                                 | Some d \<Rightarrow> overlay (replicate len 0) 0 (take len d))
                     in (case llam_broker_begin_op w of
                           (Inl e, w) \<Rightarrow> ((Inl e, out_token), llam_broker_buffer_free_data (Some data) w)
                         | (Inr _, w) \<Rightarrow>
                             (case llam_broker_lock w of
                                (Inl e, w) \<Rightarrow>
                                  ((Inl e, out_token), llam_broker_buffer_free_data (Some data) (llam_broker_end_op w))
                              | (Inr _, w) \<Rightarrow>
                                  (case register_buffer_locked data len rights out_token w of
                                     (r, w) \<Rightarrow> (r, llam_broker_end_op (llam_broker_unlock w))))))))"

text \<open>The range check of both accessors: the end of the range as the wrapped 64-bit sum.\<close>

definition buffer_range_ok :: "u64 \<Rightarrow> nat \<Rightarrow> nat \<Rightarrow> bool" where
  "buffer_range_ok relative_offset len slot_length \<longleftrightarrow>
     (let e = relative_offset + of_nat len in \<not> (e < relative_offset \<or> of_nat slot_length < e))"

definition read_buffer_locked ::
    "capability_token option \<Rightarrow> u64 \<Rightarrow> u8 list option \<Rightarrow> nat \<Rightarrow> world \<Rightarrow> (unit result \<times> u8 list option) \<times> world" where
  "read_buffer_locked token relative_offset out_data len w =
     (case llam_broker_find_buffer_unlocked w token LLAM_CAP_RIGHT_READ of
        Inl e \<Rightarrow> (llam_broker_fail_clear_output out_data len e, w)
      | Inr i \<Rightarrow>
          let s = br_buffers (w_broker w) ! i in
          if \<not> buffer_range_ok relative_offset len (bs_length s)
          then (llam_broker_fail_clear_output out_data len EINVAL, w)
          else (case bs_data s of
                  None \<Rightarrow> ((Inl UNDEFINED, out_data), w)
                | Some d \<Rightarrow>
                    ((Inr (), map_option (\<lambda>out. overlay out 0 (subrange d (unat relative_offset) len)) out_data), w)))"

definition llam_broker_read_buffer ::
    "world \<Rightarrow> capability_token option \<Rightarrow> u64 \<Rightarrow> u8 list option \<Rightarrow> nat \<Rightarrow> (unit result \<times> u8 list option) \<times> world" where
  "llam_broker_read_buffer w token relative_offset out_data len =
     (if out_data = None \<or> len = 0 then ((Inl EINVAL, out_data), w)
      else locked_op (llam_broker_fail_clear_output out_data len)
             (read_buffer_locked token relative_offset out_data len) w)"

definition write_buffer_locked ::
    "capability_token option \<Rightarrow> u64 \<Rightarrow> u8 list \<Rightarrow> nat \<Rightarrow> world \<Rightarrow> unit result \<times> world" where
  "write_buffer_locked token relative_offset data len w =
     (case llam_broker_find_buffer_unlocked w token LLAM_CAP_RIGHT_WRITE of
        Inl e \<Rightarrow> (Inl e, w)
      | Inr i \<Rightarrow>
          let s = br_buffers (w_broker w) ! i in
          if \<not> buffer_range_ok relative_offset len (bs_length s) then (Inl EINVAL, w)
          else (case bs_data s of
                  None \<Rightarrow> (Inl UNDEFINED, w)
                | Some d \<Rightarrow>
                    (Inr (), upd_broker (\<lambda>b. b\<lparr>br_buffers := (br_buffers b)[i :=
                       s\<lparr>bs_data := Some (overlay d (unat relative_offset) (take len data))\<rparr>]\<rparr>) w)))"

definition llam_broker_write_buffer ::
    "world \<Rightarrow> capability_token option \<Rightarrow> u64 \<Rightarrow> u8 list option \<Rightarrow> nat \<Rightarrow> unit result \<times> world" where
  "llam_broker_write_buffer w token relative_offset data len =
     (case data of
        None \<Rightarrow> (Inl EINVAL, w)
      | Some d \<Rightarrow>
          if len = 0 then (Inl EINVAL, w)
          else locked_op Inl (write_buffer_locked token relative_offset d len) w)"

section \<open>The buffer table\<close>

interpretation buf: object_table bs_active bs_id bs_generation bs_rights zero_buffer_slot
  by unfold_locales (simp add: zero_buffer_slot_def)

definition buffer_slot_wf :: "buffer_slot \<Rightarrow> bool" where
  "buffer_slot_wf s \<longleftrightarrow> (bs_active s \<longrightarrow>
     (\<exists>d. bs_data s = Some d \<and> length d = bs_length s) \<and> 0 < bs_length s \<and> bs_length s \<le> LLAM_BROKER_BUFFER_MAX_BYTES \<and>
     llam_broker_validate_object_rights LLAM_BROKER_CAP_FAMILY_BUFFER (bs_rights s) = Inr ())"

definition buffers_wf :: "broker \<Rightarrow> bool" where
  "buffers_wf b \<longleftrightarrow> length (br_buffers b) = LLAM_BROKER_BUFFER_SLOTS \<and>
     (\<forall>s\<in>set (br_buffers b). buffer_slot_wf s) \<and> buf.numbered (br_next_buffer_id b) (br_buffers b)"

lemma buffers_wf_frame [simp]:
  "buffers_wf (b\<lparr>br_active_ops := n\<rparr>) = buffers_wf b" "buffers_wf (b\<lparr>br_lock := l\<rparr>) = buffers_wf b"
  by (simp_all add: buffers_wf_def)

lemma validate_token_family_iff:
  assumes "br_channels (w_broker w) \<noteq> None"
  shows "llam_broker_validate_token_family_unlocked w token f required = Inr () \<longleftrightarrow>
    (\<exists>tok. token = Some tok \<and> tk_family tok = f \<and> authorises (w_broker w) (llam_broker_current_subject w) tok required)"
proof (cases token)
  case (Some tok)
  then show ?thesis
    using validate_cap_unlocked_iff [OF assms, of tok required]
    by (cases "llam_broker_validate_cap_unlocked w token required") (auto simp: llam_broker_validate_token_family_unlocked_def)
qed (simp add: llam_broker_validate_token_family_unlocked_def)

text \<open>A token that authorises an access finds the slot, and only such a token does.\<close>

lemma find_buffer_iff:
  assumes ch: "br_channels (w_broker w) \<noteq> None" and wf: "buffers_wf (w_broker w)"
  shows "llam_broker_find_buffer_unlocked w token required = Inr i \<longleftrightarrow>
    (\<exists>tok. token = Some tok \<and> tk_family tok = LLAM_BROKER_CAP_FAMILY_BUFFER \<and>
       authorises (w_broker w) (llam_broker_current_subject w) tok required \<and>
       buf.scan (tk_slot tok) (tk_generation tok) (br_buffers (w_broker w)) = Some i \<and>
       bs_rights (br_buffers (w_broker w) ! i) AND required = required)"
proof (cases "llam_broker_validate_token_family_unlocked w token LLAM_BROKER_CAP_FAMILY_BUFFER required")
  case (Inl e)
  then show ?thesis using validate_token_family_iff [OF ch, of token LLAM_BROKER_CAP_FAMILY_BUFFER required]
    by (auto simp: llam_broker_find_buffer_unlocked_def)
next
  case (Inr x)
  then obtain tok where tok: "token = Some tok" "tk_family tok = LLAM_BROKER_CAP_FAMILY_BUFFER"
      "authorises (w_broker w) (llam_broker_current_subject w) tok required"
    using validate_token_family_iff [OF ch, of token LLAM_BROKER_CAP_FAMILY_BUFFER required] by auto
  then show ?thesis unfolding llam_broker_find_buffer_unlocked_def Inr buf.scan_def
    by (cases "first_index (\<lambda>s. bs_active s \<and> bs_id s = tk_slot tok \<and> bs_generation s = tk_generation tok)
        (br_buffers (w_broker w))") (auto simp del: first_index_None)
qed

lemma find_buffer_slot:
  assumes "br_channels (w_broker w) \<noteq> None" "buffers_wf (w_broker w)"
    and "llam_broker_find_buffer_unlocked w token required = Inr i"
  shows "i < length (br_buffers (w_broker w))" "bs_active (br_buffers (w_broker w) ! i)"
    "\<exists>d. bs_data (br_buffers (w_broker w) ! i) = Some d \<and> length d = bs_length (br_buffers (w_broker w) ! i)"
    "bs_length (br_buffers (w_broker w) ! i) \<le> LLAM_BROKER_BUFFER_MAX_BYTES"
proof -
  obtain tok :: capability_token where "buf.scan (tk_slot tok) (tk_generation tok) (br_buffers (w_broker w)) = Some i"
    using assms(3) unfolding find_buffer_iff [OF assms(1,2)] by auto
  from buf.scan_Some [OF this] show i: "i < length (br_buffers (w_broker w))" "bs_active (br_buffers (w_broker w) ! i)" by auto
  then have "buffer_slot_wf (br_buffers (w_broker w) ! i)" using assms(2) by (simp add: buffers_wf_def)
  then show "\<exists>d. bs_data (br_buffers (w_broker w) ! i) = Some d \<and> length d = bs_length (br_buffers (w_broker w) ! i)"
    "bs_length (br_buffers (w_broker w) ! i) \<le> LLAM_BROKER_BUFFER_MAX_BYTES" using i(2) by (auto simp: buffer_slot_wf_def)
qed

lemma buffer_max_fits: "n \<le> LLAM_BROKER_BUFFER_MAX_BYTES \<Longrightarrow> unat (of_nat n :: u64) = n"
  by (simp add: LLAM_BROKER_BUFFER_MAX_BYTES_def unsigned_of_nat take_bit_nat_eq_self)

lemma buffer_range_iff:
  assumes "len < 2 ^ LENGTH(64)" "n \<le> LLAM_BROKER_BUFFER_MAX_BYTES"
  shows "buffer_range_ok off len n \<longleftrightarrow> unat off + len \<le> n"
proof -
  have u: "unat (of_nat len :: u64) = len" "unat (of_nat n :: u64) = n"
    using assms(1) buffer_max_fits [OF assms(2)] by (simp_all add: unsigned_of_nat take_bit_nat_eq_self)
  have nw: "off \<le> off + of_nat len \<longleftrightarrow> unat off + len < 2 ^ LENGTH(64)"
    using unat_add_no_wrap_iff [of off "of_nat len"] unfolding u .
  have sum: "off \<le> off + of_nat len \<Longrightarrow> unat (off + of_nat len) = unat off + len"
    using unat_plus_simple [of off "of_nat len"] unfolding u by blast
  have n: "n < 2 ^ LENGTH(64)" using unsigned_less [of "of_nat n :: u64", where ?'a = nat] unfolding u .
  show ?thesis
  proof (cases "off \<le> off + of_nat len")
    case True
    then show ?thesis using sum u by (auto simp: buffer_range_ok_def Let_def word_less_nat_alt not_less)
  next
    case False
    then have "\<not> unat off + len \<le> n" using nw n by linarith
    then show ?thesis using False by (simp add: buffer_range_ok_def Let_def not_le)
  qed
qed

text \<open>Validation never reaches the undefined branch while the channel table exists.\<close>

lemma validate_live_defined:
  "br_channels b \<noteq> None \<Longrightarrow> llam_broker_validate_live_object_unlocked b token required \<noteq> Inl UNDEFINED"
  by (auto simp: llam_broker_validate_live_object_unlocked_def Let_def split: option.splits)

lemma validate_cap_defined:
  "br_channels (w_broker w) \<noteq> None \<Longrightarrow> llam_broker_validate_cap_unlocked w token required \<noteq> Inl UNDEFINED"
  using validate_live_defined
  by (auto simp: llam_broker_validate_cap_unlocked_def llam_capability_validate_subject_def Let_def split: option.splits sum.splits if_splits)

lemma validate_token_family_defined:
  "br_channels (w_broker w) \<noteq> None \<Longrightarrow> llam_broker_validate_token_family_unlocked w token f required \<noteq> Inl UNDEFINED"
  using validate_cap_defined by (auto simp: llam_broker_validate_token_family_unlocked_def split: option.splits sum.splits)

lemma find_buffer_defined:
  "br_channels (w_broker w) \<noteq> None \<Longrightarrow> llam_broker_find_buffer_unlocked w token required \<noteq> Inl UNDEFINED"
  using validate_token_family_defined by (auto simp: llam_broker_find_buffer_unlocked_def split: option.splits sum.splits)

section \<open>Buffers as a finite map\<close>

text \<open>The abstract contents: the bytes registered under an object number and generation.\<close>

definition buf_view :: "broker \<Rightarrow> u64 \<times> u64 \<Rightarrow> u8 list option" where
  "buf_view b = (\<lambda>(i, g). case buf.scan i g (br_buffers b) of None \<Rightarrow> None | Some k \<Rightarrow> bs_data (br_buffers b ! k))"

lemma buf_view_frame [simp]:
  "buf_view (b\<lparr>br_active_ops := n\<rparr>) = buf_view b" "buf_view (b\<lparr>br_lock := l\<rparr>) = buf_view b"
  by (simp_all add: buf_view_def fun_eq_iff cong: option.case_cong)

lemma buf_view_active:
  assumes "buffers_wf b" "k < length (br_buffers b)" "bs_active (br_buffers b ! k)"
  shows "buf_view b (bs_id (br_buffers b ! k), bs_generation (br_buffers b ! k)) = bs_data (br_buffers b ! k)"
  using buf.scan_unique [OF _ assms(2,3), of "br_next_buffer_id b"] assms(1) by (simp add: buf_view_def buffers_wf_def)

lemma buf_view_store:
  assumes wf: "buffers_wf b" and k: "k < length (br_buffers b)" "bs_active (br_buffers b ! k)" and d: "length d = bs_length (br_buffers b ! k)"
  defines "s \<equiv> br_buffers b ! k" and "b' \<equiv> b\<lparr>br_buffers := (br_buffers b)[k := (br_buffers b ! k)\<lparr>bs_data := Some d\<rparr>]\<rparr>"
  shows "buf_view b' = (buf_view b)((bs_id s, bs_generation s) \<mapsto> d)" "buffers_wf b'"
proof -
  have sc: "buf.scan i g (br_buffers b') = buf.scan i g (br_buffers b)" for i g
    unfolding buf.scan_def b'_def using k by (simp add: first_index_update_same)
  show "buf_view b' = (buf_view b)((bs_id s, bs_generation s) \<mapsto> d)"
  proof
    fix x :: "u64 \<times> u64" obtain i g where x: "x = (i, g)" by fastforce
    show "buf_view b' x = ((buf_view b)((bs_id s, bs_generation s) \<mapsto> d)) x"
    proof (cases "buf.scan i g (br_buffers b)")
      case None
      then have "(i, g) \<noteq> (bs_id s, bs_generation s)" using k by (auto simp: buf.scan_None s_def)
      then show ?thesis using None by (simp add: buf_view_def x sc)
    next
      case (Some m)
      note m = buf.scan_Some [OF Some]
      have "(i, g) = (bs_id s, bs_generation s) \<longleftrightarrow> m = k"
        using m k buf.numbered_unique [of "br_next_buffer_id b" "br_buffers b" m k] wf by (auto simp: s_def buffers_wf_def)
      moreover have "br_buffers b' ! m = (if m = k then s\<lparr>bs_data := Some d\<rparr> else br_buffers b ! m)"
        using k by (simp add: b'_def s_def)
      ultimately show ?thesis using Some by (auto simp: buf_view_def x sc)
    qed
  qed
  have "buf.numbered (br_next_buffer_id b) (br_buffers b')"
    unfolding b'_def using wf k
    by (auto simp: buffers_wf_def intro!: buf.numbered_modify dest: buf.numbered_nth)
  moreover have "buffer_slot_wf ((br_buffers b ! k)\<lparr>bs_data := Some d\<rparr>)"
    using wf k d by (auto simp: buffers_wf_def buffer_slot_wf_def)
  ultimately show "buffers_wf b'"
    using wf set_update_subset_insert [of "br_buffers b" k] unfolding buffers_wf_def b'_def by auto
qed

lemma write_buffer_frame: "frame_body (write_buffer_locked token off data len)"
  by (auto simp: frame_body_def write_buffer_locked_def same_frame_def Let_def split: sum.splits option.splits)

lemma read_buffer_frame: "frame_body (read_buffer_locked token off out len)"
  by (auto simp: frame_body_def read_buffer_locked_def Let_def split: sum.splits option.splits)

section \<open>Reading and writing\<close>

lemma authorises_names: "authorises b s tok q \<Longrightarrow> tk_slot tok \<noteq> 0 \<and> tk_generation tok \<noteq> 0"
  by (simp add: authorises_def token_shape_def)

text \<open>C21. Writing a buffer is an update of the abstract map: a successful write needs a token that authorises writing, keeps
  inside the registered length, and replaces exactly the addressed bytes of that one buffer; a failing write
  changes nothing; no call reaches undefined behaviour and the table stays well-formed.\<close>

theorem write_buffer_refines:
  assumes wf: "ops_wf w" "buffers_wf (w_broker w)" and ch: "br_channels (w_broker w) \<noteq> None"
    and nd: "\<not> br_destroying (w_broker w)"
    and len: "length data = len" "len < 2 ^ LENGTH(64)"
    and res: "llam_broker_write_buffer w (Some tok) off (Some data) len = (r, w')"
  shows "buffers_wf (w_broker w') \<and> (case r of
      Inl e \<Rightarrow> w' = w \<and> e \<noteq> UNDEFINED
    | Inr _ \<Rightarrow> authorises (w_broker w) (llam_broker_current_subject w) tok LLAM_CAP_RIGHT_WRITE \<and>
        (\<exists>d. buf_view (w_broker w) (tk_slot tok, tk_generation tok) = Some d \<and> unat off + len \<le> length d \<and>
           buf_view (w_broker w') = (buf_view (w_broker w))((tk_slot tok, tk_generation tok) \<mapsto> overlay d (unat off) data)))"
proof (cases "len = 0")
  case True
  then show ?thesis using res wf by (auto simp: llam_broker_write_buffer_def)
next
  case False
  have res': "locked_op Inl (write_buffer_locked (Some tok) off data len) w = (r, w')"
    using res False by (simp add: llam_broker_write_buffer_def)
  from locked_op_run [OF write_buffer_frame wf(1) res'] show ?thesis
  proof (elim disjE exE conjE bexE)
    fix u u' assume u: "holding w u" "write_buffer_locked (Some tok) off data len u = (r, u')" "w' = released w u'"
    note F = holding_fields [OF u(1)]
    have chu: "br_channels (w_broker u) \<noteq> None" and wfu: "buffers_wf (w_broker u)" using ch wf(2) by (simp_all add: F)
    show ?thesis
    proof (cases r)
      case (Inl e)
      have "u' = u \<and> e \<noteq> UNDEFINED"
        using u(2) Inl find_buffer_slot(3) [OF chu wfu, of "Some tok" LLAM_CAP_RIGHT_WRITE] find_buffer_defined [OF chu, of "Some tok" LLAM_CAP_RIGHT_WRITE]
        by (auto simp: write_buffer_locked_def Let_def split: sum.splits if_splits option.splits)
      then show ?thesis using Inl released_unchanged [OF wf(1) u(1) nd] u(3) wf(2) by simp
    next
      case (Inr x)
      then obtain i where i: "llam_broker_find_buffer_unlocked u (Some tok) LLAM_CAP_RIGHT_WRITE = Inr i"
        using u(2) by (auto simp: write_buffer_locked_def split: sum.splits)
      define s where "s = br_buffers (w_broker u) ! i"
      note B = find_buffer_slot [OF chu wfu i, folded s_def]
      obtain d where d: "bs_data s = Some d" "length d = bs_length s" using B(3) by blast
      have rng: "buffer_range_ok off len (bs_length s)"
        and u': "u' = upd_broker (\<lambda>b. b\<lparr>br_buffers := (br_buffers b)[i := s\<lparr>bs_data := Some (overlay d (unat off) (take len data))\<rparr>]\<rparr>) u"
        using u(2) i Inr d(1) by (auto simp: write_buffer_locked_def Let_def s_def split: if_splits)
      have le: "unat off + len \<le> length d" using rng buffer_range_iff [OF len(2) B(4)] d(2) by simp
      have sl: "tk_slot tok = bs_id s" "tk_generation tok = bs_generation s"
        and au: "authorises (w_broker w) (llam_broker_current_subject w) tok LLAM_CAP_RIGHT_WRITE"
        using i unfolding find_buffer_iff [OF chu wfu] s_def by (auto dest: buf.scan_Some simp: F)
      have ld: "length (overlay d (unat off) data) = bs_length s" using le len(1) d(2) by simp
      have bw: "br_buffers (w_broker u) = br_buffers (w_broker w)" by (simp add: F)
      note B' = B(1) [unfolded bw] B(2) [unfolded s_def bw] and s' = s_def [unfolded bw, symmetric]
      note V = buf_view_store [OF wf(2) B' ld [unfolded s_def bw], unfolded s']
      show ?thesis using Inr au le V len(1) buf_view_active [OF wf(2) B', unfolded s'] d(1)
        by (simp add: u(3) u' F sl)
    qed
  qed (use wf in auto)
qed

text \<open>C22. Reading a buffer returns the addressed bytes of the abstract map and nothing else: a successful read needs a
  token that authorises reading and a range inside the registered length; on every failure of a non-empty request the
  whole caller buffer is zeroed; the broker is unchanged either way.\<close>

theorem read_buffer_refines:
  assumes wf: "ops_wf w" "buffers_wf (w_broker w)" and ch: "br_channels (w_broker w) \<noteq> None"
    and nd: "\<not> br_destroying (w_broker w)"
    and len: "length out = len" "0 < len" "len < 2 ^ LENGTH(64)"
    and res: "llam_broker_read_buffer w (Some tok) off (Some out) len = ((r, out'), w')"
  shows "w' = w \<and> (case r of
      Inl e \<Rightarrow> e \<noteq> UNDEFINED \<and> out' = Some (replicate len 0)
    | Inr _ \<Rightarrow> authorises (w_broker w) (llam_broker_current_subject w) tok LLAM_CAP_RIGHT_READ \<and>
        (\<exists>d. buf_view (w_broker w) (tk_slot tok, tk_generation tok) = Some d \<and> unat off + len \<le> length d \<and>
           out' = Some (subrange d (unat off) len)))"
proof -
  have clr: "overlay out 0 (replicate len 0) = replicate len 0" using len(1) by (simp add: overlay_def)
  have res': "locked_op (llam_broker_fail_clear_output (Some out) len) (read_buffer_locked (Some tok) off (Some out) len) w = ((r, out'), w')"
    using res len(2) by (simp add: llam_broker_read_buffer_def)
  from locked_op_run [OF read_buffer_frame wf(1) res'] show ?thesis
  proof (elim disjE exE conjE bexE)
    fix e assume "(r, out') = llam_broker_fail_clear_output (Some out) len e" "w' = w" "e \<in> {EINVAL, EBUSY, EOVERFLOW, EACCES}"
    then show ?thesis using len(2) clr by (auto simp: llam_broker_fail_clear_output_def)
  next
    fix u u' assume u: "holding w u" "read_buffer_locked (Some tok) off (Some out) len u = ((r, out'), u')" "w' = released w u'"
    note F = holding_fields [OF u(1)]
    have bw: "br_buffers (w_broker u) = br_buffers (w_broker w)" by (simp add: F)
    have chu: "br_channels (w_broker u) \<noteq> None" and wfu: "buffers_wf (w_broker u)" using ch wf(2) by (simp_all add: F)
    have "u' = u" using u(2) by (auto simp: read_buffer_locked_def Let_def split: sum.splits if_splits option.splits)
    then have w': "w' = w" using released_unchanged [OF wf(1) u(1) nd] u(3) by simp
    show ?thesis
    proof (cases "llam_broker_find_buffer_unlocked u (Some tok) LLAM_CAP_RIGHT_READ")
      case (Inl e)
      then show ?thesis using u(2) w' len(2) clr find_buffer_defined [OF chu, of "Some tok" LLAM_CAP_RIGHT_READ]
        by (auto simp: read_buffer_locked_def llam_broker_fail_clear_output_def)
    next
      case (Inr i)
      define s where "s = br_buffers (w_broker w) ! i"
      note B = find_buffer_slot [OF chu wfu Inr, unfolded bw, folded s_def]
      obtain d where d: "bs_data s = Some d" "length d = bs_length s" using B(3) by blast
      have rng: "buffer_range_ok off len (bs_length s) \<longleftrightarrow> unat off + len \<le> length d"
        using buffer_range_iff [OF len(3) B(4)] d(2) by simp
      have au: "tk_slot tok = bs_id s" "tk_generation tok = bs_generation s"
          "authorises (w_broker w) (llam_broker_current_subject w) tok LLAM_CAP_RIGHT_READ"
        using Inr unfolding find_buffer_iff [OF chu wfu] s_def bw by (auto dest: buf.scan_Some simp: F)
      have view: "buf_view (w_broker w) (tk_slot tok, tk_generation tok) = Some d"
        using buf_view_active [OF wf(2) B(1)] B(2) d(1) au(1,2) by (simp add: s_def)
      show ?thesis
      proof (cases "unat off + len \<le> length d")
        case True
        then have "overlay out 0 (subrange d (unat off) len) = subrange d (unat off) len"
          using len(1) by (simp add: overlay_def)
        then show ?thesis using u(2) Inr True rng d(1) au(3) view w'
          by (auto simp: read_buffer_locked_def Let_def bw s_def [symmetric])
      next
        case False
        then show ?thesis using u(2) Inr rng w' len(2) clr
          by (auto simp: read_buffer_locked_def Let_def bw s_def [symmetric] llam_broker_fail_clear_output_def)
      qed
    qed
  qed
qed

lemma example_buffers_wf: "buffers_wf (w_broker example_world)" "br_channels (w_broker example_world) \<noteq> None"
    "\<not> br_destroying (w_broker example_world)"
proof -
  have "buf.numbered 1 (replicate LLAM_BROKER_BUFFER_SLOTS zero_buffer_slot)" by (rule buf.numbered_all_cleared)
  then show "buffers_wf (w_broker example_world)"
    by (auto simp: buffers_wf_def example_tls example_broker_def zero_broker_def buffer_slot_wf_def zero_buffer_slot_def)
qed (simp_all add: example_tls example_broker_def zero_broker_def)

lemma zero_token_powerless: "\<not> authorises b s zero_token q"
  by (simp add: authorises_def token_shape_def zero_token_def LLAM_CAPABILITY_VERSION_def)

theorem write_buffer_refines_witness:
  "snd (llam_broker_write_buffer example_world (Some zero_token) 0 (Some [7]) 1) = example_world"
proof -
  obtain r w' where x: "llam_broker_write_buffer example_world (Some zero_token) 0 (Some [7]) 1 = (r, w')" by fastforce
  from write_buffer_refines [OF example_world_wf example_buffers_wf _ _ x] show ?thesis
    unfolding x by (simp add: zero_token_powerless split: sum.splits)
qed

theorem read_buffer_refines_witness:
  "snd (fst (llam_broker_read_buffer example_world (Some zero_token) 0 (Some [1, 2, 3]) 3)) = Some [0, 0, 0]"
proof -
  obtain r out w' where x: "llam_broker_read_buffer example_world (Some zero_token) 0 (Some [1, 2, 3]) 3 = ((r, out), w')"
    by (metis prod.exhaust)
  from read_buffer_refines [OF example_world_wf example_buffers_wf _ _ _ x] show ?thesis
    unfolding x by (simp add: zero_token_powerless numeral_3_eq_3 split: sum.splits)
qed

section \<open>Registration\<close>

lemma buf_view_cong: "br_buffers b = br_buffers c \<Longrightarrow> buf_view b = buf_view c"
  by (simp add: buf_view_def fun_eq_iff cong: option.case_cong)

lemma buf_view_reset:
  assumes "i < length (br_buffers b)" "\<not> bs_active (br_buffers b ! i)" "br_buffers c = (br_buffers b)[i := zero_buffer_slot]"
  shows "buf_view c = buf_view b"
proof -
  have na: "\<not> bs_active zero_buffer_slot" by (rule buf.cleared_inactive)
  have sc: "buf.scan j g (br_buffers c) = buf.scan j g (br_buffers b)" for j g
    unfolding buf.scan_def assms(3) using assms(1,2) na by (simp add: first_index_update_same)
  have "br_buffers c ! m = br_buffers b ! m" if "buf.scan j g (br_buffers b) = Some m" for j g m
    using buf.scan_Some [OF that] assms by (auto simp: nth_list_update)
  then show ?thesis by (auto simp: buf_view_def sc fun_eq_iff split: option.split)
qed

lemma buf_view_insert:
  assumes wf: "buffers_wf b" and i: "i < length (br_buffers b)" "\<not> bs_active (br_buffers b ! i)"
    and s: "bs_active s" "bs_id s = br_next_buffer_id b" "bs_generation s \<noteq> 0" "bs_data s = Some d" "buffer_slot_wf s"
    and nx: "br_next_buffer_id b \<noteq> 0" "br_next_buffer_id b \<noteq> UINT64_MAX"
    and c: "br_buffers c = (br_buffers b)[i := s]" "br_next_buffer_id c = br_next_buffer_id b + 1"
  shows "buffers_wf c" "buf_view c = (buf_view b)((bs_id s, bs_generation s) \<mapsto> d)"
    "buf_view b (bs_id s, g) = None"
proof -
  have nb: "buf.numbered (br_next_buffer_id b) (br_buffers b)" using wf by (simp add: buffers_wf_def)
  have nc: "buf.numbered (br_next_buffer_id c) (br_buffers c)"
    unfolding c by (rule buf.numbered_insert [OF nb i(1) s(2,3) nx])
  show "buffers_wf c"
    using wf nc s(5) set_update_subset_insert [of "br_buffers b" i s] by (auto simp: buffers_wf_def c)
  show "buf_view b (bs_id s, g) = None" using buf.scan_fresh [OF nb, of "bs_id s"] s(2) by (simp add: buf_view_def)
  have sc: "buf.scan j g (br_buffers c) = (if (j, g) = (bs_id s, bs_generation s) then Some i else buf.scan j g (br_buffers b))" for j g
  proof (cases "(j, g) = (bs_id s, bs_generation s)")
    case True
    then show ?thesis using buf.scan_unique [OF nc, of i] i(1) s(1) by (simp add: c)
  next
    case False
    then show ?thesis unfolding buf.scan_def c using i by (auto simp: first_index_update_same)
  qed
  have "br_buffers c ! m = br_buffers b ! m" if "buf.scan j g (br_buffers b) = Some m" for j g m
    using buf.scan_Some [OF that] i by (auto simp: c nth_list_update)
  moreover have "br_buffers c ! i = s" using i(1) by (simp add: c)
  ultimately show "buf_view c = (buf_view b)((bs_id s, bs_generation s) \<mapsto> d)"
    using s(4) by (auto simp: buf_view_def sc fun_eq_iff split: option.split)
qed

lemma issue_unlocked_cases:
  assumes "llam_broker_issue_object_cap_unlocked w family slot g rights (Some t0) = ((r, out), w')"
  shows "\<exists>os. w' = w\<lparr>w_os := os\<rparr>"
    "case r of Inl e \<Rightarrow> out = Some zero_token \<and> e \<in> {EINVAL, EACCES, EIO}
     | Inr _ \<Rightarrow> (\<exists>tok rid. out = Some tok \<and> br_runtime (w_broker w) = Some rid \<and> br_initialized (w_broker w) \<and>
         llam_broker_validate_object_rights family rights = Inr () \<and> tk_family tok = family \<and> tk_slot tok = slot \<and>
         tk_generation tok = g \<and> tk_rights tok = rights \<and> tk_runtime_id tok = rid \<and>
         (\<forall>required. required \<noteq> 0 \<and> rights AND required = required \<longrightarrow>
            llam_capability_validate_subject (br_capability_key (w_broker w)) (Some tok) required
              (br_revocation_epoch (w_broker w)) (llam_broker_current_subject w) = Inr ()))"
proof -
  show "\<exists>os. w' = w\<lparr>w_os := os\<rparr>"
    using assms by (auto simp: llam_broker_issue_object_cap_unlocked_def Let_def split: option.splits if_splits sum.splits prod.splits
        intro: exI [of _ "w_os w"])
  show "case r of Inl e \<Rightarrow> out = Some zero_token \<and> e \<in> {EINVAL, EACCES, EIO}
     | Inr _ \<Rightarrow> (\<exists>tok rid. out = Some tok \<and> br_runtime (w_broker w) = Some rid \<and> br_initialized (w_broker w) \<and>
         llam_broker_validate_object_rights family rights = Inr () \<and> tk_family tok = family \<and> tk_slot tok = slot \<and>
         tk_generation tok = g \<and> tk_rights tok = rights \<and> tk_runtime_id tok = rid \<and>
         (\<forall>required. required \<noteq> 0 \<and> rights AND required = required \<longrightarrow>
            llam_capability_validate_subject (br_capability_key (w_broker w)) (Some tok) required
              (br_revocation_epoch (w_broker w)) (llam_broker_current_subject w) = Inr ()))"
  proof (cases "\<exists>rid. br_runtime (w_broker w) = Some rid \<and> br_initialized (w_broker w) \<and>
      llam_broker_validate_object_rights family rights = Inr ()")
    case False
    then show ?thesis using assms
      by (auto simp: llam_broker_issue_object_cap_unlocked_def Let_def llam_broker_validate_object_rights_def
          split: option.splits if_splits sum.splits prod.splits)
  next
    case True
    then obtain rid where rid: "br_runtime (w_broker w) = Some rid" "br_initialized (w_broker w)"
      "llam_broker_validate_object_rights family rights = Inr ()" by blast
    define obj where "obj = \<lparr>co_runtime_id = rid, co_family = family, co_slot = slot, co_generation = g,
      co_revocation_epoch = br_revocation_epoch (w_broker w), co_subject_id = llam_broker_current_subject w\<rparr>"
    obtain os where iss: "llam_capability_issue (w_os w) (br_capability_key (w_broker w)) (Some obj) rights (Some zero_token) = (r, out, os)"
      using assms rid by (auto simp: llam_broker_issue_object_cap_unlocked_def Let_def obj_def split: prod.splits)
    from issue_cases [OF iss] show ?thesis
    proof (elim disjE exE conjE)
      fix tok assume tok: "r = Inr ()" "out = Some tok" "token_names obj tok" "tk_rights tok = rights"
        "token_fresh (br_capability_key (w_broker w)) tok" "llam_cap_key_valid (br_capability_key (w_broker w))"
        "object_ok obj" "rights \<noteq> 0"
      have "llam_capability_validate_subject (br_capability_key (w_broker w)) (Some tok) required
              (br_revocation_epoch (w_broker w)) (llam_broker_current_subject w) = Inr ()"
        if "required \<noteq> 0" "rights AND required = required" for required
        using fresh_token_validates [OF tok(5,3,7,6) that(1)] tok(4,8) that(2) by (simp add: obj_def)
      then show ?thesis using tok rid by (auto simp: token_names_def obj_def)
    qed auto
  qed
qed

lemma buffers_wf_clear: "buffers_wf b \<Longrightarrow> br_buffers c = (br_buffers b)[i := zero_buffer_slot] \<Longrightarrow>
    br_next_buffer_id b \<le> br_next_buffer_id c \<Longrightarrow> buffers_wf c"
proof -
  assume a: "buffers_wf b" "br_buffers c = (br_buffers b)[i := zero_buffer_slot]" "br_next_buffer_id b \<le> br_next_buffer_id c"
  have "buf.numbered (br_next_buffer_id c) ((br_buffers b)[i := zero_buffer_slot])"
  proof (cases "i < length (br_buffers b)")
    case True
    then show ?thesis using a by (intro buf.numbered_update [of "br_next_buffer_id b"]) (auto simp: buffers_wf_def buf.cleared_inactive)
  next
    case False
    then show ?thesis using a(1,3) by (auto simp: buffers_wf_def buf.numbered_def list_update_beyond dest: less_le_trans)
  qed
  then show ?thesis using a set_update_subset_insert [of "br_buffers b" i zero_buffer_slot]
    by (auto simp: buffers_wf_def buffer_slot_wf_def zero_buffer_slot_def)
qed

lemma live_buffer: "i < length (br_buffers b) \<Longrightarrow> bs_active (br_buffers b ! i) \<Longrightarrow>
    (LLAM_BROKER_CAP_FAMILY_BUFFER, bs_id (br_buffers b ! i), bs_generation (br_buffers b ! i), bs_rights (br_buffers b ! i)) \<in> live_objects b"
  by (auto simp: live_objects_iff)

lemma buffer_log [simp]:
  "w_broker (llam_broker_buffer_free_data x v) = w_broker v" "w_tls (llam_broker_buffer_free_data x v) = w_tls v"
  "w_self (llam_broker_buffer_free_data x v) = w_self v" "same_frame (llam_broker_buffer_free_data x v) u = same_frame v u"
  "llam_broker_current_subject (llam_broker_buffer_free_data x v) = llam_broker_current_subject v"
  by (auto simp: llam_broker_buffer_free_data_def log_event_def same_frame_def llam_broker_current_subject_def
      simp del: first_index_None split: option.split)

definition registered_buffer :: "world \<Rightarrow> u8 list \<Rightarrow> u64 \<Rightarrow> unit result \<Rightarrow> capability_token option \<Rightarrow> world \<Rightarrow> bool" where
  "registered_buffer u data rights r out u' \<longleftrightarrow> buffers_wf (w_broker u') \<and>
     (case r of Inl e \<Rightarrow> out = Some zero_token \<and> e \<noteq> UNDEFINED \<and> buf_view (w_broker u') = buf_view (w_broker u)
      | Inr _ \<Rightarrow> (\<exists>tok. out = Some tok \<and> tk_family tok = LLAM_BROKER_CAP_FAMILY_BUFFER \<and> tk_rights tok = rights \<and>
         authorises (w_broker u') (llam_broker_current_subject u) tok rights \<and>
         buf_view (w_broker u) (tk_slot tok, tk_generation tok) = None \<and>
         buf_view (w_broker u') = (buf_view (w_broker u))((tk_slot tok, tk_generation tok) \<mapsto> data)))"

lemma register_buffer_locked_result:
  assumes wf: "buffers_wf (w_broker u)" and data: "length data = len" "0 < len" "len \<le> LLAM_BROKER_BUFFER_MAX_BYTES"
    and rights: "llam_broker_validate_object_rights LLAM_BROKER_CAP_FAMILY_BUFFER rights = Inr ()"
    and res: "register_buffer_locked data len rights (Some zero_token) u = ((r, out), u')"
  shows "same_frame u' u \<and> registered_buffer u data rights r out u'"
proof (cases "br_initialized (w_broker u) \<and> br_runtime (w_broker u) \<noteq> None \<and> (\<exists>i. first_index (\<lambda>s. \<not> bs_active s) (br_buffers (w_broker u)) = Some i) \<and>
    llam_broker_validate_next_object_id (br_next_buffer_id (w_broker u)) = Inr ()")
  case False
  then have "\<exists>e. e \<noteq> UNDEFINED \<and> ((r, out), u') = ((Inl e, Some zero_token), llam_broker_buffer_free_data (Some data) u)"
    using res by (auto simp: register_buffer_locked_def Let_def llam_broker_validate_next_object_id_def
        simp del: first_index_None split: if_splits option.splits sum.splits)
  then show ?thesis using wf by (auto simp: registered_buffer_def)
next
  case True
  then obtain i where fi: "first_index (\<lambda>s. \<not> bs_active s) (br_buffers (w_broker u)) = Some i"
    and g: "br_initialized (w_broker u)" "br_runtime (w_broker u) \<noteq> None"
      "llam_broker_validate_next_object_id (br_next_buffer_id (w_broker u)) = Inr ()" by blast
  have i: "i < length (br_buffers (w_broker u))" "\<not> bs_active (br_buffers (w_broker u) ! i)" using first_index_SomeD [OF fi] by auto
  have nx: "br_next_buffer_id (w_broker u) \<noteq> 0" "br_next_buffer_id (w_broker u) \<noteq> UINT64_MAX"
    using g(3) by (auto simp: llam_broker_validate_next_object_id_def split: if_splits)
  define s where "s = zero_buffer_slot\<lparr>bs_data := Some data, bs_length := len, bs_id := br_next_buffer_id (w_broker u),
      bs_generation := 1, bs_rights := rights, bs_subject_id := llam_broker_current_subject u, bs_active := True\<rparr>"
  define v where "v = upd_broker (\<lambda>b. b\<lparr>br_next_buffer_id := br_next_buffer_id b + 1, br_buffers := (br_buffers b)[i := s]\<rparr>)
      (llam_broker_buffer_slot_reset i u)"
  have sub: "llam_broker_current_subject (llam_broker_buffer_slot_reset i u) = llam_broker_current_subject u"
    by (simp add: llam_broker_buffer_slot_reset_def Let_def subject_broker_irrelevant)
  have vb: "w_broker v = (w_broker u)\<lparr>br_next_buffer_id := br_next_buffer_id (w_broker u) + 1, br_buffers := (br_buffers (w_broker u))[i := s]\<rparr>"
    by (simp add: v_def llam_broker_buffer_slot_reset_def Let_def)
  have vf: "same_frame v u" "llam_broker_current_subject v = llam_broker_current_subject u"
    using sub by (simp_all add: v_def llam_broker_buffer_slot_reset_def Let_def same_frame_def subject_broker_irrelevant)
  obtain r1 out1 v1 where iss: "llam_broker_issue_object_cap_unlocked v LLAM_BROKER_CAP_FAMILY_BUFFER (bs_id s) (bs_generation s) rights (Some zero_token)
      = ((r1, out1), v1)" by (metis prod.exhaust)
  have ru: "((r, out), u') = (case r1 of Inl e \<Rightarrow> ((Inl e, out1), llam_broker_buffer_slot_reset i v1) | Inr _ \<Rightarrow> ((Inr (), out1), v1))"
    using res g fi iss sub unfolding register_buffer_locked_def Let_def v_def s_def by (auto split: sum.splits)
  obtain os where v1: "v1 = v\<lparr>w_os := os\<rparr>" using issue_unlocked_cases(1) [OF iss] by blast
  have sw: "buffer_slot_wf s" "bs_active s" "bs_id s = br_next_buffer_id (w_broker u)" "bs_generation s \<noteq> 0" "bs_data s = Some data"
    using data rights by (auto simp: buffer_slot_wf_def s_def)
  note ins = buf_view_insert [OF wf i sw(2-5,1) nx, where c = "w_broker v"]
  show ?thesis
  proof (cases r1)
    case (Inl e)
    have e: "out1 = Some zero_token" "e \<noteq> UNDEFINED" using issue_unlocked_cases(2) [OF iss] Inl by auto
    have u': "w_broker u' = (w_broker u)\<lparr>br_next_buffer_id := br_next_buffer_id (w_broker u) + 1, br_buffers := (br_buffers (w_broker u))[i := zero_buffer_slot]\<rparr>"
      using ru Inl by (simp add: v1 llam_broker_buffer_slot_reset_def Let_def vb)
    have "same_frame u' u" using ru Inl vf by (simp add: v1 llam_broker_buffer_slot_reset_def Let_def same_frame_def)
    moreover have "br_next_buffer_id (w_broker u) \<le> br_next_buffer_id (w_broker u) + 1"
      using unat_Suc_no_wrap [OF nx(2)] by (simp add: word_le_nat_alt)
    then have "buffers_wf (w_broker u')" using buffers_wf_clear [OF wf, of "w_broker u'" i] by (simp add: u')
    moreover have "buf_view (w_broker u') = buf_view (w_broker u)" using buf_view_reset [OF i, of "w_broker u'"] by (simp add: u')
    ultimately show ?thesis using ru Inl e by (simp add: registered_buffer_def)
  next
    case (Inr x)
    have u': "u' = v\<lparr>w_os := os\<rparr>" "r = Inr ()" "out = out1" using ru Inr by (simp_all add: v1)
    obtain tok rid where tok: "out1 = Some tok" "br_runtime (w_broker v) = Some rid" "br_initialized (w_broker v)"
        "tk_family tok = LLAM_BROKER_CAP_FAMILY_BUFFER" "tk_slot tok = bs_id s" "tk_generation tok = bs_generation s" "tk_rights tok = rights"
        "tk_runtime_id tok = rid" and val: "llam_capability_validate_subject (br_capability_key (w_broker v)) (Some tok) rights
              (br_revocation_epoch (w_broker v)) (llam_broker_current_subject v) = Inr ()"
      using issue_unlocked_cases(2) [OF iss] Inr rights by (auto simp: llam_broker_validate_object_rights_def split: if_splits)
    have "(LLAM_BROKER_CAP_FAMILY_BUFFER, bs_id s, bs_generation s, rights) \<in> live_objects (w_broker v)"
      using live_buffer [of i "w_broker v"] i(1) sw(2) by (simp add: vb s_def)
    then have "authorises (w_broker v) (llam_broker_current_subject u) tok rights"
      using val tok vf(2) by (auto simp: authorises_def validate_subject_ok_iff)
    then show ?thesis using ins tok(1,4-7) vf(1) u'
      by (auto simp: registered_buffer_def vb same_frame_def)
  qed
qed

lemma left_op_broker [simp]:
  "w_broker (left_op tls v) = (w_broker v)\<lparr>br_active_ops := br_active_ops (w_broker v) - 1\<rparr>"
  by (simp add: left_op_def Let_def log_event_def)

lemma register_buffer_run:
  assumes wf: "ops_wf w" and beg: "llam_broker_begin_op w = (Inr (), v)"
    and fr: "\<And>u. holding w u \<Longrightarrow> same_frame (snd (register_buffer_locked data len rights out u)) u"
  shows "\<exists>u r u'. holding w u \<and> register_buffer_locked data len rights out u = (r, u') \<and>
    (case llam_broker_lock v of (Inl e, w) \<Rightarrow> ((Inl e, out), llam_broker_buffer_free_data (Some data) (llam_broker_end_op w))
     | (Inr _, w) \<Rightarrow> (case register_buffer_locked data len rights out w of (r, w) \<Rightarrow> (r, llam_broker_end_op (llam_broker_unlock w))))
      = (r, released w u')"
proof -
  note B = begin_op_ok [OF wf beg [unfolded llam_broker_begin_op_def]]
  have v: "br_lock_initialized (w_broker v)" "br_lock (w_broker v) = Unlocked"
    using B(1) entered_fields(1) [OF B(1)] by (simp_all add: entered_def ops_wf_def)
  let ?u = "upd_broker (\<lambda>b. b\<lparr>br_lock := Locked\<rparr>) v"
  have h: "holding w ?u" using B(1) by (auto simp: holding_def)
  obtain r u' where ru: "register_buffer_locked data len rights out ?u = (r, u')" by fastforce
  have f: "same_frame u' ?u" using fr [OF h] ru by simp
  have "same_frame (upd_broker (\<lambda>b. b\<lparr>br_lock := Unlocked\<rparr>) u') v" using f v by (simp add: same_frame_def)
  then have "llam_broker_end_op (llam_broker_unlock u') = released w u'"
    using B(2) f v by (simp add: released_def unlock_held same_frame_def)
  then show ?thesis using h ru by (auto simp: lock_free [OF v])
qed

text \<open>C20. Registering a buffer adds one entry to the abstract map under a number never used before: on success the caller
  gets a token for exactly the requested rights that authorises them, and the buffer holds the given bytes; on every
  failure the output holds no token and no buffer changes; the table stays well-formed.\<close>

theorem register_buffer_correct:
  assumes wf: "ops_wf w" "buffers_wf (w_broker w)" and init: "length d = len"
    and res: "llam_broker_register_buffer w (Some d) len rights (Some old) = ((r, out), w')"
  shows "buffers_wf (w_broker w') \<and> (case r of
      Inl e \<Rightarrow> out = Some zero_token \<and> buf_view (w_broker w') = buf_view (w_broker w)
    | Inr _ \<Rightarrow> (\<exists>tok. out = Some tok \<and> tk_family tok = LLAM_BROKER_CAP_FAMILY_BUFFER \<and> tk_rights tok = rights \<and>
         authorises (w_broker w') (llam_broker_current_subject w) tok rights \<and>
         buf_view (w_broker w) (tk_slot tok, tk_generation tok) = None \<and>
         buf_view (w_broker w') = (buf_view (w_broker w))((tk_slot tok, tk_generation tok) \<mapsto> d)))"
proof -
  have data: "overlay (replicate len 0) 0 (take len d) = d" using init by (simp add: overlay_def)
  consider (early) e os where "((r, out), w') = ((Inl e, Some zero_token), w\<lparr>w_os := os\<rparr>)"
    | (go) os where "0 < len" "len \<le> LLAM_BROKER_BUFFER_MAX_BYTES"
        "llam_broker_validate_object_rights LLAM_BROKER_CAP_FAMILY_BUFFER rights = Inr ()" "os_take_calloc (w_os w) = (True, os)"
  proof (cases "len = 0 \<or> LLAM_BROKER_BUFFER_MAX_BYTES < len \<or> rights = 0")
    case True
    then have "((r, out), w') = ((Inl EINVAL, Some zero_token), w\<lparr>w_os := w_os w\<rparr>)"
      using res by (auto simp: llam_broker_register_buffer_def Let_def)
    then show ?thesis by (rule early)
  next
    case ok: False
    show ?thesis
    proof (cases "llam_broker_validate_object_rights LLAM_BROKER_CAP_FAMILY_BUFFER rights")
      case (Inl e)
      then have "((r, out), w') = ((Inl e, Some zero_token), w\<lparr>w_os := w_os w\<rparr>)"
        using res ok by (simp add: llam_broker_register_buffer_def Let_def)
      then show ?thesis by (rule early)
    next
      case (Inr x)
      obtain b os where o: "os_take_calloc (w_os w) = (b, os)" by fastforce
      show ?thesis
      proof (cases b)
        case True
        then show ?thesis using go [of os] ok Inr o by simp
      next
        case False
        then have "((r, out), w') = ((Inl ENOMEM, Some zero_token), w\<lparr>w_os := os\<rparr>)"
          using res ok Inr o by (simp add: llam_broker_register_buffer_def Let_def)
        then show ?thesis by (rule early)
      qed
    qed
  qed
  then show ?thesis
  proof cases
    case early
    then show ?thesis using wf by simp
  next
    case go
    define w0 where "w0 = w\<lparr>w_os := os\<rparr>"
    have wf0: "ops_wf w0" using wf(1) by (simp add: ops_wf_def w0_def tls_wf_def op_depth_def cong: option.case_cong)
    have w0: "w_broker w0 = w_broker w" "llam_broker_current_subject w0 = llam_broker_current_subject w"
      by (simp_all add: w0_def llam_broker_current_subject_def cong: option.case_cong)
    have nz: "rights \<noteq> 0" using go(3) by (auto simp: llam_broker_validate_object_rights_def)
    obtain q v where beg: "llam_broker_begin_op w0 = (q, v)" by fastforce
    show ?thesis
    proof (cases q)
      case (Inl e)
      have "v = w0" using begin_op_fail [of w0 0 e v] beg Inl wf0 by (simp add: llam_broker_begin_op_def ops_wf_def)
      then show ?thesis using res go nz Inl beg wf(2) w0
        by (auto simp: llam_broker_register_buffer_def Let_def w0_def [symmetric])
    next
      case (Inr x)
      note R = register_buffer_locked_result [OF _ init go(1,2,3)]
      have fr: "same_frame (snd (register_buffer_locked d len rights (Some zero_token) u)) u" if h: "holding w0 u" for u
        using R [of u] wf(2) by (cases "register_buffer_locked d len rights (Some zero_token) u") (auto simp: holding_fields [OF h] w0)
      from register_buffer_run [OF wf0 beg [unfolded Inr, simplified] fr]
      obtain u r' u' where h: "holding w0 u" and ru: "register_buffer_locked d len rights (Some zero_token) u = (r', u')"
        and eq: "((r, out), w') = (r', released w0 u')"
        using res go nz Inr beg by (auto simp: llam_broker_register_buffer_def Let_def w0_def [symmetric] data)
      have "registered_buffer u d rights r out u'" using R [of u r out u'] wf(2) ru eq by (auto simp: holding_fields [OF h] w0)
      then show ?thesis using eq
        by (auto simp: registered_buffer_def holding_fields [OF h] w0 split: sum.splits)
    qed
  qed
qed

theorem register_buffer_correct_witness:
  "buffers_wf (w_broker (snd (llam_broker_register_buffer example_world (Some [1, 2]) 2 LLAM_CAP_RIGHT_READ (Some zero_token))))"
proof -
  obtain r out w' where x: "llam_broker_register_buffer example_world (Some [1, 2]) 2 LLAM_CAP_RIGHT_READ (Some zero_token) = ((r, out), w')"
    by (metis prod.exhaust)
  have "length [1, 2 :: u8] = 2" by simp
  from register_buffer_correct [OF example_world_wf example_buffers_wf(1) this x] show ?thesis by (simp add: x)
qed

end
