(* ===== verification/Broker_Channel.thy ===== *)
theory Broker_Channel
  imports Broker_Buffer
begin

text \<open>
  Broker channels (\<^verbatim>\<open>core/broker/broker_channel.c\<close>): a fixed table of bounded message rings. The effect of
  a send and of a receive on one slot is a definition of its own, which implements the bounded FIFO
  interface; the operations wrap it in validation and the broker lock. The lemmas show that a channel is
  a FIFO of byte strings, that a closed channel drains before it reports the end, and that errors
  leave the channel alone and clear the output.
\<close>

definition llam_broker_clear_channels :: "world \<Rightarrow> world" where
  "llam_broker_clear_channels w =
     (case br_channels (w_broker w) of
        None \<Rightarrow> w
      | Some cs \<Rightarrow>
          upd_broker (\<lambda>b. b\<lparr>br_channels :=
            Some (fold (\<lambda>i cs. cs[i := zero_channel_slot]) [0..<LLAM_BROKER_CHANNEL_SLOTS] cs)\<rparr>) w)"

definition llam_broker_reclaim_subject_channels :: "u64 \<Rightarrow> world \<Rightarrow> world" where
  "llam_broker_reclaim_subject_channels subject_id w =
     (if br_channels (w_broker w) = None \<or> subject_id = 0 then w
      else (case llam_broker_lock w of
              (Inl _, w) \<Rightarrow> w
            | (Inr _, w) \<Rightarrow>
                llam_broker_unlock
                  (upd_broker (\<lambda>b. b\<lparr>br_channels := map_option
                     (fold (\<lambda>i cs. if cs_active (cs ! i) \<and> cs_subject_id (cs ! i) = subject_id
                                   then cs[i := zero_channel_slot] else cs) [0..<LLAM_BROKER_CHANNEL_SLOTS])
                     (br_channels b)\<rparr>) w)))"

definition llam_broker_find_channel_unlocked :: "world \<Rightarrow> capability_token option \<Rightarrow> u64 \<Rightarrow> nat result" where
  "llam_broker_find_channel_unlocked w token required_rights =
     (case br_channels (w_broker w) of
        None \<Rightarrow> Inl EINVAL
      | Some cs \<Rightarrow>
          (case llam_broker_validate_token_family_unlocked w token LLAM_BROKER_CAP_FAMILY_CHANNEL required_rights of
             Inl e \<Rightarrow> Inl e
           | Inr _ \<Rightarrow>
               (case first_index (\<lambda>s. cs_active s \<and> cs_id s = tk_slot (the token) \<and> cs_generation s = tk_generation (the token)) cs of
                  None \<Rightarrow> Inl EACCES
                | Some i \<Rightarrow>
                    if cs_rights (cs ! i) AND required_rights \<noteq> required_rights then Inl EACCES else Inr i)))"

abbreviation channel_at :: "world \<Rightarrow> nat \<Rightarrow> channel_slot" where
  "channel_at w i \<equiv> the (br_channels (w_broker w)) ! i"

definition set_channel :: "nat \<Rightarrow> channel_slot \<Rightarrow> world \<Rightarrow> world" where
  "set_channel i s w = upd_broker (\<lambda>b. b\<lparr>br_channels := map_option (\<lambda>cs. cs[i := s]) (br_channels b)\<rparr>) w"

definition create_channel_locked ::
    "nat \<Rightarrow> u64 \<Rightarrow> capability_token option \<Rightarrow> world \<Rightarrow> (unit result \<times> capability_token option) \<times> world" where
  "create_channel_locked cap rights out_token w =
     (let b = w_broker w in
      if \<not> br_initialized b \<or> br_runtime b = None then ((Inl EINVAL, out_token), w)
      else (case br_channels b of
              None \<Rightarrow> ((Inl UNDEFINED, out_token), w)
            | Some cs \<Rightarrow>
                (case first_index (\<lambda>s. \<not> cs_active s \<or> cs_closed s \<and> cs_count s = 0) cs of
                   None \<Rightarrow> ((Inl ENOSPC, out_token), w)
                 | Some i \<Rightarrow>
                     (case llam_broker_validate_next_object_id (br_next_channel_id b) of
                        Inl e \<Rightarrow> ((Inl e, out_token), w)
                      | Inr _ \<Rightarrow>
                          let s = zero_channel_slot\<lparr>cs_capacity := cap, cs_id := br_next_channel_id b, cs_generation := 1,
                                    cs_rights := rights, cs_subject_id := llam_broker_current_subject w, cs_active := True\<rparr>;
                              w = set_channel i s (upd_broker (\<lambda>b. b\<lparr>br_next_channel_id := br_next_channel_id b + 1\<rparr>) w)
                          in (case llam_broker_issue_object_cap_unlocked w LLAM_BROKER_CAP_FAMILY_CHANNEL (cs_id s)
                                     (cs_generation s) rights out_token of
                                ((Inl e, out), w) \<Rightarrow> ((Inl e, out), set_channel i zero_channel_slot w)
                              | ((Inr _, out), w) \<Rightarrow> ((Inr (), out), w))))))"

definition llam_broker_create_channel ::
    "world \<Rightarrow> nat \<Rightarrow> u64 \<Rightarrow> capability_token option \<Rightarrow> (unit result \<times> capability_token option) \<times> world" where
  "llam_broker_create_channel w cap rights out_token =
     (let out_token = map_option (\<lambda>_. zero_token) out_token in
      if br_channels (w_broker w) = None \<or> cap = 0 \<or> LLAM_BROKER_CHANNEL_CAPACITY < cap \<or> rights = 0 \<or> out_token = None
      then ((Inl EINVAL, out_token), w)
      else (case llam_broker_validate_object_rights LLAM_BROKER_CAP_FAMILY_CHANNEL rights of
              Inl e \<Rightarrow> ((Inl e, out_token), w)
            | Inr _ \<Rightarrow> locked_op (\<lambda>e. (Inl e, out_token)) (create_channel_locked cap rights out_token) w))"

text \<open>The effect of a send on the slot it found.\<close>

definition channel_slot_send :: "u8 list \<Rightarrow> nat \<Rightarrow> channel_slot \<Rightarrow> channel_slot result" where
  "channel_slot_send data len s =
     (if cs_closed s then Inl EPIPE
      else if cs_capacity s \<le> cs_count s then Inl EAGAIN
      else if length (cs_messages s) \<le> cs_tail s \<or> cs_capacity s = 0 then Inl UNDEFINED
      else let m = cs_messages s ! cs_tail s;
               m = m\<lparr>cm_data := overlay (cm_data m) 0 (take len data), cm_length := len\<rparr>
           in Inr (s\<lparr>cs_messages := (cs_messages s)[cs_tail s := m], cs_tail := (cs_tail s + 1) mod cs_capacity s,
                     cs_count := cs_count s + 1\<rparr>))"

definition channel_send_locked :: "capability_token option \<Rightarrow> u8 list \<Rightarrow> nat \<Rightarrow> world \<Rightarrow> unit result \<times> world" where
  "channel_send_locked token data len w =
     (case llam_broker_find_channel_unlocked w token LLAM_CAP_RIGHT_SEND of
        Inl e \<Rightarrow> (Inl e, w)
      | Inr i \<Rightarrow>
          (case channel_slot_send data len (channel_at w i) of
             Inl e \<Rightarrow> (Inl e, w)
           | Inr s \<Rightarrow> (Inr (), set_channel i s w)))"

definition llam_broker_channel_send :: "world \<Rightarrow> capability_token option \<Rightarrow> u8 list option \<Rightarrow> nat \<Rightarrow> unit result \<times> world" where
  "llam_broker_channel_send w token data len =
     (case data of
        None \<Rightarrow> (Inl EINVAL, w)
      | Some d \<Rightarrow>
          if len = 0 \<or> LLAM_BROKER_CHANNEL_MESSAGE_BYTES < len then (Inl EINVAL, w)
          else locked_op Inl (channel_send_locked token d len) w)"

text \<open>The effect of a receive on the slot it found: the message and the slot without it.\<close>

definition channel_slot_recv :: "nat \<Rightarrow> channel_slot \<Rightarrow> (u8 list \<times> channel_slot) result" where
  "channel_slot_recv cap s =
     (if cs_count s = 0 then Inl (if cs_closed s then EPIPE else EAGAIN)
      else if length (cs_messages s) \<le> cs_head s \<or> cs_capacity s = 0 then Inl UNDEFINED
      else let m = cs_messages s ! cs_head s in
        if cap < cm_length m then Inl EMSGSIZE
        else Inr (take (cm_length m) (cm_data m),
               s\<lparr>cs_messages := (cs_messages s)[cs_head s := zero_channel_message],
                 cs_head := (cs_head s + 1) mod cs_capacity s, cs_count := cs_count s - 1\<rparr>))"

definition channel_recv_locked ::
    "capability_token option \<Rightarrow> u8 list option \<Rightarrow> nat \<Rightarrow> world \<Rightarrow> (nat result \<times> u8 list option) \<times> world" where
  "channel_recv_locked token out_data cap w =
     (case llam_broker_find_channel_unlocked w token LLAM_CAP_RIGHT_RECV of
        Inl e \<Rightarrow> (llam_broker_fail_clear_output_ssize out_data cap e, w)
      | Inr i \<Rightarrow>
          (case channel_slot_recv cap (channel_at w i) of
             Inl e \<Rightarrow> (llam_broker_fail_clear_output_ssize out_data cap e, w)
           | Inr (msg, s) \<Rightarrow>
               let out_data = map_option (\<lambda>d. overlay d 0 msg) out_data;
                   (_, out_data) = llam_broker_finish_read_clear_tail out_data cap (Inr (length msg))
               in ((Inr (length msg), out_data), set_channel i s w)))"

definition llam_broker_channel_recv ::
    "world \<Rightarrow> capability_token option \<Rightarrow> u8 list option \<Rightarrow> nat \<Rightarrow> (nat result \<times> u8 list option) \<times> world" where
  "llam_broker_channel_recv w token out_data cap =
     (if out_data = None \<or> cap = 0 then ((Inl EINVAL, out_data), w)
      else locked_op (llam_broker_fail_clear_output_ssize out_data cap) (channel_recv_locked token out_data cap) w)"

definition llam_broker_channel_close :: "world \<Rightarrow> capability_token option \<Rightarrow> unit result \<times> world" where
  "llam_broker_channel_close w token =
     locked_op Inl
       (\<lambda>w. case llam_broker_find_channel_unlocked w token LLAM_CAP_RIGHT_CLOSE of
          Inl e \<Rightarrow> (Inl e, w)
        | Inr i \<Rightarrow> (Inr (), set_channel i ((channel_at w i)\<lparr>cs_closed := True\<rparr>) w)) w"

section \<open>A channel slot is a bounded FIFO\<close>

definition channel_ring_wf :: "channel_slot \<Rightarrow> bool" where
  "channel_ring_wf s \<longleftrightarrow> 0 < cs_capacity s \<and> cs_capacity s \<le> LLAM_BROKER_CHANNEL_CAPACITY \<and>
     length (cs_messages s) = LLAM_BROKER_CHANNEL_CAPACITY \<and> cs_count s \<le> cs_capacity s \<and>
     cs_head s < cs_capacity s \<and> cs_tail s = (cs_head s + cs_count s) mod cs_capacity s"

definition channel_window :: "channel_slot \<Rightarrow> channel_message list" where
  "channel_window s = window (take (cs_capacity s) (cs_messages s)) (cs_capacity s) (cs_head s) (cs_count s)"

definition channel_queue :: "channel_slot \<Rightarrow> u8 list list" where
  "channel_queue s = map (\<lambda>m. take (cm_length m) (cm_data m)) (channel_window s)"

definition messages_wf :: "channel_slot \<Rightarrow> bool" where
  "messages_wf s \<longleftrightarrow> (\<forall>m\<in>set (channel_window s). cm_length m \<le> length (cm_data m))"

lemma length_channel_queue [simp]: "length (channel_queue s) = cs_count s"
  by (simp add: channel_queue_def channel_window_def)

lemma channel_send_ok:
  assumes wf: "channel_ring_wf s" and op: "\<not> cs_closed s" and room: "cs_count s < cs_capacity s" and len: "length data = len"
  shows "\<exists>s'. channel_slot_send data len s = Inr s' \<and> channel_ring_wf s' \<and> channel_queue s' = channel_queue s @ [data] \<and>
    cs_capacity s' = cs_capacity s \<and> \<not> cs_closed s' \<and> cs_id s' = cs_id s \<and> cs_generation s' = cs_generation s \<and>
    cs_rights s' = cs_rights s \<and> cs_active s' = cs_active s \<and> (messages_wf s \<longrightarrow> messages_wf s')"
proof -
  let ?c = "cs_capacity s" and ?h = "cs_head s" and ?n = "cs_count s"
  define m where "m = (cs_messages s ! cs_tail s)\<lparr>cm_data := overlay (cm_data (cs_messages s ! cs_tail s)) 0 data, cm_length := len\<rparr>"
  define s' where "s' = s\<lparr>cs_messages := (cs_messages s)[cs_tail s := m], cs_tail := (cs_tail s + 1) mod ?c, cs_count := ?n + 1\<rparr>"
  have t: "cs_tail s = (?h + ?n) mod ?c" "cs_tail s < ?c" "?c \<le> length (cs_messages s)" "length (take ?c (cs_messages s)) = ?c"
    using wf by (simp_all add: channel_ring_wf_def)
  have "channel_slot_send data len s = Inr s'"
    using op room t(2,3) len by (simp add: channel_slot_send_def Let_def s'_def m_def)
  moreover have "channel_ring_wf s'"
    using wf room t(1) by (simp add: channel_ring_wf_def s'_def mod_Suc_eq)
  moreover have "take ?c ((cs_messages s)[cs_tail s := m]) = (take ?c (cs_messages s))[cs_tail s := m]"
    by (simp add: take_update_swap)
  then have win: "channel_window s' = channel_window s @ [m]"
    using window_push [OF room t(4), of ?h m] t(1) by (simp add: s'_def channel_window_def)
  then have "channel_queue s' = channel_queue s @ [data]"
    using len by (simp add: channel_queue_def m_def overlay_def)
  moreover have "messages_wf s \<longrightarrow> messages_wf s'" using win len by (simp add: messages_wf_def m_def overlay_def)
  ultimately show ?thesis using op by (auto simp: s'_def)
qed

lemma window_zap:
  assumes "0 < n" "n \<le> cap" "length buf = cap" "h < cap"
  shows "window (buf[h := x]) cap ((h + 1) mod cap) (n - 1) = window buf cap (h + 1) (n - 1)"
proof -
  have "buf[h := x] ! ((h + 1 + i) mod cap) = buf ! ((h + 1 + i) mod cap)" if "i < n - 1" for i
  proof -
    have "(h + (1 + i)) mod cap \<noteq> (h + 0) mod cap" using mod_window_inj [of h "1 + i" cap 0] that assms by force
    then show ?thesis using assms by (simp add: add.assoc)
  qed
  then show ?thesis unfolding window_mod by (simp add: window_def)
qed

lemma channel_recv_ok:
  assumes wf: "channel_ring_wf s" and q: "channel_queue s = msg # rest" and cap: "cm_length (cs_messages s ! cs_head s) \<le> cap"
  shows "\<exists>s'. channel_slot_recv cap s = Inr (msg, s') \<and> channel_ring_wf s' \<and> channel_queue s' = rest \<and>
    cs_capacity s' = cs_capacity s \<and> cs_closed s' = cs_closed s \<and> cs_id s' = cs_id s \<and> cs_generation s' = cs_generation s \<and>
    cs_rights s' = cs_rights s \<and> cs_active s' = cs_active s \<and> (messages_wf s \<longrightarrow> messages_wf s')"
proof -
  let ?c = "cs_capacity s" and ?h = "cs_head s" and ?n = "cs_count s"
  define s' where "s' = s\<lparr>cs_messages := (cs_messages s)[?h := zero_channel_message], cs_head := (?h + 1) mod ?c, cs_count := ?n - 1\<rparr>"
  have n: "0 < ?n" using q length_channel_queue [of s] by (cases ?n) auto
  have c: "?h < ?c" "?n \<le> ?c" "?c \<le> length (cs_messages s)" "length (take ?c (cs_messages s)) = ?c"
    using wf by (simp_all add: channel_ring_wf_def)
  have w: "window (take ?c (cs_messages s)) ?c ?h ?n = cs_messages s ! ?h # window (take ?c (cs_messages s)) ?c (?h + 1) (?n - 1)"
    using n c window_Suc [of "take ?c (cs_messages s)" ?c ?h "?n - 1"] by simp
  then have msg: "msg = take (cm_length (cs_messages s ! ?h)) (cm_data (cs_messages s ! ?h))"
      "rest = map (\<lambda>m. take (cm_length m) (cm_data m)) (window (take ?c (cs_messages s)) ?c (?h + 1) (?n - 1))"
    using q by (simp_all add: channel_queue_def channel_window_def)
  have "channel_slot_recv cap s = Inr (msg, s')"
    using n c cap msg(1) by (simp add: channel_slot_recv_def Let_def s'_def)
  moreover have "channel_ring_wf s'"
  proof -
    have "((?h + 1) mod ?c + (?n - 1)) mod ?c = (?h + ?n) mod ?c" using n by (subst mod_add_left_eq) simp
    moreover have "?n - 1 \<le> ?c" using c(2) by linarith
    ultimately show ?thesis using wf n by (simp add: channel_ring_wf_def s'_def)
  qed
  moreover have win: "channel_window s' = window (take ?c (cs_messages s)) ?c (?h + 1) (?n - 1)"
    unfolding channel_window_def s'_def
    using window_zap [OF n c(2,4,1), of zero_channel_message] by (simp add: take_update_swap)
  then have "channel_queue s' = rest" by (simp add: msg(2) channel_queue_def)
  moreover have "messages_wf s \<longrightarrow> messages_wf s'" using w win by (simp add: messages_wf_def channel_window_def)
  ultimately show ?thesis by (auto simp: s'_def)
qed

text \<open>A send of all the bytes given and a receive with a buffer that is large enough, on an open channel.\<close>

definition put_message :: "u8 list \<Rightarrow> channel_slot \<Rightarrow> channel_slot result" where
  "put_message msg s = channel_slot_send msg (length msg) s"

definition take_message :: "channel_slot \<Rightarrow> (u8 list \<times> channel_slot) result" where
  "take_message s = channel_slot_recv (cm_length (cs_messages s ! cs_head s)) s"

interpretation messages: bounded_fifo "\<lambda>s. channel_ring_wf s \<and> \<not> cs_closed s" channel_queue cs_capacity cs_capacity
  put_message take_message
proof
  fix s :: channel_slot and x
  assume "channel_ring_wf s \<and> \<not> cs_closed s" "length (channel_queue s) < cs_capacity s"
  then show "\<exists>s'. put_message x s = Inr s' \<and> (channel_ring_wf s' \<and> \<not> cs_closed s') \<and> channel_queue s' = channel_queue s @ [x] \<and>
      cs_capacity s' = cs_capacity s \<and> cs_capacity s \<le> Suc (cs_capacity s')"
    using channel_send_ok [of s x "length x"] by (auto simp: put_message_def)
next
  fix s :: channel_slot and x
  assume "channel_ring_wf s \<and> \<not> cs_closed s" "cs_capacity s \<le> length (channel_queue s)"
  then show "put_message x s = Inl EAGAIN" by (simp add: put_message_def channel_slot_send_def)
next
  fix s :: channel_slot and x xs
  assume "channel_ring_wf s \<and> \<not> cs_closed s" "channel_queue s = x # xs"
  then show "\<exists>s'. take_message s = Inr (x, s') \<and> (channel_ring_wf s' \<and> \<not> cs_closed s') \<and> channel_queue s' = xs \<and>
      cs_capacity s' = cs_capacity s"
    using channel_recv_ok [of s x xs "cm_length (cs_messages s ! cs_head s)"] by (auto simp: take_message_def)
next
  fix s :: channel_slot
  assume a: "channel_ring_wf s \<and> \<not> cs_closed s" "channel_queue s = []"
  then have "cs_count s = 0" using length_channel_queue [of s] by simp
  with a show "take_message s = Inl EAGAIN" by (simp add: take_message_def channel_slot_recv_def)
qed

text \<open>C23. A broker channel is a bounded FIFO: any messages that fit, sent one after another into an empty open channel,
  come out once each, byte for byte and in order, and leave the channel empty.\<close>

theorem channel_fifo:
  assumes "channel_ring_wf s" "\<not> cs_closed s" "channel_queue s = []" "length msgs \<le> cs_capacity s"
  shows "\<exists>s1 s2. messages.put_all msgs s = Inr s1 \<and> messages.take_n (length msgs) s1 = Inr (msgs, s2) \<and> channel_queue s2 = []"
  using messages.fifo_roundtrip [of s msgs] assms by simp

section \<open>The channel table\<close>

interpretation chan: object_table cs_active cs_id cs_generation cs_rights zero_channel_slot
  by unfold_locales (simp add: zero_channel_slot_def)

definition channel_slot_wf :: "channel_slot \<Rightarrow> bool" where
  "channel_slot_wf s \<longleftrightarrow> (cs_active s \<longrightarrow> channel_ring_wf s \<and>
     llam_broker_validate_object_rights LLAM_BROKER_CAP_FAMILY_CHANNEL (cs_rights s) = Inr () \<and>
     messages_wf s)"

definition channels_wf :: "broker \<Rightarrow> bool" where
  "channels_wf b \<longleftrightarrow> (\<exists>cs. br_channels b = Some cs \<and> length cs = LLAM_BROKER_CHANNEL_SLOTS \<and>
     (\<forall>s\<in>set cs. channel_slot_wf s) \<and> chan.numbered (br_next_channel_id b) cs)"

text \<open>What a channel shows: its queue and whether it is closed.\<close>

definition chan_view :: "broker \<Rightarrow> u64 \<times> u64 \<Rightarrow> (u8 list list \<times> bool) option" where
  "chan_view b = chan.view (\<lambda>s. (channel_queue s, cs_closed s)) (case br_channels b of Some cs \<Rightarrow> cs | None \<Rightarrow> [])"

lemma channels_frame [simp]:
  "channels_wf (b\<lparr>br_active_ops := n\<rparr>) = channels_wf b" "channels_wf (b\<lparr>br_lock := l\<rparr>) = channels_wf b"
  "chan_view (b\<lparr>br_active_ops := n\<rparr>) = chan_view b" "chan_view (b\<lparr>br_lock := l\<rparr>) = chan_view b"
  by (simp_all add: channels_wf_def chan_view_def)

lemma find_channel_slot:
  assumes wf: "channels_wf (w_broker w)" and res: "llam_broker_find_channel_unlocked w (Some tok) required = Inr i"
  shows "authorises (w_broker w) (llam_broker_current_subject w) tok required"
    "\<exists>cs. br_channels (w_broker w) = Some cs \<and> i < length cs \<and> cs_active (cs ! i) \<and> cs_id (cs ! i) = tk_slot tok \<and>
       cs_generation (cs ! i) = tk_generation tok \<and> channel_slot_wf (cs ! i) \<and> chan.numbered (br_next_channel_id (w_broker w)) cs"
proof -
  obtain cs where cs: "br_channels (w_broker w) = Some cs" "\<forall>s\<in>set cs. channel_slot_wf s" "chan.numbered (br_next_channel_id (w_broker w)) cs"
    using wf by (auto simp: channels_wf_def)
  have v: "llam_broker_validate_token_family_unlocked w (Some tok) LLAM_BROKER_CAP_FAMILY_CHANNEL required = Inr ()"
    using res cs(1) by (auto simp: llam_broker_find_channel_unlocked_def split: sum.splits)
  show "authorises (w_broker w) (llam_broker_current_subject w) tok required"
    using v validate_token_family_iff [of w "Some tok"] cs(1) by auto
  have "first_index (\<lambda>s. cs_active s \<and> cs_id s = tk_slot tok \<and> cs_generation s = tk_generation tok) cs = Some i"
    using res cs(1) v by (auto simp: llam_broker_find_channel_unlocked_def simp del: first_index_None split: option.splits if_splits)
  from first_index_SomeD [OF this] show "\<exists>cs. br_channels (w_broker w) = Some cs \<and> i < length cs \<and> cs_active (cs ! i) \<and> cs_id (cs ! i) = tk_slot tok \<and>
       cs_generation (cs ! i) = tk_generation tok \<and> channel_slot_wf (cs ! i) \<and> chan.numbered (br_next_channel_id (w_broker w)) cs"
    using cs by auto
qed

lemma find_channel_defined:
  "br_channels (w_broker w) \<noteq> None \<Longrightarrow> llam_broker_find_channel_unlocked w token required \<noteq> Inl UNDEFINED"
  using validate_token_family_defined by (auto simp: llam_broker_find_channel_unlocked_def simp del: first_index_None split: option.splits sum.splits)

lemma chan_store:
  assumes wf: "channels_wf b" and cs: "br_channels b = Some cs" and i: "i < length cs" "cs_active (cs ! i)"
    and s: "cs_active s" "cs_id s = cs_id (cs ! i)" "cs_generation s = cs_generation (cs ! i)" "channel_slot_wf s"
    and c: "br_channels c = Some (cs[i := s])" "br_next_channel_id c = br_next_channel_id b"
  shows "channels_wf c" "chan_view c = (chan_view b)((cs_id s, cs_generation s) \<mapsto> (channel_queue s, cs_closed s))"
proof -
  have n: "chan.numbered (br_next_channel_id b) cs" using wf cs by (auto simp: channels_wf_def)
  have "cs_generation s \<noteq> 0" using chan.numbered_nth [OF n i] s(3) by simp
  then have "chan.numbered (br_next_channel_id b) (cs[i := s])" using chan.numbered_modify [OF n i s(2)] by blast
  then show "channels_wf c" using wf cs s(4) c set_update_subset_insert [of cs i s] by (auto simp: channels_wf_def)
  show "chan_view c = (chan_view b)((cs_id s, cs_generation s) \<mapsto> (channel_queue s, cs_closed s))"
    unfolding chan_view_def c cs using chan.view_modify [OF n i s(1-3), where f = "\<lambda>s. (channel_queue s, cs_closed s)"] by simp
qed

lemma chan_view_at:
  assumes "channels_wf b" "br_channels b = Some cs" "i < length cs" "cs_active (cs ! i)"
  shows "chan_view b (cs_id (cs ! i), cs_generation (cs ! i)) = Some (channel_queue (cs ! i), cs_closed (cs ! i))"
proof -
  have "chan.numbered (br_next_channel_id b) cs" using assms by (auto simp: channels_wf_def)
  from chan.view_at [OF this assms(3,4)] show ?thesis using assms(2) by (simp add: chan_view_def)
qed

lemma set_channel_frame [simp]: "same_frame (set_channel i s w) v = same_frame w v"
  by (simp add: set_channel_def same_frame_def)

lemma channel_send_frame: "frame_body (channel_send_locked token data len)"
  by (auto simp: frame_body_def channel_send_locked_def split: sum.splits)

lemma channel_recv_frame: "frame_body (channel_recv_locked token out cap)"
  by (auto simp: frame_body_def channel_recv_locked_def Let_def split: sum.splits prod.splits)

text \<open>C24. A send appends the caller's bytes to the queue of the one channel its token names, and only when the token
  authorises sending, the channel is open and not full; otherwise nothing changes, and a closed channel reports a broken
  pipe, a full one that it would block.\<close>

theorem channel_send_refines:
  assumes wf: "ops_wf w" "channels_wf (w_broker w)" and nd: "\<not> br_destroying (w_broker w)" and len: "length data = len"
    and res: "llam_broker_channel_send w (Some tok) (Some data) len = (r, w')"
  shows "channels_wf (w_broker w') \<and> (case r of Inl e \<Rightarrow> w' = w \<and> e \<noteq> UNDEFINED
    | Inr _ \<Rightarrow> 0 < len \<and> len \<le> LLAM_BROKER_CHANNEL_MESSAGE_BYTES \<and>
        authorises (w_broker w) (llam_broker_current_subject w) tok LLAM_CAP_RIGHT_SEND \<and>
        (\<exists>q. chan_view (w_broker w) (tk_slot tok, tk_generation tok) = Some (q, False) \<and>
           chan_view (w_broker w') = (chan_view (w_broker w))((tk_slot tok, tk_generation tok) \<mapsto> (q @ [data], False))))"
proof (cases "len = 0 \<or> LLAM_BROKER_CHANNEL_MESSAGE_BYTES < len")
  case True
  then show ?thesis using res wf by (auto simp: llam_broker_channel_send_def)
next
  case False
  have res': "locked_op Inl (channel_send_locked (Some tok) data len) w = (r, w')"
    using res False by (simp add: llam_broker_channel_send_def)
  from locked_op_run [OF channel_send_frame wf(1) res'] show ?thesis
  proof (elim disjE exE conjE bexE)
    fix u u' assume u: "holding w u" "channel_send_locked (Some tok) data len u = (r, u')" "w' = released w u'"
    note F = holding_fields [OF u(1)]
    have wfu: "channels_wf (w_broker u)" using wf(2) by (simp add: F)
    have same: ?thesis if "u' = u" "r = Inl e" "e \<noteq> UNDEFINED" for e
      using that released_unchanged [OF wf(1) u(1) nd] u(3) wf(2) by simp
    show ?thesis
    proof (cases "llam_broker_find_channel_unlocked u (Some tok) LLAM_CAP_RIGHT_SEND")
      case (Inl e)
      have "br_channels (w_broker u) \<noteq> None" using wfu by (auto simp: channels_wf_def)
      then show ?thesis using Inl same u(2) find_channel_defined [of u "Some tok" LLAM_CAP_RIGHT_SEND] by (auto simp: channel_send_locked_def)
    next
      case (Inr i)
      obtain cs where cs: "br_channels (w_broker w) = Some cs" "i < length cs" "cs_active (cs ! i)" "cs_id (cs ! i) = tk_slot tok"
          "cs_generation (cs ! i) = tk_generation tok" "channel_slot_wf (cs ! i)"
        using find_channel_slot(2) [OF wfu Inr] by (auto simp: F)
      have au: "authorises (w_broker w) (llam_broker_current_subject w) tok LLAM_CAP_RIGHT_SEND"
        using find_channel_slot(1) [OF wfu Inr] by (simp add: F)
      have rw: "channel_ring_wf (cs ! i)" "messages_wf (cs ! i)" using cs(3,6) by (auto simp: channel_slot_wf_def)
      have at: "channel_at u i = cs ! i" using cs(1) by (simp add: F)
      show ?thesis
      proof (cases "cs_closed (cs ! i) \<or> cs_capacity (cs ! i) \<le> cs_count (cs ! i)")
        case True
        then have "channel_slot_send data len (cs ! i) = Inl (if cs_closed (cs ! i) then EPIPE else EAGAIN)"
          by (auto simp: channel_slot_send_def)
        then have "u' = u" "r = Inl (if cs_closed (cs ! i) then EPIPE else EAGAIN)"
          using u(2) Inr at by (simp_all add: channel_send_locked_def)
        from same [OF this] show ?thesis by simp
      next
        case open_room: False
        then obtain s' where s': "channel_slot_send data len (cs ! i) = Inr s'" "channel_ring_wf s'" "channel_queue s' = channel_queue (cs ! i) @ [data]"
            "\<not> cs_closed s'" "cs_id s' = cs_id (cs ! i)" "cs_generation s' = cs_generation (cs ! i)" "cs_rights s' = cs_rights (cs ! i)"
            "cs_active s'" "messages_wf s'"
          using channel_send_ok [OF rw(1), of data len] len rw(2) cs(3) by auto
        have u': "u' = set_channel i s' u" "r = Inr ()" using u(2) Inr at s'(1) by (simp_all add: channel_send_locked_def)
        have "channel_slot_wf s'" using s' cs(3,6) by (simp add: channel_slot_wf_def)
        note S = chan_store [OF wf(2) cs(1-3) s'(8,5,6) this, where c = "w_broker w'"]
        have b: "br_channels (w_broker w') = Some (cs[i := s'])" "br_next_channel_id (w_broker w') = br_next_channel_id (w_broker w)"
          using cs(1) by (simp_all add: u(3) u'(1) set_channel_def F)
        show ?thesis using S [OF b] chan_view_at [OF wf(2) cs(1-3)] u'(2) au s'(3-6) cs(4,5) open_room False by auto
      qed
    qed
  qed (use wf in auto)
qed

lemma finish_read_tail:
  assumes "length msg \<le> cap" "length out = cap" "0 < cap"
  shows "llam_broker_finish_read_clear_tail (Some (overlay out 0 msg)) cap (Inr (length msg))
    = (Inr (length msg), Some (msg @ replicate (cap - length msg) 0))"
  using assms by (auto simp: llam_broker_finish_read_clear_tail_def overlay_def)

text \<open>C25. A receive takes the oldest message of the one channel its token names, when the token authorises receiving and
  the message fits: the caller gets exactly those bytes followed by zeros, also from a closed channel that still holds
  messages. On every error the caller's buffer is all zeros and the channel keeps its messages.\<close>

theorem channel_recv_refines:
  assumes wf: "ops_wf w" "channels_wf (w_broker w)" and nd: "\<not> br_destroying (w_broker w)"
    and cap: "length out = cap" "0 < cap"
    and res: "llam_broker_channel_recv w (Some tok) (Some out) cap = ((r, out'), w')"
  shows "channels_wf (w_broker w') \<and> (case r of Inl e \<Rightarrow> w' = w \<and> e \<noteq> UNDEFINED \<and> out' = Some (replicate cap 0)
    | Inr n \<Rightarrow> authorises (w_broker w) (llam_broker_current_subject w) tok LLAM_CAP_RIGHT_RECV \<and>
        (\<exists>msg q closed. chan_view (w_broker w) (tk_slot tok, tk_generation tok) = Some (msg # q, closed) \<and> n = length msg \<and> n \<le> cap \<and>
           out' = Some (msg @ replicate (cap - n) 0) \<and>
           chan_view (w_broker w') = (chan_view (w_broker w))((tk_slot tok, tk_generation tok) \<mapsto> (q, closed))))"
proof -
  have clr: "llam_broker_fail_clear_output_ssize (Some out) cap e = (Inl (if e \<noteq> E_OK then e else EINVAL), Some (replicate cap 0))" for e
    using cap by (simp add: llam_broker_fail_clear_output_ssize_def llam_broker_fail_clear_output_def overlay_def)
  have res': "locked_op (llam_broker_fail_clear_output_ssize (Some out) cap) (channel_recv_locked (Some tok) (Some out) cap) w = ((r, out'), w')"
    using res cap by (simp add: llam_broker_channel_recv_def)
  from locked_op_run [OF channel_recv_frame wf(1) res'] show ?thesis
  proof (elim disjE exE conjE bexE)
    fix u u' assume u: "holding w u" "channel_recv_locked (Some tok) (Some out) cap u = ((r, out'), u')" "w' = released w u'"
    note F = holding_fields [OF u(1)]
    have wfu: "channels_wf (w_broker u)" using wf(2) by (simp add: F)
    have same: ?thesis if "(llam_broker_fail_clear_output_ssize (Some out) cap e, u) = ((r, out'), u')" "e \<noteq> UNDEFINED" for e
      using that released_unchanged [OF wf(1) u(1) nd] u(3) wf(2) by (auto simp: clr)
    show ?thesis
    proof (cases "llam_broker_find_channel_unlocked u (Some tok) LLAM_CAP_RIGHT_RECV")
      case (Inl e)
      have "br_channels (w_broker u) \<noteq> None" using wfu by (auto simp: channels_wf_def)
      then show ?thesis using Inl same [of e] u(2) find_channel_defined [of u "Some tok" LLAM_CAP_RIGHT_RECV] by (simp add: channel_recv_locked_def)
    next
      case (Inr i)
      obtain cs where cs: "br_channels (w_broker w) = Some cs" "i < length cs" "cs_active (cs ! i)" "cs_id (cs ! i) = tk_slot tok"
          "cs_generation (cs ! i) = tk_generation tok" "channel_slot_wf (cs ! i)"
        using find_channel_slot(2) [OF wfu Inr] by (auto simp: F)
      have au: "authorises (w_broker w) (llam_broker_current_subject w) tok LLAM_CAP_RIGHT_RECV"
        using find_channel_slot(1) [OF wfu Inr] by (simp add: F)
      have rw: "channel_ring_wf (cs ! i)" "messages_wf (cs ! i)" using cs(3,6) by (auto simp: channel_slot_wf_def)
      have at: "channel_at u i = cs ! i" using cs(1) by (simp add: F)
      show ?thesis
      proof (cases "channel_slot_recv cap (cs ! i)")
        case err: (Inl e)
        have "e \<noteq> UNDEFINED" using err rw(1) by (auto simp: channel_slot_recv_def channel_ring_wf_def Let_def split: if_splits)
        then show ?thesis using same [of e] u(2) Inr at err by (simp add: channel_recv_locked_def)
      next
        case ok: (Inr p)
        then have cnt: "cs_count (cs ! i) \<noteq> 0" and fit: "cm_length (cs_messages (cs ! i) ! cs_head (cs ! i)) \<le> cap"
          by (auto simp: channel_slot_recv_def Let_def split: if_splits)
        obtain msg q where q: "channel_queue (cs ! i) = msg # q"
          using cnt length_channel_queue [of "cs ! i"] by (cases "channel_queue (cs ! i)") auto
        obtain s' where s': "channel_slot_recv cap (cs ! i) = Inr (msg, s')" "channel_ring_wf s'" "channel_queue s' = q"
            "cs_closed s' = cs_closed (cs ! i)" "cs_id s' = cs_id (cs ! i)" "cs_generation s' = cs_generation (cs ! i)"
            "cs_rights s' = cs_rights (cs ! i)" "cs_active s'" "messages_wf s'"
          using channel_recv_ok [OF rw(1) q fit] rw(2) cs(3) by auto
        have "length msg \<le> cm_length (cs_messages (cs ! i) ! cs_head (cs ! i))"
          using s'(1) cnt by (auto simp: channel_slot_recv_def Let_def split: if_splits)
        then have le: "length msg \<le> cap" using fit by simp
        have u': "u' = set_channel i s' u" "r = Inr (length msg)" "out' = Some (msg @ replicate (cap - length msg) 0)"
          using u(2) Inr at s'(1) finish_read_tail [OF le cap] by (simp_all add: channel_recv_locked_def)
        have "channel_slot_wf s'" using s' cs(3,6) by (simp add: channel_slot_wf_def)
        note S = chan_store [OF wf(2) cs(1-3) s'(8,5,6) this, where c = "w_broker w'"]
        have b: "br_channels (w_broker w') = Some (cs[i := s'])" "br_next_channel_id (w_broker w') = br_next_channel_id (w_broker w)"
          using cs(1) by (simp_all add: u(3) u'(1) set_channel_def F)
        show ?thesis using S [OF b] chan_view_at [OF wf(2) cs(1-3)] u'(2,3) au s'(3-6) cs(4,5) le q by auto
      qed
    qed
  qed (use wf clr in auto)
qed

section \<open>Witnesses\<close>

lemma example_channels_wf: "channels_wf (w_broker example_world)"
  using chan.numbered_all_cleared [of 1 LLAM_BROKER_CHANNEL_SLOTS]
  by (auto simp: channels_wf_def example_tls example_broker_def zero_broker_def channel_slot_wf_def zero_channel_slot_def)

definition example_channel :: channel_slot where
  "example_channel = zero_channel_slot\<lparr>cs_capacity := 2, cs_id := 1, cs_generation := 1, cs_active := True\<rparr>"

theorem channel_fifo_witness:
  "\<exists>s1 s2. messages.put_all [[1, 2], [3]] example_channel = Inr s1 \<and> messages.take_n 2 s1 = Inr ([[1, 2], [3]], s2) \<and> channel_queue s2 = []"
proof -
  have "channel_ring_wf example_channel" "\<not> cs_closed example_channel" "channel_queue example_channel = []"
    by (simp_all add: channel_ring_wf_def example_channel_def zero_channel_slot_def LLAM_BROKER_CHANNEL_CAPACITY_def
        channel_queue_def channel_window_def)
  from channel_fifo [OF this, of "[[1, 2], [3]]"] show ?thesis by (simp add: example_channel_def zero_channel_slot_def numeral_2_eq_2)
qed

theorem channel_send_refines_witness:
  "snd (llam_broker_channel_send example_world (Some zero_token) (Some [1]) 1) = example_world"
proof -
  obtain r w' where x: "llam_broker_channel_send example_world (Some zero_token) (Some [1]) 1 = (r, w')" by fastforce
  from channel_send_refines [OF example_world_wf example_channels_wf example_buffers_wf(3) _ x] show ?thesis
    unfolding x by (simp add: zero_token_powerless split: sum.splits)
qed

theorem channel_recv_refines_witness:
  "snd (fst (llam_broker_channel_recv example_world (Some zero_token) (Some [1, 2]) 2)) = Some [0, 0]"
proof -
  obtain r out w' where x: "llam_broker_channel_recv example_world (Some zero_token) (Some [1, 2]) 2 = ((r, out), w')"
    by (metis prod.exhaust)
  from channel_recv_refines [OF example_world_wf example_channels_wf example_buffers_wf(3) _ _ x] show ?thesis
    unfolding x by (simp add: zero_token_powerless numeral_2_eq_2 split: sum.splits)
qed

end
