(* ===== verification/Broker_Descriptor.thy ===== *)
theory Broker_Descriptor
  imports Broker_Channel
begin

text \<open>
  Descriptor capabilities (\<^verbatim>\<open>core/broker/broker_descriptor.c\<close>, the POSIX branch, with
  \<^verbatim>\<open>llam_broker_dup_cloexec_fd\<close> and \<^verbatim>\<open>llam_broker_set_cloexec_fd\<close> of
  \<^verbatim>\<open>transport/broker_transport_posix_socket.c\<close>). Every system call consumes the next answer of the world and
  every \<^verbatim>\<open>close\<close> is logged. Input and output run on a duplicate, outside the lock and the operation pin. The
  lemmas show that the wait loop ends and asks for a bounded timeout, that every duplicate is closed
  exactly once on every path, and that a failing read leaves only zeros.
\<close>

definition LLAM_BROKER_DESCRIPTOR_IO_TIMEOUT_MS :: nat where "LLAM_BROKER_DESCRIPTOR_IO_TIMEOUT_MS = 250"

text \<open>Error numbers of the platform that the code compares with.\<close>

abbreviation EINTR :: errno where "EINTR \<equiv> EOTHER 4"
abbreviation ENOTSOCK :: errno where "ENOTSOCK \<equiv> EOTHER 88"

section \<open>Close-on-exec and duplication\<close>

definition fcntl_call :: "world \<Rightarrow> int result \<times> world" where
  "fcntl_call w = (case sys_call w of (a, w) \<Rightarrow> (if sa_value a < 0 then Inl (sa_errno a) else Inr (sa_value a), w))"

definition llam_broker_descriptor_set_cloexec :: "int \<Rightarrow> world \<Rightarrow> unit result \<times> world" where
  "llam_broker_descriptor_set_cloexec fd w =
     (if fd < 0 then (Inl EINVAL, w)
      else (case fcntl_call w of
              (Inl e, w) \<Rightarrow> (Inl e, w)
            | (Inr flags, w) \<Rightarrow>
                if flags mod 2 = 1 then (Inr (), w)
                else (case fcntl_call w of (Inl e, w) \<Rightarrow> (Inl e, w) | (Inr _, w) \<Rightarrow> (Inr (), w))))"

definition llam_broker_set_cloexec_fd :: "int \<Rightarrow> world \<Rightarrow> unit result \<times> world" where
  "llam_broker_set_cloexec_fd fd w =
     (if fd < 0 then (Inl EINVAL, w)
      else (case fcntl_call w of
              (Inl e, w) \<Rightarrow> (Inl e, w)
            | (Inr flags, w) \<Rightarrow>
                if flags mod 2 = 1 then (Inr (), w)
                else (case fcntl_call w of (Inl e, w) \<Rightarrow> (Inl e, w) | (Inr _, w) \<Rightarrow> (Inr (), w))))"

definition llam_broker_descriptor_handle_invalid :: "int \<Rightarrow> bool" where
  "llam_broker_descriptor_handle_invalid handle \<longleftrightarrow> handle < 0"

definition llam_broker_dup_cloexec_fd :: "int \<Rightarrow> world \<Rightarrow> int result \<times> world" where
  "llam_broker_dup_cloexec_fd fd w =
     (if fd < 0 then (Inl EINVAL, w)
      else (case fcntl_call w of
              (Inr duplicate, w) \<Rightarrow> (Inr duplicate, w)
            | (Inl e, w) \<Rightarrow>
                if e \<noteq> EINVAL then (Inl e, w)
                else (case fcntl_call w of
                        (Inl e, w) \<Rightarrow> (Inl e, w)
                      | (Inr duplicate, w) \<Rightarrow>
                          (case llam_broker_set_cloexec_fd duplicate w of
                             (Inl e, w) \<Rightarrow> (Inl e, log_event (EvClose duplicate) w)
                           | (Inr _, w) \<Rightarrow> (Inr duplicate, w)))))"

section \<open>Socket input and output\<close>

definition llam_broker_descriptor_require_socket :: "int \<Rightarrow> world \<Rightarrow> unit result \<times> world" where
  "llam_broker_descriptor_require_socket fd w =
     (if fd < 0 then (Inl EINVAL, w)
      else (case sys_call w of
              (a, w) \<Rightarrow>
                if sa_value a \<noteq> 0
                then (Inl (if sa_errno a = ENOTSOCK \<or> sa_errno a = EINVAL then ENOTSUP else sa_errno a), w)
                else (Inr (), w)))"

definition llam_broker_descriptor_recv_nonblocking :: "int \<Rightarrow> u8 list \<Rightarrow> nat \<Rightarrow> world \<Rightarrow> (nat result \<times> u8 list) \<times> world" where
  "llam_broker_descriptor_recv_nonblocking fd data len w =
     (case sys_call w of
        (a, w) \<Rightarrow>
          if sa_value a < 0 then ((Inl (sa_errno a), data), w)
          else ((Inr (nat (sa_value a)), overlay data 0 (take (nat (sa_value a)) (sa_data a))), w))"

definition llam_broker_descriptor_send_nonblocking :: "int \<Rightarrow> u8 list \<Rightarrow> nat \<Rightarrow> world \<Rightarrow> nat result \<times> world" where
  "llam_broker_descriptor_send_nonblocking fd data len w =
     (case sys_call w of
        (a, w) \<Rightarrow>
          if sa_value a < 0 then (Inl (sa_errno a), w)
          else (Inr (nat (sa_value a)), log_event (EvSend fd (take (nat (sa_value a)) (take len data))) w))"

definition wait_deadline :: "u64 \<Rightarrow> u64" where
  "wait_deadline start_ns =
     (let deadline_ns = start_ns + of_nat LLAM_BROKER_DESCRIPTOR_IO_TIMEOUT_MS * 1000000
      in if deadline_ns < start_ns then UINT64_MAX else deadline_ns)"

text \<open>The poll timeout of one iteration, \<open>None\<close> once the deadline has passed.\<close>

definition wait_timeout_ms :: "u64 \<Rightarrow> u64 \<Rightarrow> u64 \<Rightarrow> nat option" where
  "wait_timeout_ms start_ns deadline_ns now_ns =
     (if start_ns \<noteq> 0 \<and> now_ns \<noteq> 0 then
        if deadline_ns \<le> now_ns then None
        else let remaining_ns = deadline_ns - now_ns;
                 remaining_ms = remaining_ns div 1000000;
                 remaining_ms = (if remaining_ns mod 1000000 \<noteq> 0 then remaining_ms + 1 else remaining_ms);
                 timeout_ms = (if 2147483647 < remaining_ms then 2147483647 else unat remaining_ms)
             in Some (if timeout_ms < 1 then 1 else timeout_ms)
      else Some LLAM_BROKER_DESCRIPTOR_IO_TIMEOUT_MS)"

text \<open>The event bits of \<^verbatim>\<open>poll\<close>; the answer's first byte holds \<^verbatim>\<open>revents\<close>.\<close>

abbreviation POLLIN :: u8 where "POLLIN \<equiv> 1"
abbreviation POLLOUT :: u8 where "POLLOUT \<equiv> 4"
abbreviation POLLERR :: u8 where "POLLERR \<equiv> 8"
abbreviation POLLHUP :: u8 where "POLLHUP \<equiv> 16"
abbreviation POLLNVAL :: u8 where "POLLNVAL \<equiv> 32"

definition poll_verdict :: "u8 \<Rightarrow> u8 \<Rightarrow> unit result" where
  "poll_verdict events revents =
     (if revents AND POLLNVAL \<noteq> 0 then Inl EBADF
      else if revents AND events \<noteq> 0 \<or> revents AND POLLERR \<noteq> 0 \<or> events AND POLLIN \<noteq> 0 \<and> revents AND POLLHUP \<noteq> 0
      then Inr () else Inl EAGAIN)"

lemma now_answers: "llam_now_ns w = (t, w') \<Longrightarrow> w_answers w' = w_answers w"
  by (auto simp: llam_now_ns_def split: list.splits)

lemma sys_call_shrinks:
  "sys_call w = (a, w') \<Longrightarrow> sa_errno a = EINTR \<Longrightarrow> length (w_answers w') < length (w_answers w)"
  by (auto simp: sys_call_def split: list.splits)

lemma retry_shrinks:
  "(t, v) = llam_now_ns w \<Longrightarrow> (a, w') = sys_call v \<Longrightarrow> sa_errno a = EINTR \<Longrightarrow>
   length (w_answers w') < length (w_answers w)"
  using now_answers [of w t v] sys_call_shrinks [of v a w'] by simp

function wait_loop :: "u8 \<Rightarrow> u64 \<Rightarrow> u64 \<Rightarrow> world \<Rightarrow> unit result \<times> world" where
  "wait_loop events start_ns deadline_ns w =
     (let (now_ns, w) = llam_now_ns w in
      case wait_timeout_ms start_ns deadline_ns now_ns of
        None \<Rightarrow> (Inl EAGAIN, w)
      | Some timeout_ms \<Rightarrow>
          let (a, w') = sys_call w in
          if 0 < sa_value a then (poll_verdict events (if sa_data a = [] then 0 else hd (sa_data a)), w')
          else if sa_value a = 0 then (Inl EAGAIN, w')
          else if sa_errno a = EINTR then wait_loop events start_ns deadline_ns w'
          else (Inl (sa_errno a), w'))"
  by auto

termination wait_loop
  by (relation "measure (\<lambda>(_, _, _, w). length (w_answers w))") (simp, simp, metis retry_shrinks)

declare wait_loop.simps [simp del]

definition llam_broker_descriptor_wait_fd_ready :: "int \<Rightarrow> u8 \<Rightarrow> world \<Rightarrow> unit result \<times> world" where
  "llam_broker_descriptor_wait_fd_ready fd events w =
     (if fd < 0 then (Inl EINVAL, w)
      else case llam_now_ns w of (start_ns, w) \<Rightarrow> wait_loop events start_ns (wait_deadline start_ns) w)"

section \<open>The descriptor table\<close>

definition llam_broker_descriptor_close_owned_slot :: "nat \<Rightarrow> world \<Rightarrow> world" where
  "llam_broker_descriptor_close_owned_slot i w =
     (let s = br_descriptors (w_broker w) ! i in
      if \<not> ds_close_on_destroy s then w
      else if 0 \<le> ds_fd s then log_event (EvClose (ds_fd s)) w else w)"

definition llam_broker_descriptor_reset_slot :: "nat \<Rightarrow> world \<Rightarrow> world" where
  "llam_broker_descriptor_reset_slot i w =
     upd_broker (\<lambda>b. b\<lparr>br_descriptors := (br_descriptors b)[i := zero_descriptor_slot\<lparr>ds_fd := -1\<rparr>]\<rparr>) w"

definition llam_broker_clear_descriptors :: "world \<Rightarrow> world" where
  "llam_broker_clear_descriptors w =
     fold (\<lambda>i w. llam_broker_descriptor_reset_slot i (llam_broker_descriptor_close_owned_slot i w))
       [0..<LLAM_BROKER_DESCRIPTOR_SLOTS] w"

definition llam_broker_reclaim_subject_descriptors :: "u64 \<Rightarrow> world \<Rightarrow> world" where
  "llam_broker_reclaim_subject_descriptors subject_id w =
     (if subject_id = 0 then w
      else (case llam_broker_lock w of
              (Inl _, w) \<Rightarrow> w
            | (Inr _, w) \<Rightarrow>
                llam_broker_unlock
                  (fold (\<lambda>i w. let s = br_descriptors (w_broker w) ! i in
                           if ds_subject_id s = subject_id \<and>
                              (ds_active s \<or> ds_close_on_destroy s \<or> \<not> llam_broker_descriptor_handle_invalid (ds_fd s))
                           then llam_broker_descriptor_reset_slot i (llam_broker_descriptor_close_owned_slot i w) else w)
                     [0..<LLAM_BROKER_DESCRIPTOR_SLOTS] w)))"

definition llam_broker_find_descriptor_unlocked :: "world \<Rightarrow> capability_token option \<Rightarrow> u64 \<Rightarrow> nat result" where
  "llam_broker_find_descriptor_unlocked w token required_rights =
     (case llam_broker_validate_token_family_unlocked w token LLAM_BROKER_CAP_FAMILY_DESCRIPTOR required_rights of
        Inl e \<Rightarrow> Inl e
      | Inr _ \<Rightarrow>
          (case first_index (\<lambda>s. ds_active s \<and> ds_id s = tk_slot (the token) \<and> ds_generation s = tk_generation (the token))
                  (br_descriptors (w_broker w)) of
             None \<Rightarrow> Inl EACCES
           | Some i \<Rightarrow>
               if ds_rights (br_descriptors (w_broker w) ! i) AND required_rights \<noteq> required_rights then Inl EACCES
               else Inr i))"

definition register_handle_locked ::
    "int \<Rightarrow> u64 \<Rightarrow> bool \<Rightarrow> capability_token option \<Rightarrow> world \<Rightarrow> (unit result \<times> capability_token option) \<times> world" where
  "register_handle_locked handle rights close_on_destroy out_token w =
     (let b = w_broker w in
      if \<not> br_initialized b \<or> br_runtime b = None then ((Inl EINVAL, out_token), w)
      else (case first_index (\<lambda>s. \<not> ds_active s) (br_descriptors b) of
              None \<Rightarrow> ((Inl ENOSPC, out_token), w)
            | Some i \<Rightarrow>
                (case llam_broker_validate_next_object_id (br_next_descriptor_id b) of
                   Inl e \<Rightarrow> ((Inl e, out_token), w)
                 | Inr _ \<Rightarrow>
                     let w = llam_broker_descriptor_reset_slot i (llam_broker_descriptor_close_owned_slot i w);
                         s = zero_descriptor_slot\<lparr>ds_fd := handle, ds_id := br_next_descriptor_id b, ds_generation := 1,
                               ds_rights := rights, ds_subject_id := llam_broker_current_subject w, ds_active := True,
                               ds_close_on_destroy := close_on_destroy\<rparr>;
                         w = upd_broker (\<lambda>b. b\<lparr>br_next_descriptor_id := br_next_descriptor_id b + 1,
                               br_descriptors := (br_descriptors b)[i := s]\<rparr>) w
                     in (case llam_broker_issue_object_cap_unlocked w LLAM_BROKER_CAP_FAMILY_DESCRIPTOR (ds_id s)
                                (ds_generation s) rights out_token of
                           ((Inl e, out), w) \<Rightarrow> ((Inl e, out), llam_broker_descriptor_reset_slot i w)
                         | ((Inr _, out), w) \<Rightarrow> ((Inr (), out), w)))))"

definition llam_broker_register_handle ::
    "world \<Rightarrow> int \<Rightarrow> u64 \<Rightarrow> bool \<Rightarrow> capability_token option \<Rightarrow> (unit result \<times> capability_token option) \<times> world" where
  "llam_broker_register_handle w handle rights close_on_destroy out_token =
     (let out_token = map_option (\<lambda>_. zero_token) out_token in
      if llam_broker_descriptor_handle_invalid handle \<or> rights = 0 \<or> out_token = None then ((Inl EINVAL, out_token), w)
      else (case llam_broker_validate_object_rights LLAM_BROKER_CAP_FAMILY_DESCRIPTOR rights of
              Inl e \<Rightarrow> ((Inl e, out_token), w)
            | Inr _ \<Rightarrow>
                (case llam_broker_descriptor_set_cloexec handle w of
                   (Inl e, w) \<Rightarrow> ((Inl e, out_token), w)
                 | (Inr _, w) \<Rightarrow>
                     locked_op (\<lambda>e. (Inl e, out_token)) (register_handle_locked handle rights close_on_destroy out_token) w)))"

definition llam_broker_register_fd ::
    "world \<Rightarrow> int \<Rightarrow> u64 \<Rightarrow> bool \<Rightarrow> capability_token option \<Rightarrow> (unit result \<times> capability_token option) \<times> world" where
  "llam_broker_register_fd w fd rights close_on_destroy out_token =
     llam_broker_register_handle w fd rights close_on_destroy out_token"

definition llam_broker_duplicate_descriptor_unlocked ::
    "capability_token option \<Rightarrow> u64 \<Rightarrow> world \<Rightarrow> int result \<times> world" where
  "llam_broker_duplicate_descriptor_unlocked token required_rights w =
     (case llam_broker_find_descriptor_unlocked w token required_rights of
        Inl e \<Rightarrow> (Inl e, w)
      | Inr i \<Rightarrow> llam_broker_dup_cloexec_fd (ds_fd (br_descriptors (w_broker w) ! i)) w)"

text \<open>Input and output on the duplicate, which is closed on every path.\<close>

definition read_duplicate :: "int \<Rightarrow> u8 list \<Rightarrow> nat \<Rightarrow> world \<Rightarrow> (nat result \<times> u8 list option) \<times> world" where
  "read_duplicate fd out_data len w =
     (case llam_broker_descriptor_require_socket fd w of
        (Inl e, w) \<Rightarrow> (llam_broker_fail_clear_output_ssize (Some out_data) len e, log_event (EvClose fd) w)
      | (Inr _, w) \<Rightarrow>
          (case llam_broker_descriptor_wait_fd_ready fd POLLIN w of
             (Inl e, w) \<Rightarrow> (llam_broker_fail_clear_output_ssize (Some out_data) len e, log_event (EvClose fd) w)
           | (Inr _, w) \<Rightarrow>
               (case llam_broker_descriptor_recv_nonblocking fd out_data len w of
                  ((r, out), w) \<Rightarrow> (llam_broker_finish_read_clear_tail (Some out) len r, log_event (EvClose fd) w))))"

definition llam_broker_read_handle ::
    "world \<Rightarrow> capability_token option \<Rightarrow> u8 list option \<Rightarrow> nat \<Rightarrow> (nat result \<times> u8 list option) \<times> world" where
  "llam_broker_read_handle w token out_data len =
     (case out_data of
        None \<Rightarrow> ((Inl EINVAL, out_data), w)
      | Some out \<Rightarrow>
          if len = 0 then ((Inl EINVAL, out_data), w)
          else (case locked_op Inl (llam_broker_duplicate_descriptor_unlocked token LLAM_CAP_RIGHT_READ) w of
                  (Inl e, w) \<Rightarrow> (llam_broker_fail_clear_output_ssize out_data len e, w)
                | (Inr fd, w) \<Rightarrow> read_duplicate fd out len w))"

definition write_duplicate :: "int \<Rightarrow> u8 list \<Rightarrow> nat \<Rightarrow> world \<Rightarrow> nat result \<times> world" where
  "write_duplicate fd data len w =
     (case llam_broker_descriptor_require_socket fd w of
        (Inl e, w) \<Rightarrow> (Inl e, log_event (EvClose fd) w)
      | (Inr _, w) \<Rightarrow>
          (case llam_broker_descriptor_wait_fd_ready fd POLLOUT w of
             (Inl e, w) \<Rightarrow> (Inl e, log_event (EvClose fd) w)
           | (Inr _, w) \<Rightarrow>
               (case llam_broker_descriptor_send_nonblocking fd data len w of
                  (r, w) \<Rightarrow> (r, log_event (EvClose fd) w))))"

definition llam_broker_write_handle :: "world \<Rightarrow> capability_token option \<Rightarrow> u8 list option \<Rightarrow> nat \<Rightarrow> nat result \<times> world" where
  "llam_broker_write_handle w token data len =
     (case data of
        None \<Rightarrow> (Inl EINVAL, w)
      | Some d \<Rightarrow>
          if len = 0 then (Inl EINVAL, w)
          else (case locked_op Inl (llam_broker_duplicate_descriptor_unlocked token LLAM_CAP_RIGHT_WRITE) w of
                  (Inl e, w) \<Rightarrow> (Inl e, w)
                | (Inr fd, w) \<Rightarrow> write_duplicate fd d len w))"

definition llam_broker_read_fd ::
    "world \<Rightarrow> capability_token option \<Rightarrow> u8 list option \<Rightarrow> nat \<Rightarrow> (nat result \<times> u8 list option) \<times> world" where
  "llam_broker_read_fd w token out_data len =
     (if out_data = None \<or> len = 0 then ((Inl EINVAL, out_data), w) else llam_broker_read_handle w token out_data len)"

definition llam_broker_write_fd :: "world \<Rightarrow> capability_token option \<Rightarrow> u8 list option \<Rightarrow> nat \<Rightarrow> nat result \<times> world" where
  "llam_broker_write_fd w token data len =
     (if data = None \<or> len = 0 then (Inl EINVAL, w) else llam_broker_write_handle w token data len)"

section \<open>Bounded waiting\<close>

lemma sys_call_quiet: "sys_call w = (a, w') \<Longrightarrow> w_log w' = w_log w \<and> w_broker w' = w_broker w \<and> w_tls w' = w_tls w \<and> w_self w' = w_self w"
  by (auto simp: sys_call_def split: list.splits)

lemma now_quiet: "llam_now_ns w = (t, w') \<Longrightarrow> w_log w' = w_log w \<and> w_broker w' = w_broker w \<and> w_tls w' = w_tls w \<and> w_self w' = w_self w"
  by (auto simp: llam_now_ns_def split: list.splits)

lemma wait_loop_quiet:
  "wait_loop ev s d w = (r, w') \<Longrightarrow> w_log w' = w_log w \<and> w_broker w' = w_broker w \<and> w_tls w' = w_tls w \<and> w_self w' = w_self w"
proof (induction ev s d w arbitrary: r w' rule: wait_loop.induct)
  case (1 ev s d w)
  obtain now u where n: "llam_now_ns w = (now, u)" by fastforce
  obtain a v where a: "sys_call u = (a, v)" by fastforce
  note q = now_quiet [OF n] sys_call_quiet [OF a]
  show ?case
  proof (cases "wait_timeout_ms s d now")
    case None
    then show ?thesis using "1.prems" q n by (simp add: wait_loop.simps [of ev s d w] Let_def)
  next
    case (Some t)
    show ?thesis
    proof (cases "\<not> 0 < sa_value a \<and> sa_value a \<noteq> 0 \<and> sa_errno a = EINTR")
      case True
      then have "wait_loop ev s d v = (r, w')" using "1.prems" n a Some by (simp add: wait_loop.simps [of ev s d w])
      then show ?thesis using "1.IH" [OF n [symmetric] refl Some a [symmetric] refl] True q by auto
    next
      case False
      then have "w' = v" using "1.prems" n a Some by (auto simp: wait_loop.simps [of ev s d w] split: if_splits)
      then show ?thesis using q by simp
    qed
  qed
qed

lemma wait_ready_quiet:
  "llam_broker_descriptor_wait_fd_ready fd ev w = (r, w') \<Longrightarrow>
   w_log w' = w_log w \<and> w_broker w' = w_broker w \<and> w_tls w' = w_tls w \<and> w_self w' = w_self w"
  by (auto simp: llam_broker_descriptor_wait_fd_ready_def split: if_splits prod.splits dest!: wait_loop_quiet now_quiet)

text \<open>Waiting for a client descriptor is bounded: whenever the clock does not run backwards the loop either has reached
  its deadline or polls with a timeout between 1 and 250 milliseconds, also where the deadline saturates at the end of
  the clock's range.\<close>

theorem wait_timeout_bounded:
  assumes "start \<le> now" "wait_timeout_ms start (wait_deadline start) now = Some t"
  shows "1 \<le> t \<and> t \<le> LLAM_BROKER_DESCRIPTOR_IO_TIMEOUT_MS"
proof (cases "start \<noteq> 0 \<and> now \<noteq> 0")
  case False
  then show ?thesis using assms(2) by (auto simp: wait_timeout_ms_def LLAM_BROKER_DESCRIPTOR_IO_TIMEOUT_MS_def)
next
  case True
  let ?d = "wait_deadline start" let ?r = "?d - now"
  have lt: "now < ?d" using assms(2) True by (auto simp: wait_timeout_ms_def split: if_splits)
  have "unat ?d \<le> unat start + 250000000"
  proof (cases "start + 250000000 < start")
    case True
    then have "\<not> unat start + unat (250000000 :: u64) < 2 ^ LENGTH(64)"
      using unat_add_no_wrap_iff [of start 250000000] by (simp add: not_le [symmetric])
    moreover have "unat ?d < 2 ^ LENGTH(64)" by (rule unsigned_less)
    ultimately show ?thesis by simp
  next
    case False
    then show ?thesis by (simp add: wait_deadline_def LLAM_BROKER_DESCRIPTOR_IO_TIMEOUT_MS_def Let_def unat_word_ariths)
  qed
  then have r: "unat ?r \<le> 250000000" "0 < unat ?r"
    using lt assms(1) by (auto simp: unat_sub word_le_nat_alt word_less_nat_alt)
  define q where "q = (if ?r mod 1000000 \<noteq> 0 then ?r div 1000000 + 1 else ?r div 1000000)"
  have dv: "unat (?r div 1000000) = unat ?r div 1000000" "unat (?r mod 1000000) = unat ?r mod 1000000"
    by (simp_all add: unat_div unat_mod)
  have q: "unat q = (if unat ?r mod 1000000 \<noteq> 0 then unat ?r div 1000000 + 1 else unat ?r div 1000000)"
  proof -
    have "unat (?r div 1000000) < 2 ^ 64 - 1" using dv r by simp
    then have "?r div 1000000 \<noteq> -1" by (auto simp: unsigned_minus_1_eq_mask mask_eq_exp_minus_1)
    from unat_Suc_no_wrap [OF this] show ?thesis using dv unat_eq_0 [of "?r mod 1000000"] by (simp add: q_def)
  qed
  have "n div 1000000 < 250 \<or> n = 250000000" if "n \<le> 250000000" for n :: nat
    using that less_mult_imp_div_less [of n 250 1000000] by (cases "n = 250000000") auto
  from this [of "unat ?r"] have ub: "unat q \<le> 250" using q r by (auto split: if_splits)
  have "t = (if unat q < 1 then 1 else unat q)"
    using assms(2) True lt ub by (auto simp: wait_timeout_ms_def q_def [symmetric] Let_def word_less_nat_alt split: if_splits)
  then show ?thesis using ub by (auto simp: LLAM_BROKER_DESCRIPTOR_IO_TIMEOUT_MS_def)
qed

theorem wait_timeout_bounded_witness:
  "1 \<le> (2 :: nat) \<and> wait_timeout_ms 1000000 (wait_deadline 1000000) 249500000 = Some 2 \<and> (2 :: nat) \<le> LLAM_BROKER_DESCRIPTOR_IO_TIMEOUT_MS"
proof -
  have "wait_timeout_ms 1000000 (wait_deadline 1000000) 249500000 = Some 2" by code_simp
  from wait_timeout_bounded [OF _ this] this show ?thesis by simp
qed

text \<open>C27. A storm of interrupted polls cannot hold the wait open: if the clock shows the deadline at its \<open>k\<close>-th
  reading, at most \<open>k\<close> polls are made, whatever they answer.\<close>

theorem wait_polls_bounded:
  assumes "start \<noteq> 0" "k < length (w_now w)" "wait_deadline start \<le> w_now w ! k"
  shows "length (w_answers w) \<le> length (w_answers (snd (wait_loop ev start (wait_deadline start) w))) + k"
  using assms(2, 3)
proof (induction k arbitrary: w)
  case 0
  have "start \<le> wait_deadline start" by (auto simp: wait_deadline_def Let_def)
  then have "wait_timeout_ms start (wait_deadline start) (hd (w_now w)) = None"
    using 0 assms(1) by (cases "w_now w") (auto simp: wait_timeout_ms_def)
  then show ?case using 0 by (cases "w_now w") (auto simp: wait_loop.simps [of _ _ _ w] llam_now_ns_def)
next
  case (Suc k)
  then obtain t ts where n: "w_now w = t # ts" by (cases "w_now w") auto
  let ?u = "w\<lparr>w_now := ts\<rparr>"
  obtain a v where a: "sys_call ?u = (a, v)" by fastforce
  then have v: "length (w_answers w) \<le> Suc (length (w_answers v))" "w_now v = ts"
    by (auto simp: sys_call_def split: list.splits)
  have "length (w_answers v) \<le> length (w_answers (snd (wait_loop ev start (wait_deadline start) v))) + k"
    using Suc.IH [of v] Suc.prems v n by simp
  then show ?case
    using v a n by (auto simp: wait_loop.simps [of _ _ _ w] llam_now_ns_def split: option.split)
qed

theorem wait_polls_bounded_witness:
  "let a = \<lparr>sa_value = -1, sa_errno = EINTR, sa_data = []\<rparr>;
       w = example_world\<lparr>w_answers := [a, a, a, a, a], w_now := [20, 30, 250000010, 250000020]\<rparr>
   in 3 \<le> length (w_answers (snd (wait_loop POLLIN 10 (wait_deadline 10) w)))"
proof -
  have "wait_deadline 10 \<le> 250000010" by code_simp
  then have "Suc (Suc (Suc 0)) \<le> length (w_answers (snd (wait_loop POLLIN 10 (wait_deadline 10)
      (example_world\<lparr>w_answers := [a, a, a, a, a], w_now := [20, 30, 250000010, 250000020]\<rparr>))))" for a
    using wait_polls_bounded [of 10 2 "example_world\<lparr>w_answers := [a, a, a, a, a], w_now := [20, 30, 250000010, 250000020]\<rparr>" POLLIN]
    by simp
  then show ?thesis unfolding Let_def numeral_3_eq_3 .
qed

section \<open>Transfers through a duplicate\<close>

definition quiet :: "world \<Rightarrow> world \<Rightarrow> bool" where
  "quiet w w' \<longleftrightarrow> w_log w' = w_log w \<and> w_broker w' = w_broker w \<and> w_tls w' = w_tls w \<and> w_self w' = w_self w"

lemma quiet_sys_call: "quiet w (snd (sys_call w))"
  using sys_call_quiet by (cases "sys_call w") (auto simp: quiet_def)

lemma quiet_refl [simp]: "quiet w w"
  by (simp add: quiet_def)

lemma quiet_trans: "quiet w u \<Longrightarrow> quiet u v \<Longrightarrow> quiet w v"
  by (simp add: quiet_def)

lemma require_socket_quiet: "quiet w (snd (llam_broker_descriptor_require_socket fd w))"
  using quiet_sys_call [of w] by (auto simp: llam_broker_descriptor_require_socket_def Let_def split: prod.split)

lemma recv_quiet: "quiet w (snd (llam_broker_descriptor_recv_nonblocking fd d n w))"
  using quiet_sys_call [of w] by (auto simp: llam_broker_descriptor_recv_nonblocking_def Let_def split: prod.split)

lemma ready_quiet: "quiet w (snd (llam_broker_descriptor_wait_fd_ready fd ev w))"
  using wait_ready_quiet by (cases "llam_broker_descriptor_wait_fd_ready fd ev w") (auto simp: quiet_def)

lemma fcntl_quiet: "quiet w (snd (fcntl_call w))"
  using quiet_sys_call [of w] by (auto simp: fcntl_call_def split: prod.split)

lemma set_cloexec_quiet: "quiet w (snd (llam_broker_set_cloexec_fd fd w))"
  by (auto simp: llam_broker_set_cloexec_fd_def split: prod.split sum.split
      dest!: arg_cong [of _ _ snd] simp: fcntl_quiet quiet_trans [OF fcntl_quiet fcntl_quiet])

lemma dup_effects:
  assumes "llam_broker_dup_cloexec_fd fd w = (r, w')"
  shows "quiet w w' \<or> isl r \<and> (\<exists>d v. quiet w v \<and> w' = log_event (EvClose d) v)"
proof -
  obtain r1 v1 where 1: "fcntl_call w = (r1, v1)" by fastforce
  obtain r2 v2 where 2: "fcntl_call v1 = (r2, v2)" by fastforce
  obtain r3 v3 where 3: "llam_broker_set_cloexec_fd (projr r2) v2 = (r3, v3)" by fastforce
  have q: "quiet w v1" "quiet w v2" "quiet w v3"
    using fcntl_quiet [of w] fcntl_quiet [of v1] set_cloexec_quiet [of v2 "projr r2"] 1 2 3 by (auto intro: quiet_trans)
  then show ?thesis using assms 1 2 3
    by (cases r1; cases r2; cases r3) (auto simp: llam_broker_dup_cloexec_fd_def split: if_splits)
qed

lemma duplicate_effects:
  assumes "llam_broker_duplicate_descriptor_unlocked tok req w = (r, w')"
  shows "quiet w w' \<or> isl r \<and> (\<exists>d v. quiet w v \<and> w' = log_event (EvClose d) v)"
  using assms by (auto simp: llam_broker_duplicate_descriptor_unlocked_def split: sum.splits dest: dup_effects)

lemma duplicate_frame: "frame_body (llam_broker_duplicate_descriptor_unlocked tok req)"
  unfolding frame_body_def
proof (intro allI)
  fix w
  show "same_frame (snd (llam_broker_duplicate_descriptor_unlocked tok req w)) w"
    using duplicate_effects [of tok req w] by (cases "llam_broker_duplicate_descriptor_unlocked tok req w")
      (fastforce simp: quiet_def same_frame_def log_event_def)
qed

lemma duplicate_locked:
  assumes "ops_wf w" "\<not> br_destroying (w_broker w)"
    and "locked_op Inl (llam_broker_duplicate_descriptor_unlocked tok req) w = (r, v)"
  shows "w_broker v = w_broker w" "\<not> isl r \<Longrightarrow> w_log v = w_log w"
proof -
  have "w_broker v = w_broker w \<and> (\<not> isl r \<longrightarrow> w_log v = w_log w)"
    using locked_op_run [OF duplicate_frame assms(1,3)]
  proof (elim disjE exE conjE bexE)
    fix u u'
    assume u: "holding w u" "llam_broker_duplicate_descriptor_unlocked tok req u = (r, u')" "v = released w u'"
    note F = holding_fields [OF u(1)]
    have l: "br_lock (w_broker w) = Unlocked" using assms(1) by (simp add: ops_wf_def)
    have b: "w_broker u' = w_broker u" "\<not> isl r \<Longrightarrow> w_log u' = w_log u"
      using duplicate_effects [OF u(2)] by (auto simp: quiet_def log_event_def)
    have "w_broker v = w_broker w" using l by (auto simp: u(3) b(1) F(1) intro!: broker.equality)
    moreover have "w_log v = w_log u'"
      using assms(2) by (simp add: u(3) released_def left_op_def b(1) F(1) Let_def)
    ultimately show ?thesis using b(2) F(7) by simp
  qed simp
  then show "w_broker v = w_broker w" "\<not> isl r \<Longrightarrow> w_log v = w_log w" by simp_all
qed

lemma read_duplicate_closes:
  assumes "length out = len" "read_duplicate fd out len w = ((r, out'), w')" "0 < len"
  shows "w_log w' = w_log w @ [EvClose fd] \<and> w_broker w' = w_broker w \<and> (isl r \<longrightarrow> out' = Some (replicate len 0))"
proof -
  obtain r1 v1 where 1: "llam_broker_descriptor_require_socket fd w = (r1, v1)" by fastforce
  obtain r2 v2 where 2: "llam_broker_descriptor_wait_fd_ready fd POLLIN v1 = (r2, v2)" by fastforce
  obtain r3 o3 v3 where 3: "llam_broker_descriptor_recv_nonblocking fd out len v2 = ((r3, o3), v3)" by (metis prod.exhaust)
  have q: "quiet w v1" "quiet w v2" "quiet w v3"
    using require_socket_quiet [of w fd] ready_quiet [of v1 fd POLLIN] recv_quiet [of v2 fd out len] 1 2 3
    by (auto intro: quiet_trans)
  have o3: "isl r3 \<Longrightarrow> o3 = out" using 3 by (auto simp: llam_broker_descriptor_recv_nonblocking_def split: prod.splits if_splits)
  have clr: "overlay out 0 (replicate len 0) = replicate len 0" using assms(1) by (simp add: overlay_def)
  show ?thesis using assms 1 2 3 q o3 clr
    by (cases r1; cases r2; cases r3) (auto simp: read_duplicate_def quiet_def log_event_def llam_broker_fail_clear_output_ssize_def
        llam_broker_fail_clear_output_def llam_broker_finish_read_clear_tail_def split: if_splits)
qed

text \<open>C26. Reading through a descriptor capability leaks nothing: a duplicate that was obtained under the lock is closed
  exactly once, on every path of the unlocked input; a failing read leaves the caller's buffer zeroed; the broker's tables are as before.\<close>

theorem read_handle_closes_duplicate:
  assumes wf: "ops_wf w" "\<not> br_destroying (w_broker w)" and len: "length out = len" "0 < len"
    and res: "llam_broker_read_handle w tok (Some out) len = ((r, out'), w')"
  shows "w_broker w' = w_broker w \<and> (isl r \<longrightarrow> out' = Some (replicate len 0)) \<and>
    (case locked_op Inl (llam_broker_duplicate_descriptor_unlocked tok LLAM_CAP_RIGHT_READ) w of
       (Inl e, v) \<Rightarrow> isl r \<and> w' = v
     | (Inr fd, v) \<Rightarrow> w_log w' = w_log w @ [EvClose fd])"
proof -
  obtain d v where d: "locked_op Inl (llam_broker_duplicate_descriptor_unlocked tok LLAM_CAP_RIGHT_READ) w = (d, v)" by fastforce
  note D = duplicate_locked [OF wf d]
  have clr: "overlay out 0 (replicate len 0) = replicate len 0" using len(1) by (simp add: overlay_def)
  show ?thesis
  proof (cases d)
    case (Inl e)
    then show ?thesis using res len(2) d D clr
      by (auto simp: llam_broker_read_handle_def llam_broker_fail_clear_output_ssize_def llam_broker_fail_clear_output_def)
  next
    case (Inr fd)
    then have "read_duplicate fd out len v = ((r, out'), w')" using res len(2) d by (simp add: llam_broker_read_handle_def)
    from read_duplicate_closes [OF len(1) this len(2)] show ?thesis using D d Inr by simp
  qed
qed

theorem read_handle_closes_duplicate_witness:
  "let ((r, out), w') = llam_broker_read_handle example_world (Some zero_token) (Some [9, 9]) 2
   in w_broker w' = w_broker example_world \<and> (\<not> isl r \<or> out = Some [0, 0])"
proof -
  obtain r out w' where x: "llam_broker_read_handle example_world (Some zero_token) (Some [9, 9]) 2 = ((r, out), w')"
    by (metis prod.exhaust)
  from read_handle_closes_duplicate [OF example_world_wf example_buffers_wf(3) _ _ x] show ?thesis
    unfolding x by (auto simp: numeral_2_eq_2)
qed

end
