(* ===== verification/Broker_Task.thy ===== *)
theory Broker_Task
  imports Broker_Descriptor
begin

text \<open>
  Broker tasks (\<^verbatim>\<open>core/broker/broker_task.c\<close>): predefined commands named by a kind, which clients
  spawn, join and detach through capabilities. Quick kinds are computed by the spawner; sleeping ones run as
  a fiber whose argument is the slot. The effect of a join, a detach, a reclaim and of the end of the fiber on
  one slot is a definition of its own. The theory shows that the bit count is right, that quotas hold, that
  spawning and joining returns the computed result once, and, for every interleaving of a fiber with the
  operations on its slot, that the slot is not reused while the fiber can still touch it.
\<close>

section \<open>Commands\<close>

definition LLAM_BROKER_TASK_KIND_RETURN_U64 :: u32 where "LLAM_BROKER_TASK_KIND_RETURN_U64 = 1"
definition LLAM_BROKER_TASK_KIND_INCREMENT_U64 :: u32 where "LLAM_BROKER_TASK_KIND_INCREMENT_U64 = 2"
definition LLAM_BROKER_TASK_KIND_POPCOUNT_U64 :: u32 where "LLAM_BROKER_TASK_KIND_POPCOUNT_U64 = 3"
definition LLAM_BROKER_TASK_KIND_SLEEP_NS_RETURN_U64 :: u32 where "LLAM_BROKER_TASK_KIND_SLEEP_NS_RETURN_U64 = 4"

lemmas kind_defs = LLAM_BROKER_TASK_KIND_RETURN_U64_def LLAM_BROKER_TASK_KIND_INCREMENT_U64_def
  LLAM_BROKER_TASK_KIND_POPCOUNT_U64_def LLAM_BROKER_TASK_KIND_SLEEP_NS_RETURN_U64_def

lemma shift_shrinks: "value \<noteq> 0 \<Longrightarrow> unat (drop_bit 1 value) < unat (value :: u64)"
  using unat_gt_0 [of "value"] by (simp add: drop_bit_Suc unat_div)

function popcount_loop :: "u64 \<Rightarrow> u64 \<Rightarrow> u64" where
  "popcount_loop value count =
     (if value \<noteq> 0 then popcount_loop (drop_bit 1 value) (count + (value AND 1)) else count)"
  by auto

termination popcount_loop
  by (relation "measure (\<lambda>(value, _). unat value)") (simp, simp del: drop_bit_Suc add: shift_shrinks [simplified])

declare popcount_loop.simps [simp del]

definition llam_broker_popcount_u64 :: "u64 \<Rightarrow> u64" where
  "llam_broker_popcount_u64 value = popcount_loop value 0"

definition llam_broker_task_kind_valid :: "u32 \<Rightarrow> bool" where
  "llam_broker_task_kind_valid kind \<longleftrightarrow>
     kind = LLAM_BROKER_TASK_KIND_RETURN_U64 \<or> kind = LLAM_BROKER_TASK_KIND_INCREMENT_U64 \<or>
     kind = LLAM_BROKER_TASK_KIND_POPCOUNT_U64 \<or> kind = LLAM_BROKER_TASK_KIND_SLEEP_NS_RETURN_U64"

text \<open>The result and the error code of a command; sleeping asks the runtime.\<close>

definition llam_broker_task_compute :: "u32 \<Rightarrow> u64 \<Rightarrow> world \<Rightarrow> (u64 \<times> errno) \<times> world" where
  "llam_broker_task_compute kind arg0 w =
     (if kind = LLAM_BROKER_TASK_KIND_RETURN_U64 then ((arg0, E_OK), w)
      else if kind = LLAM_BROKER_TASK_KIND_INCREMENT_U64 then ((arg0 + 1, E_OK), w)
      else if kind = LLAM_BROKER_TASK_KIND_POPCOUNT_U64 then ((llam_broker_popcount_u64 arg0, E_OK), w)
      else if kind = LLAM_BROKER_TASK_KIND_SLEEP_NS_RETURN_U64 then
        (case sys_call w of
           (a, w) \<Rightarrow> (if sa_value a = 0 then (arg0, E_OK) else (0, if sa_errno a = E_OK then EINVAL else sa_errno a), w))
      else ((0, EINVAL), w))"

section \<open>The task table\<close>

abbreviation task_at :: "world \<Rightarrow> nat \<Rightarrow> task_slot" where
  "task_at w i \<equiv> br_tasks (w_broker w) ! i"

definition set_task :: "nat \<Rightarrow> task_slot \<Rightarrow> world \<Rightarrow> world" where
  "set_task i s w = upd_broker (\<lambda>b. b\<lparr>br_tasks := (br_tasks b)[i := s]\<rparr>) w"

definition llam_broker_find_task :: "world \<Rightarrow> capability_token option \<Rightarrow> u64 \<Rightarrow> nat result" where
  "llam_broker_find_task w token required_rights =
     (case llam_broker_validate_token_family_unlocked w token LLAM_BROKER_CAP_FAMILY_TASK required_rights of
        Inl e \<Rightarrow> Inl e
      | Inr _ \<Rightarrow>
          (case first_index (\<lambda>s. ts_active s \<and> ts_id s = tk_slot (the token) \<and> ts_generation s = tk_generation (the token))
                  (br_tasks (w_broker w)) of
             None \<Rightarrow> Inl EACCES
           | Some i \<Rightarrow>
               if ts_rights (br_tasks (w_broker w) ! i) AND required_rights \<noteq> required_rights then Inl EACCES else Inr i))"

definition llam_broker_task_slot_reset :: "nat \<Rightarrow> world \<Rightarrow> world" where
  "llam_broker_task_slot_reset i w = set_task i zero_task_slot w"

definition pending_sleep :: "task_slot \<Rightarrow> bool" where
  "pending_sleep s \<longleftrightarrow> ts_active s \<and> ts_kind s = LLAM_BROKER_TASK_KIND_SLEEP_NS_RETURN_U64 \<and>
     (ts_state s = STATE_SPAWNED \<or> ts_state s = STATE_DETACHED)"

definition llam_broker_has_pending_sleep_task_locked :: "broker \<Rightarrow> bool" where
  "llam_broker_has_pending_sleep_task_locked b \<longleftrightarrow> list_ex pending_sleep (br_tasks b)"

definition llam_broker_subject_task_count_locked :: "broker \<Rightarrow> u64 \<Rightarrow> nat" where
  "llam_broker_subject_task_count_locked b subject_id =
     (if subject_id = 0 then 0 else length (filter (\<lambda>s. ts_active s \<and> ts_subject_id s = subject_id) (br_tasks b)))"

definition llam_broker_long_sleep_task_count_locked :: "broker \<Rightarrow> nat" where
  "llam_broker_long_sleep_task_count_locked b = length (filter pending_sleep (br_tasks b))"

section \<open>Effects on one slot\<close>

text \<open>
  The fiber stores its result and then publishes it with one exchange of the state: \<open>finish_slot\<close> is that
  exchange, with the flag telling that the slot was detached in the meantime.
\<close>

definition store_result :: "u64 \<times> errno \<Rightarrow> task_slot \<Rightarrow> task_slot" where
  "store_result r s = s\<lparr>ts_result0 := fst r, ts_error_code := snd r\<rparr>"

definition finish_slot :: "task_slot \<Rightarrow> bool \<times> task_slot" where
  "finish_slot s =
     (if ts_state s = STATE_SPAWNED then (False, s\<lparr>ts_state := STATE_COMPLETED\<rparr>) else (ts_state s = STATE_DETACHED, s))"

text \<open>Joining takes the runtime task, the result and the error code out of a completed slot.\<close>

definition join_slot :: "task_slot \<Rightarrow> ((u64 \<times> u64 \<times> errno) \<times> task_slot) result" where
  "join_slot s =
     (if ts_state s = STATE_SPAWNED then Inl EAGAIN
      else if ts_state s \<noteq> STATE_COMPLETED then Inl EINVAL
      else Inr ((ts_task s, ts_result0 s, ts_error_code s), zero_task_slot))"

text \<open>
  Detaching hands out the runtime task of a completed slot (0 for none) and resets it, or marks a running one.
  The weak exchange of the source is retried until it succeeds or the fiber has completed.
\<close>

definition detach_slot :: "task_slot \<Rightarrow> (u64 \<times> task_slot) result" where
  "detach_slot s =
     (if ts_state s = STATE_COMPLETED then Inr (ts_task s, zero_task_slot)
      else if ts_state s = STATE_SPAWNED then
        if ts_task s = 0 then Inl EINVAL else Inr (0, s\<lparr>ts_state := STATE_DETACHED, ts_rights := 0\<rparr>)
      else Inl EINVAL)"

definition reclaim_slot :: "u64 \<Rightarrow> task_slot \<Rightarrow> u64 \<times> task_slot" where
  "reclaim_slot subject_id s =
     (if \<not> ts_active s \<or> ts_subject_id s \<noteq> subject_id then (0, s)
      else if ts_state s = STATE_SPAWNED then (0, s\<lparr>ts_state := STATE_DETACHED, ts_rights := 0\<rparr>)
      else if ts_state s = STATE_DETACHED then (0, s\<lparr>ts_rights := 0\<rparr>)
      else (ts_task s, zero_task_slot))"

section \<open>Operations\<close>

definition llam_broker_task_trampoline :: "nat \<Rightarrow> world \<Rightarrow> world" where
  "llam_broker_task_trampoline i w =
     (case llam_broker_task_compute (ts_kind (task_at w i)) (ts_arg0 (task_at w i)) w of
        (r, w) \<Rightarrow>
          let w = set_task i (store_result r (task_at w i)) w
          in (case finish_slot (task_at w i) of
                (detached, s) \<Rightarrow>
                  let w = set_task i s w in
                  if \<not> detached then w
                  else let w = (if ts_task s \<noteq> 0 then log_event (EvDetach (ts_task s)) w else w)
                       in (case llam_broker_lock w of
                             (Inl _, w) \<Rightarrow> w
                           | (Inr _, w) \<Rightarrow> llam_broker_unlock (llam_broker_task_slot_reset i w))))"

text \<open>Clearing first lets the runtime drain its work; the effect of that run is the argument \<open>run\<close>.\<close>

definition llam_broker_clear_tasks :: "(world \<Rightarrow> world) \<Rightarrow> world \<Rightarrow> world" where
  "llam_broker_clear_tasks run w =
     fold (\<lambda>i w. let s = task_at w i in
             llam_broker_task_slot_reset i
               (if ts_task s \<noteq> 0
                then log_event (if ts_state s = STATE_COMPLETED then EvJoin (ts_task s) else EvDetach (ts_task s)) w else w))
       [0..<LLAM_BROKER_TASK_SLOTS]
       (case br_runtime (w_broker w) of None \<Rightarrow> w | Some rt \<Rightarrow> run (log_event (EvRunHandle rt) w))"

definition reclaim_tasks_loop :: "u64 \<Rightarrow> world \<Rightarrow> u64 list \<times> world" where
  "reclaim_tasks_loop subject_id w =
     fold (\<lambda>i (ts, w). case reclaim_slot subject_id (task_at w i) of
             (t, s) \<Rightarrow> (if t \<noteq> 0 then ts @ [t] else ts, set_task i s w))
       [0..<LLAM_BROKER_TASK_SLOTS] ([], w)"

definition llam_broker_reclaim_subject_tasks :: "u64 \<Rightarrow> world \<Rightarrow> world" where
  "llam_broker_reclaim_subject_tasks subject_id w =
     (if subject_id = 0 then w
      else (case llam_broker_lock w of
              (Inl _, w) \<Rightarrow> w
            | (Inr _, w) \<Rightarrow>
                (case reclaim_tasks_loop subject_id w of
                   (ts, w) \<Rightarrow> fold (\<lambda>t. log_event (EvDetach t)) ts (llam_broker_unlock w))))"

definition spawn_task_locked :: "u32 \<Rightarrow> u64 \<Rightarrow> u64 \<Rightarrow> world \<Rightarrow> nat result \<times> world" where
  "spawn_task_locked kind arg0 rights w =
     (let b = w_broker w; subject_id = llam_broker_current_subject w in
      if \<not> br_initialized b \<or> br_runtime b = None then (Inl EINVAL, w)
      else if kind = LLAM_BROKER_TASK_KIND_SLEEP_NS_RETURN_U64 \<and>
              LLAM_BROKER_LONG_SLEEP_TASKS_MAX \<le> llam_broker_long_sleep_task_count_locked b then (Inl ENOSPC, w)
      else if subject_id \<noteq> 0 \<and> LLAM_BROKER_TASKS_PER_SUBJECT \<le> llam_broker_subject_task_count_locked b subject_id
      then (Inl ENOSPC, w)
      else (case first_index (\<lambda>s. \<not> ts_active s) (br_tasks b) of
              None \<Rightarrow> (Inl ENOSPC, w)
            | Some i \<Rightarrow>
                (case llam_broker_validate_next_object_id (br_next_task_id b) of
                   Inl e \<Rightarrow> (Inl e, w)
                 | Inr _ \<Rightarrow>
                     let s = zero_task_slot\<lparr>ts_owner := w_self w, ts_state := STATE_SPAWNED, ts_kind := kind, ts_arg0 := arg0,
                               ts_id := br_next_task_id b, ts_generation := 1, ts_rights := rights,
                               ts_subject_id := subject_id, ts_active := True\<rparr>
                     in (Inr i, upd_broker (\<lambda>b. b\<lparr>br_next_task_id := br_next_task_id b + 1\<rparr>) (set_task i s w)))))"

text \<open>Undoing a spawn that cannot proceed; a failing lock replaces the error number.\<close>

definition spawn_task_undo :: "nat \<Rightarrow> errno \<Rightarrow> world \<Rightarrow> errno \<times> world" where
  "spawn_task_undo i e w =
     (case llam_broker_lock w of
        (Inl e', w) \<Rightarrow> (e', w)
      | (Inr _, w) \<Rightarrow> (e, llam_broker_unlock (llam_broker_task_slot_reset i w)))"

definition spawn_task_start ::
    "nat \<Rightarrow> u32 \<Rightarrow> u64 \<Rightarrow> u64 \<Rightarrow> capability_token option \<Rightarrow> world \<Rightarrow> (unit result \<times> capability_token option) \<times> world" where
  "spawn_task_start i kind arg0 rights out_token w =
     (case llam_broker_issue_object_cap w LLAM_BROKER_CAP_FAMILY_TASK (ts_id (task_at w i)) (ts_generation (task_at w i))
             rights out_token of
        ((Inl e, out), w) \<Rightarrow> (case spawn_task_undo i e w of (e, w) \<Rightarrow> ((Inl e, out), w))
      | ((Inr _, out), w) \<Rightarrow>
          if kind \<noteq> LLAM_BROKER_TASK_KIND_SLEEP_NS_RETURN_U64 then
            (case llam_broker_task_compute kind arg0 w of
               (r, w) \<Rightarrow> ((Inr (), out), set_task i ((store_result r (task_at w i))\<lparr>ts_state := STATE_COMPLETED\<rparr>) w))
          else (case sys_call w of
                  (a, w) \<Rightarrow>
                    let w = set_task i ((task_at w i)\<lparr>ts_task := of_int (sa_value a)\<rparr>) w in
                    if (of_int (sa_value a) :: u64) = 0
                    then (case spawn_task_undo i (sa_errno a) w of (e, w) \<Rightarrow> ((Inl e, Some zero_token), w))
                    else ((Inr (), out), log_event (EvSpawn (of_int (sa_value a))) w)))"

definition spawn_task_body ::
    "u32 \<Rightarrow> u64 \<Rightarrow> u64 \<Rightarrow> capability_token option \<Rightarrow> world \<Rightarrow> (unit result \<times> capability_token option) \<times> world" where
  "spawn_task_body kind arg0 rights out_token w =
     (case with_lock Inl (spawn_task_locked kind arg0 rights) w of
        (Inl e, w) \<Rightarrow> ((Inl e, out_token), w)
      | (Inr i, w) \<Rightarrow> spawn_task_start i kind arg0 rights out_token w)"

definition llam_broker_spawn_task ::
    "world \<Rightarrow> u32 \<Rightarrow> u64 \<Rightarrow> u64 \<Rightarrow> capability_token option \<Rightarrow> (unit result \<times> capability_token option) \<times> world" where
  "llam_broker_spawn_task w kind arg0 rights out_token =
     (let out_token = map_option (\<lambda>_. zero_token) out_token in
      if out_token = None \<or> rights = 0 then ((Inl EINVAL, out_token), w)
      else (case llam_broker_validate_object_rights LLAM_BROKER_CAP_FAMILY_TASK rights of
              Inl e \<Rightarrow> ((Inl e, out_token), w)
            | Inr _ \<Rightarrow>
                if \<not> llam_broker_task_kind_valid kind then ((Inl EINVAL, out_token), w)
                else if kind = LLAM_BROKER_TASK_KIND_SLEEP_NS_RETURN_U64 \<and> LLAM_BROKER_SLEEP_MAX_NS < arg0
                then ((Inl EINVAL, out_token), w)
                else with_op (\<lambda>e. (Inl e, out_token)) (spawn_task_body kind arg0 rights out_token) w))"

definition drive_allowed_locked :: "capability_token option \<Rightarrow> world \<Rightarrow> (unit result \<times> bool option) \<times> world" where
  "drive_allowed_locked token w =
     (case llam_broker_find_task w token LLAM_CAP_RIGHT_JOIN of
        Inl e \<Rightarrow> ((Inl e, Some False), w)
      | Inr i \<Rightarrow>
          ((Inr (), Some (ts_state (task_at w i) \<noteq> STATE_SPAWNED \<or>
             ts_kind (task_at w i) \<noteq> LLAM_BROKER_TASK_KIND_SLEEP_NS_RETURN_U64 \<and>
             \<not> llam_broker_has_pending_sleep_task_locked (w_broker w))), w))"

definition llam_broker_task_join_runtime_drive_allowed ::
    "world \<Rightarrow> capability_token option \<Rightarrow> bool option \<Rightarrow> (unit result \<times> bool option) \<times> world" where
  "llam_broker_task_join_runtime_drive_allowed w token out_allowed =
     (if out_allowed = None then ((Inl EINVAL, None), w)
      else locked_op (\<lambda>e. (Inl e, Some False)) (drive_allowed_locked token) w)"

definition join_task_locked :: "capability_token option \<Rightarrow> world \<Rightarrow> (u64 \<times> u64 \<times> errno) result \<times> world" where
  "join_task_locked token w =
     (case llam_broker_find_task w token LLAM_CAP_RIGHT_JOIN of
        Inl e \<Rightarrow> (Inl e, w)
      | Inr i \<Rightarrow>
          (case join_slot (task_at w i) of
             Inl e \<Rightarrow> (Inl e, w)
           | Inr (x, s) \<Rightarrow> (Inr x, set_task i s w)))"

definition join_task_finish :: "u64 \<times> u64 \<times> errno \<Rightarrow> world \<Rightarrow> (unit result \<times> u64 option) \<times> world" where
  "join_task_finish x w =
     (case x of (task, result0, task_error) \<Rightarrow>
        let (joined, w) = (if task = 0 then (Inr (), w)
              else case sys_call (log_event (EvJoin task) w) of (a, w) \<Rightarrow> (if sa_value a \<noteq> 0 then Inl (sa_errno a) else Inr (), w))
        in (case joined of
              Inl e \<Rightarrow> ((Inl e, Some 0), w)
            | Inr _ \<Rightarrow> if task_error \<noteq> E_OK then ((Inl task_error, Some 0), w) else ((Inr (), Some result0), w)))"

definition llam_broker_join_task ::
    "world \<Rightarrow> capability_token option \<Rightarrow> u64 option \<Rightarrow> (unit result \<times> u64 option) \<times> world" where
  "llam_broker_join_task w token out_result0 =
     (if out_result0 = None then ((Inl EINVAL, None), w)
      else with_op (\<lambda>e. (Inl e, Some 0))
             (\<lambda>w. case with_lock Inl (join_task_locked token) w of
                    (Inl e, w) \<Rightarrow> ((Inl e, Some 0), w)
                  | (Inr x, w) \<Rightarrow> join_task_finish x w) w)"

definition detach_task_locked :: "capability_token option \<Rightarrow> world \<Rightarrow> u64 result \<times> world" where
  "detach_task_locked token w =
     (case llam_broker_find_task w token LLAM_CAP_RIGHT_DETACH of
        Inl e \<Rightarrow> (Inl e, w)
      | Inr i \<Rightarrow>
          (case detach_slot (task_at w i) of
             Inl e \<Rightarrow> (Inl e, w)
           | Inr (t, s) \<Rightarrow> (Inr t, set_task i s w)))"

definition llam_broker_detach_task :: "world \<Rightarrow> capability_token option \<Rightarrow> unit result \<times> world" where
  "llam_broker_detach_task w token =
     with_op Inl
       (\<lambda>w. case with_lock Inl (detach_task_locked token) w of
              (Inl e, w) \<Rightarrow> (Inl e, w)
            | (Inr t, w) \<Rightarrow>
                if t = 0 then (Inr (), w)
                else (case sys_call (log_event (EvDetach t) w) of
                        (a, w) \<Rightarrow> (if sa_value a \<noteq> 0 then Inl (sa_errno a) else Inr (), w))) w"

section \<open>Counting bits\<close>

lemma popcount_split:
  fixes v :: u64
  shows "of_nat (card {i. bit v i}) = (v AND 1) + (of_nat (card {i. bit (drop_bit 1 v) i}) :: u64)"
proof -
  have eq: "{i. bit v i} = {i. i = 0 \<and> bit v 0} \<union> Suc ` {i. bit (drop_bit 1 v) i}"
  proof (rule set_eqI)
    fix i show "i \<in> {i. bit v i} \<longleftrightarrow> i \<in> {i. i = 0 \<and> bit v 0} \<union> Suc ` {i. bit (drop_bit 1 v) i}"
      by (cases i) (auto simp: bit_drop_bit_eq image_iff)
  qed
  have "finite {i. bit (drop_bit 1 v) i}" by (rule finite_subset [of _ "{..<64}"]) (auto dest: bit_imp_le_length)
  then have "card {i. bit v i} = card {i :: nat. i = 0 \<and> bit v 0} + card {i. bit (drop_bit 1 v) i}"
    unfolding eq by (subst card_Un_disjoint) (auto simp: card_image)
  moreover have "v AND 1 = of_nat (card {i :: nat. i = 0 \<and> bit v 0})"
    by (auto simp: and_one_eq bit_0 mod2_eq_if)
  ultimately show ?thesis by simp
qed

lemma popcount_loop_correct: "popcount_loop v c = c + of_nat (card {i. bit v i})"
proof (induction v c rule: popcount_loop.induct)
  case (1 v c)
  show ?case
  proof (cases "v = 0")
    case False
    then have "popcount_loop v c = popcount_loop (drop_bit 1 v) (c + (v AND 1))" by (simp add: popcount_loop.simps [of v])
    also have "\<dots> = c + (v AND 1) + of_nat (card {i. bit (drop_bit 1 v) i})" using 1 False by simp
    finally show ?thesis using popcount_split [of v] by (simp add: algebra_simps)
  qed (simp add: popcount_loop.simps)
qed

text \<open>The shift loop of the bit-count command ends on every 64-bit word and returns the number of its set bits.\<close>

theorem popcount_correct: "llam_broker_popcount_u64 v = of_nat (card {i. bit v i})"
  by (simp add: llam_broker_popcount_u64_def popcount_loop_correct)

section \<open>A fiber and the operations on its slot\<close>

text \<open>
  What the fiber of a sleeping task does next: compute and store the result, exchange the state, give up the runtime
  task, reset the slot. The last component of a configuration lists the runtime tasks that were joined or detached so
  far. Every operation on the slot runs under the broker lock and is one step; the fiber takes the lock only to reset.
\<close>

datatype fiber = Queued | Computed | Detaching | Resetting | Gone

inductive task_step :: "task_slot \<times> fiber \<times> u64 list \<Rightarrow> task_slot \<times> fiber \<times> u64 list \<Rightarrow> bool" where
  compute: "task_step (s, Queued, rel) (store_result r s, Computed, rel)"
| finish: "finish_slot s = (d, s') \<Longrightarrow> task_step (s, Computed, rel) (s', if d then Detaching else Gone, rel)"
| give_up: "task_step (s, Detaching, rel) (s, Resetting, if ts_task s \<noteq> 0 then rel @ [ts_task s] else rel)"
| reset: "task_step (s, Resetting, rel) (zero_task_slot, Gone, rel)"
| join: "ts_active s \<Longrightarrow> join_slot s = Inr ((t, x), s') \<Longrightarrow>
    task_step (s, f, rel) (s', f, if t \<noteq> 0 then rel @ [t] else rel)"
| detach: "ts_active s \<Longrightarrow> detach_slot s = Inr (t, s') \<Longrightarrow>
    task_step (s, f, rel) (s', f, if t \<noteq> 0 then rel @ [t] else rel)"
| reclaim: "reclaim_slot subject s = (t, s') \<Longrightarrow>
    task_step (s, f, rel) (s', f, if t \<noteq> 0 then rel @ [t] else rel)"

inductive_cases task_stepE: "task_step (s, f, rel) c"

definition task_inv :: "u64 \<Rightarrow> u64 \<Rightarrow> task_slot \<times> fiber \<times> u64 list \<Rightarrow> bool" where
  "task_inv task ident c \<longleftrightarrow> (case c of (s, f, rel) \<Rightarrow>
     (if ts_active s then ts_task s = task \<and> ts_id s = ident else f = Gone \<and> rel = [task]) \<and>
     (ts_active s \<longrightarrow> rel = (if f = Resetting then [task] else [])) \<and>
     (ts_active s \<longrightarrow> (case f of Gone \<Rightarrow> ts_state s = STATE_COMPLETED
       | Queued \<Rightarrow> ts_state s = STATE_SPAWNED \<or> ts_state s = STATE_DETACHED
       | Computed \<Rightarrow> ts_state s = STATE_SPAWNED \<or> ts_state s = STATE_DETACHED
       | _ \<Rightarrow> ts_state s = STATE_DETACHED)))"

lemma zero_task_inactive [simp]: "\<not> ts_active zero_task_slot"
  by (simp add: zero_task_slot_def)

lemma task_inv_step:
  assumes "task_step c c'" "task_inv task ident c" "task \<noteq> 0"
  shows "task_inv task ident c'"
  using assms
proof (cases rule: task_step.cases)
  case (finish s d s' rel)
  then show ?thesis using assms by (auto simp: task_inv_def finish_slot_def split: if_splits)
next
  case (join s t x s' f rel)
  then show ?thesis using assms by (auto simp: task_inv_def join_slot_def split: if_splits fiber.splits)
next
  case (detach s t s' f rel)
  then show ?thesis using assms by (auto simp: task_inv_def detach_slot_def split: if_splits fiber.splits)
next
  case (reclaim subject s t s' f rel)
  then show ?thesis using assms by (auto simp: task_inv_def reclaim_slot_def split: if_splits fiber.splits)
qed (auto simp: task_inv_def store_result_def split: if_splits)

lemma task_inv_run: "task_step\<^sup>*\<^sup>* c c' \<Longrightarrow> task_inv task ident c \<Longrightarrow> task \<noteq> 0 \<Longrightarrow> task_inv task ident c'"
  by (induction rule: rtranclp_induct) (auto dest: task_inv_step)

text \<open>C28. However a running fiber interleaves with joins, detaches and reclaims of its slot, the slot keeps its object number
  and stays active until the fiber will not touch it again, so it is never handed to another task in between; and the
  runtime task is joined or detached at most once, and exactly once by the time the slot is free.\<close>

theorem task_slot_outlives_fiber:
  assumes "task_step\<^sup>*\<^sup>* (s0, Queued, []) (s, f, rel)"
    and "ts_active s0" "ts_state s0 = STATE_SPAWNED" "ts_task s0 \<noteq> 0"
  shows "(f \<noteq> Gone \<longrightarrow> ts_active s \<and> ts_id s = ts_id s0) \<and> rel \<in> {[], [ts_task s0]} \<and>
    (\<not> ts_active s \<longrightarrow> f = Gone \<and> rel = [ts_task s0])"
proof -
  have "task_inv (ts_task s0) (ts_id s0) (s0, Queued, [])" using assms by (simp add: task_inv_def)
  from task_inv_run [OF assms(1) this assms(4)] show ?thesis by (auto simp: task_inv_def split: if_splits)
qed

theorem task_slot_outlives_fiber_witness:
  "let s0 = zero_task_slot\<lparr>ts_active := True, ts_state := STATE_SPAWNED, ts_task := 9, ts_rights := 3\<rparr>
   in task_step\<^sup>*\<^sup>* (s0, Queued, []) (zero_task_slot, Gone, [9])
     \<and> [9] \<in> {[], [ts_task s0]} \<and> (\<not> ts_active zero_task_slot \<longrightarrow> [9] = [ts_task s0])"
proof -
  define s0 where "s0 = zero_task_slot\<lparr>ts_active := True, ts_state := STATE_SPAWNED, ts_task := 9, ts_rights := 3\<rparr>"
  define s1 where "s1 = s0\<lparr>ts_state := STATE_DETACHED, ts_rights := 0\<rparr>"
  define s2 where "s2 = store_result (0, E_OK) s1"
  have f: "ts_active s0" "ts_state s0 = STATE_SPAWNED" "ts_task s0 = 9" by (simp_all add: s0_def)
  have "task_step (s0, Queued, []) (s1, Queued, [])"
    using task_step.detach [of s0 0 s1 Queued "[]"] f by (simp add: detach_slot_def s1_def)
  moreover have "task_step (s1, Queued, []) (s2, Computed, [])" unfolding s2_def by (rule task_step.compute)
  moreover have "task_step (s2, Computed, []) (s2, Detaching, [])"
    using task_step.finish [of s2 True s2 "[]"] by (simp add: finish_slot_def s2_def s1_def store_result_def)
  moreover have "task_step (s2, Detaching, []) (s2, Resetting, [9])"
    using task_step.give_up [of s2 "[]"] f by (simp add: s2_def s1_def store_result_def)
  moreover have "task_step (s2, Resetting, [9]) (zero_task_slot, Gone, [9])" by (rule task_step.reset)
  ultimately have "task_step\<^sup>*\<^sup>* (s0, Queued, []) (zero_task_slot, Gone, [9])" by (meson converse_rtranclp_into_rtranclp rtranclp.rtrancl_refl)
  with task_slot_outlives_fiber [OF this f(1,2)] f(3) show ?thesis by (simp add: s0_def [symmetric])
qed

section \<open>Quotas\<close>

lemma same_frame_ops_wf: "same_frame v w \<Longrightarrow> ops_wf w \<Longrightarrow> ops_wf v"
  by (simp add: same_frame_def ops_wf_def tls_wf_def op_depth_def cong: option.case_cong)

lemma with_lock_run:
  assumes "frame_body body" "ops_wf v" "br_lock_initialized (w_broker v)" "with_lock fail body v = (r, v')"
  shows "\<exists>u'. body (upd_broker (\<lambda>b. b\<lparr>br_lock := Locked\<rparr>) v) = (r, u') \<and>
    same_frame u' (upd_broker (\<lambda>b. b\<lparr>br_lock := Locked\<rparr>) v) \<and>
    v' = upd_broker (\<lambda>b. b\<lparr>br_lock := Unlocked\<rparr>) u' \<and> same_frame v' v"
proof -
  let ?u = "upd_broker (\<lambda>b. b\<lparr>br_lock := Locked\<rparr>) v"
  have l: "br_lock (w_broker v) = Unlocked" using assms(2) by (simp add: ops_wf_def)
  obtain r' u' where b: "body ?u = (r', u')" by fastforce
  have f: "same_frame u' ?u" using assms(1) b unfolding frame_body_def by (metis snd_conv)
  then have "br_lock (w_broker u') = Locked" "br_lock_initialized (w_broker u')" using assms(3) by (simp_all add: same_frame_def)
  then have "(r, v') = (r', upd_broker (\<lambda>b. b\<lparr>br_lock := Unlocked\<rparr>) u')"
    using assms(3,4) l b by (simp add: with_lock_def lock_free unlock_held)
  then show ?thesis using b f l by (auto simp: same_frame_def)
qed

lemma filter_update_less:
  "i < length xs \<Longrightarrow> (P s \<Longrightarrow> P (xs ! i)) \<Longrightarrow> length (filter P (xs[i := s])) \<le> length (filter P xs)"
  by (induction xs arbitrary: i) (auto simp: nth_Cons' split: nat.split if_splits dest: le_SucI)

lemma filter_update_Suc:
  "length (filter P (xs[i := s])) \<le> Suc (length (filter P xs))"
  by (induction xs arbitrary: i) (auto split: nat.split)

definition quotas_ok :: "broker \<Rightarrow> bool" where
  "quotas_ok b \<longleftrightarrow>
     (\<forall>subject. llam_broker_subject_task_count_locked b subject \<le> LLAM_BROKER_TASKS_PER_SUBJECT) \<and>
     llam_broker_long_sleep_task_count_locked b \<le> LLAM_BROKER_LONG_SLEEP_TASKS_MAX \<and>
     (\<forall>s\<in>set (br_tasks b). pending_sleep s \<longrightarrow> ts_arg0 s \<le> LLAM_BROKER_SLEEP_MAX_NS)"

lemma quotas_cong: "br_tasks c = br_tasks b \<Longrightarrow> quotas_ok c = quotas_ok b"
  by (simp add: quotas_ok_def llam_broker_subject_task_count_locked_def llam_broker_long_sleep_task_count_locked_def)

text \<open>A slot update that does not make more of the slot than it was keeps the quotas.\<close>

definition no_more :: "task_slot \<Rightarrow> task_slot \<Rightarrow> bool" where
  "no_more s' s \<longleftrightarrow> (ts_active s' \<longrightarrow> ts_active s \<and> ts_subject_id s' = ts_subject_id s) \<and>
     (pending_sleep s' \<longrightarrow> pending_sleep s \<and> ts_arg0 s' = ts_arg0 s)"

lemma quotas_no_more:
  assumes "quotas_ok b" "br_tasks c = (br_tasks b)[i := s]" "i < length (br_tasks b)" "no_more s (br_tasks b ! i)"
  shows "quotas_ok c"
proof -
  have "length (filter (\<lambda>s. ts_active s \<and> ts_subject_id s = x) (br_tasks c)) \<le> length (filter (\<lambda>s. ts_active s \<and> ts_subject_id s = x) (br_tasks b))" for x
    using assms(4) unfolding assms(2) no_more_def by (intro filter_update_less [OF assms(3)]) auto
  moreover have "length (filter pending_sleep (br_tasks c)) \<le> length (filter pending_sleep (br_tasks b))"
    using assms(4) unfolding assms(2) no_more_def by (intro filter_update_less [OF assms(3)]) auto
  moreover have "pending_sleep x \<longrightarrow> ts_arg0 x \<le> LLAM_BROKER_SLEEP_MAX_NS" if "x \<in> set (br_tasks c)" for x
    using that set_update_subset_insert [of "br_tasks b" i s] assms by (auto simp: quotas_ok_def no_more_def)
  ultimately show ?thesis using assms(1)
    by (auto simp: quotas_ok_def llam_broker_subject_task_count_locked_def llam_broker_long_sleep_task_count_locked_def
        split: if_splits intro: le_trans)
qed

lemma spawn_locked_cases:
  assumes "spawn_task_locked kind arg0 rights u = (r, u')"
  shows "(case r of Inl e \<Rightarrow> u' = u
    | Inr i \<Rightarrow> first_index (\<lambda>s. \<not> ts_active s) (br_tasks (w_broker u)) = Some i \<and> br_next_task_id (w_broker u) \<noteq> 0 \<and>
        br_next_task_id (w_broker u) \<noteq> UINT64_MAX \<and>
        (kind = LLAM_BROKER_TASK_KIND_SLEEP_NS_RETURN_U64 \<longrightarrow>
           llam_broker_long_sleep_task_count_locked (w_broker u) < LLAM_BROKER_LONG_SLEEP_TASKS_MAX) \<and>
        (llam_broker_current_subject u \<noteq> 0 \<longrightarrow>
           llam_broker_subject_task_count_locked (w_broker u) (llam_broker_current_subject u) < LLAM_BROKER_TASKS_PER_SUBJECT) \<and>
        u' = upd_broker (\<lambda>b. b\<lparr>br_next_task_id := br_next_task_id b + 1, br_tasks := (br_tasks b)[i :=
          zero_task_slot\<lparr>ts_owner := w_self u, ts_state := STATE_SPAWNED, ts_kind := kind, ts_arg0 := arg0,
            ts_id := br_next_task_id b, ts_generation := 1, ts_rights := rights,
            ts_subject_id := llam_broker_current_subject u, ts_active := True\<rparr>]\<rparr>) u)"
  using assms
  by (auto simp: spawn_task_locked_def Let_def set_task_def llam_broker_validate_next_object_id_def
      simp del: first_index_None split: if_splits option.splits sum.splits)

lemma spawn_locked_frame: "frame_body (spawn_task_locked kind arg0 rights)"
  unfolding frame_body_def
proof
  fix u show "same_frame (snd (spawn_task_locked kind arg0 rights u)) u"
    using spawn_locked_cases [of kind arg0 rights u] by (cases "spawn_task_locked kind arg0 rights u"; cases "fst (spawn_task_locked kind arg0 rights u)")
      (auto simp: same_frame_def)
qed

lemma spawn_locked_quotas:
  assumes "spawn_task_locked kind arg0 rights u = (r, u')" "quotas_ok (w_broker u)"
    and "kind = LLAM_BROKER_TASK_KIND_SLEEP_NS_RETURN_U64 \<Longrightarrow> arg0 \<le> LLAM_BROKER_SLEEP_MAX_NS"
  shows "quotas_ok (w_broker u')"
proof (cases r)
  case (Inl e)
  then show ?thesis using spawn_locked_cases [OF assms(1)] assms(2) by simp
next
  case (Inr i)
  note S = spawn_locked_cases [OF assms(1), unfolded Inr, simplified]
  define s where "s = zero_task_slot\<lparr>ts_owner := w_self u, ts_state := STATE_SPAWNED, ts_kind := kind, ts_arg0 := arg0,
      ts_id := br_next_task_id (w_broker u), ts_generation := 1, ts_rights := rights,
      ts_subject_id := llam_broker_current_subject u, ts_active := True\<rparr>"
  have i: "i < length (br_tasks (w_broker u))" using S by (auto dest: first_index_SomeD)
  have t: "br_tasks (w_broker u') = (br_tasks (w_broker u))[i := s]" using S by (simp add: s_def)
  have q: "llam_broker_current_subject u \<noteq> 0 \<Longrightarrow>
      llam_broker_subject_task_count_locked (w_broker u) (llam_broker_current_subject u) < LLAM_BROKER_TASKS_PER_SUBJECT"
    "kind = LLAM_BROKER_TASK_KIND_SLEEP_NS_RETURN_U64 \<Longrightarrow>
      llam_broker_long_sleep_task_count_locked (w_broker u) < LLAM_BROKER_LONG_SLEEP_TASKS_MAX"
    using S by blast+
  have p: "pending_sleep s \<longleftrightarrow> kind = LLAM_BROKER_TASK_KIND_SLEEP_NS_RETURN_U64" by (simp add: pending_sleep_def s_def)
  have arg: "pending_sleep s \<Longrightarrow> ts_arg0 s \<le> LLAM_BROKER_SLEEP_MAX_NS" using p assms(3) by (simp add: s_def)
  have sub: "ts_subject_id s = llam_broker_current_subject u" by (simp add: s_def)
  have "llam_broker_subject_task_count_locked (w_broker u') x \<le> LLAM_BROKER_TASKS_PER_SUBJECT" for x
  proof (cases "x = llam_broker_current_subject u \<and> x \<noteq> 0")
    case True
    then show ?thesis using q(1) filter_update_Suc [of "\<lambda>s. ts_active s \<and> ts_subject_id s = x" "br_tasks (w_broker u)" i s]
      by (auto simp: llam_broker_subject_task_count_locked_def t)
  next
    case False
    then show ?thesis
      using assms(2) filter_update_less [OF i, of "\<lambda>s. ts_active s \<and> ts_subject_id s = x" s] sub
      by (auto simp: quotas_ok_def llam_broker_subject_task_count_locked_def t split: if_splits dest!: spec [of _ x])
  qed
  moreover have "llam_broker_long_sleep_task_count_locked (w_broker u') \<le> LLAM_BROKER_LONG_SLEEP_TASKS_MAX"
  proof (cases "pending_sleep s")
    case True
    then show ?thesis using q(2) p filter_update_Suc [of pending_sleep "br_tasks (w_broker u)" i s]
      by (simp add: llam_broker_long_sleep_task_count_locked_def t)
  next
    case False
    then show ?thesis using assms(2) filter_update_less [OF i, of pending_sleep s]
      by (simp add: quotas_ok_def llam_broker_long_sleep_task_count_locked_def t)
  qed
  moreover have "pending_sleep x \<longrightarrow> ts_arg0 x \<le> LLAM_BROKER_SLEEP_MAX_NS" if "x \<in> set (br_tasks (w_broker u'))" for x
    using that set_update_subset_insert [of "br_tasks (w_broker u)" i s] assms(2) arg by (auto simp: quotas_ok_def t)
  ultimately show ?thesis by (simp add: quotas_ok_def)
qed

section \<open>Spawning\<close>

lemma issue_cap_run:
  assumes wf: "ops_wf v" and nd: "\<not> br_destroying (w_broker v)"
    and res: "llam_broker_issue_object_cap v family slot g rights (Some t0) = ((r, out), v')"
  shows "\<exists>os. v' = v\<lparr>w_os := os\<rparr>"
    "case r of Inl e \<Rightarrow> out = Some zero_token
     | Inr _ \<Rightarrow> (\<exists>tok rid. out = Some tok \<and> br_runtime (w_broker v) = Some rid \<and> br_initialized (w_broker v) \<and>
         tk_family tok = family \<and> tk_slot tok = slot \<and> tk_generation tok = g \<and> tk_rights tok = rights \<and> tk_runtime_id tok = rid \<and>
         (\<forall>required. required \<noteq> 0 \<and> rights AND required = required \<longrightarrow>
            llam_capability_validate_subject (br_capability_key (w_broker v)) (Some tok) required
              (br_revocation_epoch (w_broker v)) (llam_broker_current_subject v) = Inr ()))"
proof -
  let ?body = "\<lambda>w. llam_broker_issue_object_cap_unlocked w family slot g rights (Some zero_token)"
  have fr: "frame_body ?body"
    unfolding frame_body_def
  proof
    fix u show "same_frame (snd (?body u)) u"
      using issue_unlocked_cases(1) [of u family slot g rights zero_token] by (cases "?body u") (auto simp: same_frame_def)
  qed
  have res': "locked_op (\<lambda>e. (Inl e, Some zero_token)) ?body v = ((r, out), v')"
    using res by (simp add: llam_broker_issue_object_cap_def Let_def)
  have "(\<exists>os. v' = v\<lparr>w_os := os\<rparr>) \<and> (case r of Inl e \<Rightarrow> out = Some zero_token
     | Inr _ \<Rightarrow> (\<exists>tok rid. out = Some tok \<and> br_runtime (w_broker v) = Some rid \<and> br_initialized (w_broker v) \<and>
         tk_family tok = family \<and> tk_slot tok = slot \<and> tk_generation tok = g \<and> tk_rights tok = rights \<and> tk_runtime_id tok = rid \<and>
         (\<forall>required. required \<noteq> 0 \<and> rights AND required = required \<longrightarrow>
            llam_capability_validate_subject (br_capability_key (w_broker v)) (Some tok) required
              (br_revocation_epoch (w_broker v)) (llam_broker_current_subject v) = Inr ())))"
    using locked_op_run [OF fr wf res']
  proof (elim disjE exE conjE bexE)
    fix e assume "(r, out) = (Inl e, Some zero_token)" "v' = v"
    then show ?thesis by (auto intro: exI [of _ "w_os v"])
  next
    fix u u' assume u: "holding v u" "?body u = ((r, out), u')" "v' = released v u'"
    note F = holding_fields [OF u(1)]
    obtain os where os: "u' = u\<lparr>w_os := os\<rparr>" using issue_unlocked_cases(1) [OF u(2)] by blast
    have "released v u = v" by (rule released_unchanged [OF wf u(1) nd])
    moreover have "released v (u\<lparr>w_os := os\<rparr>) = (released v u)\<lparr>w_os := os\<rparr>"
      using nd by (simp add: released_def left_op_def Let_def F(1))
    ultimately have "v' = v\<lparr>w_os := os\<rparr>" unfolding u(3) os by simp
    moreover have "llam_broker_current_subject u = llam_broker_current_subject v" by (rule F(8))
    ultimately show ?thesis using issue_unlocked_cases(2) [OF u(2)] by (auto simp: F(1) split: sum.splits)
  qed
  then show "\<exists>os. v' = v\<lparr>w_os := os\<rparr>"
    "case r of Inl e \<Rightarrow> out = Some zero_token
     | Inr _ \<Rightarrow> (\<exists>tok rid. out = Some tok \<and> br_runtime (w_broker v) = Some rid \<and> br_initialized (w_broker v) \<and>
         tk_family tok = family \<and> tk_slot tok = slot \<and> tk_generation tok = g \<and> tk_rights tok = rights \<and> tk_runtime_id tok = rid \<and>
         (\<forall>required. required \<noteq> 0 \<and> rights AND required = required \<longrightarrow>
            llam_capability_validate_subject (br_capability_key (w_broker v)) (Some tok) required
              (br_revocation_epoch (w_broker v)) (llam_broker_current_subject v) = Inr ()))" by blast+
qed

lemma set_task_fields [simp]:
  "w_broker (set_task i s v) = (w_broker v)\<lparr>br_tasks := (br_tasks (w_broker v))[i := s]\<rparr>"
  "w_tls (set_task i s v) = w_tls v" "w_self (set_task i s v) = w_self v" "same_frame (set_task i s v) u = same_frame v u"
  "llam_broker_current_subject (set_task i s v) = llam_broker_current_subject v"
  by (simp_all add: set_task_def same_frame_def subject_broker_irrelevant)

lemma spawn_undo:
  assumes "ops_wf v" "br_lock_initialized (w_broker v)"
  shows "spawn_task_undo i e v = (e, set_task i zero_task_slot v)"
proof -
  have "br_lock (w_broker v) = Unlocked" using assms(1) by (simp add: ops_wf_def)
  then show ?thesis using assms(2)
    by (simp add: spawn_task_undo_def lock_free llam_broker_task_slot_reset_def set_task_def unlock_held)
qed

lemma compute_quick:
  assumes "kind \<noteq> LLAM_BROKER_TASK_KIND_SLEEP_NS_RETURN_U64"
  shows "\<exists>r. llam_broker_task_compute kind arg0 v = (r, v) \<and> llam_broker_task_compute kind arg0 w = (r, w)"
  using assms by (auto simp: llam_broker_task_compute_def)

lemma spawn_start_effect:
  assumes wf: "ops_wf v" "\<not> br_destroying (w_broker v)" "br_lock_initialized (w_broker v)" and i: "i < length (br_tasks (w_broker v))"
    and res: "spawn_task_start i kind arg0 rights (Some zero_token) v = (r, v')"
  shows "same_frame v' v \<and> (\<exists>s. w_broker v' = (w_broker v)\<lparr>br_tasks := (br_tasks (w_broker v))[i := s]\<rparr> \<and> no_more s (task_at v i))"
proof -
  obtain q out v1 where iss: "llam_broker_issue_object_cap v LLAM_BROKER_CAP_FAMILY_TASK (ts_id (task_at v i)) (ts_generation (task_at v i))
      rights (Some zero_token) = ((q, out), v1)" by (metis prod.exhaust)
  obtain os where v1: "v1 = v\<lparr>w_os := os\<rparr>" using issue_cap_run(1) [OF wf(1,2) iss] by blast
  have w1: "ops_wf v1" "br_lock_initialized (w_broker v1)" "w_broker v1 = w_broker v" "same_frame v1 v"
    using same_frame_ops_wf [of v1 v] wf by (simp_all add: v1 same_frame_def)
  have z: "no_more zero_task_slot (task_at v i)" by (simp add: no_more_def pending_sleep_def)
  show ?thesis
  proof (cases "isl q")
    case True
    then obtain e where "q = Inl e" by (cases q) auto
    then have "v' = set_task i zero_task_slot v1"
      using res iss spawn_undo [OF w1(1,2)] by (simp add: spawn_task_start_def)
    then show ?thesis using w1 z by auto
  next
    case False
    then have q: "q = Inr ()" by (cases q) auto
    show ?thesis
    proof (cases "kind = LLAM_BROKER_TASK_KIND_SLEEP_NS_RETURN_U64")
      case False
      then obtain x where x: "llam_broker_task_compute kind arg0 v1 = (x, v1)" using compute_quick by blast
      then have "v' = set_task i ((store_result x (task_at v1 i))\<lparr>ts_state := STATE_COMPLETED\<rparr>) v1"
        using res iss q False by (simp add: spawn_task_start_def)
      moreover have "no_more ((store_result x (task_at v i))\<lparr>ts_state := STATE_COMPLETED\<rparr>) (task_at v i)"
        by (simp add: no_more_def pending_sleep_def store_result_def)
      ultimately show ?thesis using w1 by auto
    next
      case True
      obtain a v2 where a: "sys_call v1 = (a, v2)" by fastforce
      have v2: "w_broker v2 = w_broker v" "same_frame v2 v" using sys_call_quiet [OF a] w1(3,4) by (simp_all add: same_frame_def)
      define v3 where "v3 = set_task i ((task_at v2 i)\<lparr>ts_task := of_int (sa_value a)\<rparr>) v2"
      have v3: "same_frame v3 v" "ops_wf v3" "br_lock_initialized (w_broker v3)"
        using v2 same_frame_ops_wf [of v3 v] wf by (auto simp: v3_def)
      have n: "no_more ((task_at v i)\<lparr>ts_task := of_int (sa_value a)\<rparr>) (task_at v i)" by (simp add: no_more_def pending_sleep_def)
      have "v' = (if (of_int (sa_value a) :: u64) = 0 then set_task i zero_task_slot v3 else log_event (EvSpawn (of_int (sa_value a))) v3)"
      proof (cases "(of_int (sa_value a) :: u64) = 0")
        case zero: True
        have "v3 = set_task i ((task_at v2 i)\<lparr>ts_task := 0\<rparr>) v2" using zero by (simp add: v3_def)
        then show ?thesis using res iss q True a zero spawn_undo [OF v3(2,3)] by (simp add: spawn_task_start_def)
      next
        case False
        then show ?thesis using res iss q True a by (simp add: spawn_task_start_def v3_def)
      qed
      moreover define s where "s = (if (of_int (sa_value a) :: u64) = 0 then zero_task_slot else (task_at v i)\<lparr>ts_task := of_int (sa_value a)\<rparr>)"
      ultimately have "same_frame v' v" "w_broker v' = (w_broker v)\<lparr>br_tasks := (br_tasks (w_broker v))[i := s]\<rparr>" "no_more s (task_at v i)"
        using v3(1) v2(1) z n by (auto simp: v3_def log_event_def same_frame_def)
      then show ?thesis by blast
    qed
  qed
qed

lemma entered_open:
  assumes "entered w s u"
  shows "ops_wf u" "br_lock_initialized (w_broker u)" "br_lock (w_broker u) = Unlocked"
  using assms entered_fields(1) [OF assms] by (simp_all add: entered_def ops_wf_def)

lemma spawn_body_effect:
  assumes u: "entered w 0 u" and nd: "\<not> br_destroying (w_broker w)" and body: "spawn_task_body kind arg0 rights (Some zero_token) u = (r, u')"
  shows "same_frame u' u"
    "quotas_ok (w_broker u) \<Longrightarrow> (kind = LLAM_BROKER_TASK_KIND_SLEEP_NS_RETURN_U64 \<Longrightarrow> arg0 \<le> LLAM_BROKER_SLEEP_MAX_NS) \<Longrightarrow>
     quotas_ok (w_broker u')"
proof -
  note O = entered_open [OF u]
  obtain q v where q: "with_lock Inl (spawn_task_locked kind arg0 rights) u = (q, v)" by fastforce
  obtain x where x: "spawn_task_locked kind arg0 rights (upd_broker (\<lambda>b. b\<lparr>br_lock := Locked\<rparr>) u) = (q, x)"
      "v = upd_broker (\<lambda>b. b\<lparr>br_lock := Unlocked\<rparr>) x" "same_frame v u"
    using with_lock_run [OF spawn_locked_frame O(1,2) q] by blast
  have "br_tasks (w_broker v) = br_tasks (w_broker x)" by (simp add: x(2))
  from quotas_cong [OF this] spawn_locked_quotas [OF x(1)]
  have qv: "quotas_ok (w_broker v)" if "quotas_ok (w_broker u)" "kind = LLAM_BROKER_TASK_KIND_SLEEP_NS_RETURN_U64 \<Longrightarrow> arg0 \<le> LLAM_BROKER_SLEEP_MAX_NS"
    using that quotas_cong [of "(w_broker u)\<lparr>br_lock := Locked\<rparr>" "w_broker u"] by simp
  have "same_frame u' u \<and> (quotas_ok (w_broker u) \<and> (kind = LLAM_BROKER_TASK_KIND_SLEEP_NS_RETURN_U64 \<longrightarrow> arg0 \<le> LLAM_BROKER_SLEEP_MAX_NS) \<longrightarrow>
     quotas_ok (w_broker u'))"
  proof (cases q)
    case (Inl e)
    then have "u' = v" using body q by (simp add: spawn_task_body_def)
    then show ?thesis using x(3) qv by blast
  next
    case (Inr i)
    then have st: "spawn_task_start i kind arg0 rights (Some zero_token) v = (r, u')" using body q by (simp add: spawn_task_body_def)
    note S = spawn_locked_cases [OF x(1), unfolded Inr, simplified]
    have v: "ops_wf v" "\<not> br_destroying (w_broker v)" "br_lock_initialized (w_broker v)" "i < length (br_tasks (w_broker v))"
      using same_frame_ops_wf [OF x(3) O(1)] x(2,3) S O(2) nd entered_fields(1) [OF u] by (auto simp: same_frame_def dest: first_index_SomeD)
    from spawn_start_effect [OF v st] obtain s where s: "same_frame u' v"
        "w_broker u' = (w_broker v)\<lparr>br_tasks := (br_tasks (w_broker v))[i := s]\<rparr>" "no_more s (task_at v i)" by blast
    have "quotas_ok (w_broker u')" if "quotas_ok (w_broker v)" using quotas_no_more [OF that _ v(4) s(3), of "w_broker u'"] s(2) by simp
    then show ?thesis using qv same_frame_trans [OF s(1) x(3)] by blast
  qed
  then show "same_frame u' u" "quotas_ok (w_broker u) \<Longrightarrow> (kind = LLAM_BROKER_TASK_KIND_SLEEP_NS_RETURN_U64 \<Longrightarrow> arg0 \<le> LLAM_BROKER_SLEEP_MAX_NS) \<Longrightarrow>
     quotas_ok (w_broker u')" by blast+
qed

lemma spawn_runs:
  assumes "llam_broker_spawn_task w kind arg0 rights out_token = (r, w')"
  shows "w' = w \<and> isl (fst r) \<or> (\<exists>t. out_token = Some t) \<and> rights \<noteq> 0 \<and> llam_broker_task_kind_valid kind \<and>
    llam_broker_validate_object_rights LLAM_BROKER_CAP_FAMILY_TASK rights = Inr () \<and>
    (kind = LLAM_BROKER_TASK_KIND_SLEEP_NS_RETURN_U64 \<longrightarrow> arg0 \<le> LLAM_BROKER_SLEEP_MAX_NS) \<and>
    with_op_subject 0 (\<lambda>e. (Inl e, Some zero_token)) (spawn_task_body kind arg0 rights (Some zero_token)) w = (r, w')"
proof (cases out_token)
  case None
  then show ?thesis using assms by (auto simp: llam_broker_spawn_task_def Let_def)
next
  case (Some t)
  have m: "map_option (\<lambda>_. zero_token) (Some t) = Some zero_token" by simp
  show ?thesis using assms unfolding Some llam_broker_spawn_task_def Let_def m with_op_def
    by (cases "rights = 0"; cases "llam_broker_validate_object_rights LLAM_BROKER_CAP_FAMILY_TASK rights";
        cases "llam_broker_task_kind_valid kind"; cases "kind = LLAM_BROKER_TASK_KIND_SLEEP_NS_RETURN_U64 \<and> LLAM_BROKER_SLEEP_MAX_NS < arg0")
      (simp_all add: not_less, auto)
qed

text \<open>C29. Spawning keeps the quotas on every path, failed starts included: no subject holds more tasks than its share, at most
  sixteen sleeps are pending over all subjects, and no pending sleep is longer than a minute.\<close>

theorem spawn_keeps_quotas:
  assumes wf: "ops_wf w" "quotas_ok (w_broker w)" "\<not> br_destroying (w_broker w)"
    and res: "llam_broker_spawn_task w kind arg0 rights out_token = (r, w')"
  shows "quotas_ok (w_broker w')"
proof (cases "w' = w")
  case False
  then have run: "with_op_subject 0 (\<lambda>e. (Inl e, Some zero_token)) (spawn_task_body kind arg0 rights (Some zero_token)) w = (r, w')"
      and a: "kind = LLAM_BROKER_TASK_KIND_SLEEP_NS_RETURN_U64 \<Longrightarrow> arg0 \<le> LLAM_BROKER_SLEEP_MAX_NS"
    using spawn_runs [OF res] by blast+
  have fr: "same_frame (snd (spawn_task_body kind arg0 rights (Some zero_token) u)) u" if "entered w 0 u" for u
    using spawn_body_effect(1) [OF that wf(3)] by (cases "spawn_task_body kind arg0 rights (Some zero_token) u") auto
  have "(\<exists>e\<in>{EINVAL, EBUSY, EOVERFLOW, EACCES}. r = (Inl e, Some zero_token) \<and> w' = w) \<or> (\<exists>u u'. entered w 0 u \<and>
      spawn_task_body kind arg0 rights (Some zero_token) u = (r, u') \<and> same_frame u' u \<and> w' = left_op (w_tls w) u')"
    by (rule with_op_subject_run [OF _ wf(1) run]) (rule fr)
  then show ?thesis
  proof (elim disjE exE conjE bexE)
    fix u u' assume u: "entered w 0 u" "spawn_task_body kind arg0 rights (Some zero_token) u = (r, u')" "w' = left_op (w_tls w) u'"
    have "quotas_ok (w_broker u)" using wf(2) quotas_cong [of "w_broker u" "w_broker w"] entered_fields(1) [OF u(1)] by simp
    from spawn_body_effect(2) [OF u(1) wf(3) u(2) this a] show ?thesis
      using quotas_cong [of "w_broker w'" "w_broker u'"] by (simp add: u(3))
  qed (use False in simp)
qed (use wf in simp)

lemma example_quotas: "quotas_ok (w_broker example_world)"
  by (simp add: quotas_ok_def llam_broker_subject_task_count_locked_def llam_broker_long_sleep_task_count_locked_def
      example_tls example_broker_def zero_broker_def pending_sleep_def filter_replicate)

theorem spawn_keeps_quotas_witness:
  "quotas_ok (w_broker (snd (llam_broker_spawn_task example_world LLAM_BROKER_TASK_KIND_RETURN_U64 5 LLAM_CAP_RIGHT_JOIN (Some zero_token))))"
proof -
  obtain r w' where x: "llam_broker_spawn_task example_world LLAM_BROKER_TASK_KIND_RETURN_U64 5 LLAM_CAP_RIGHT_JOIN (Some zero_token) = (r, w')"
    by fastforce
  from spawn_keeps_quotas [OF example_world_wf example_quotas example_buffers_wf(3) x] show ?thesis by (simp add: x)
qed

section \<open>Spawning and joining\<close>

interpretation tsk: object_table ts_active ts_id ts_generation ts_rights zero_task_slot
  by unfold_locales simp

definition tasks_wf :: "broker \<Rightarrow> bool" where
  "tasks_wf b \<longleftrightarrow> tsk.numbered (br_next_task_id b) (br_tasks b)"

lemma begin_again:
  assumes "llam_broker_begin_op_subject w s = (Inr x, u)" "same_frame v w"
    and "br_initialized (w_broker v) = br_initialized (w_broker w)" "br_runtime (w_broker v) = br_runtime (w_broker w)"
      "br_destroying (w_broker v) = br_destroying (w_broker w)"
  shows "\<exists>u'. llam_broker_begin_op_subject v s = (Inr (), u')"
  using assms
  by (auto simp: llam_broker_begin_op_subject_def llam_broker_lock_def llam_broker_unlock_def llam_broker_tls_enter_op_def
      llam_broker_current_thread_has_op_def same_frame_def Let_def simp del: first_index_None split: if_splits option.splits cong: option.case_cong)

text \<open>What the quick commands mean.\<close>

definition task_result :: "u32 \<Rightarrow> u64 \<Rightarrow> u64" where
  "task_result kind arg0 =
     (if kind = LLAM_BROKER_TASK_KIND_RETURN_U64 then arg0
      else if kind = LLAM_BROKER_TASK_KIND_INCREMENT_U64 then arg0 + 1 else of_nat (card {i. bit arg0 i}))"

lemma compute_result:
  "llam_broker_task_kind_valid kind \<Longrightarrow> kind \<noteq> LLAM_BROKER_TASK_KIND_SLEEP_NS_RETURN_U64 \<Longrightarrow>
   llam_broker_task_compute kind arg0 v = ((task_result kind arg0, E_OK), v)"
  by (auto simp: task_result_def llam_broker_task_compute_def llam_broker_task_kind_valid_def kind_defs
      llam_broker_popcount_u64_def popcount_loop_correct)

text \<open>The slot that a quick spawn leaves, and what the token names.\<close>

definition quick_slot :: "world \<Rightarrow> u32 \<Rightarrow> u64 \<Rightarrow> u64 \<Rightarrow> task_slot" where
  "quick_slot w kind arg0 rights = zero_task_slot\<lparr>ts_owner := w_self w, ts_state := STATE_COMPLETED, ts_kind := kind, ts_arg0 := arg0,
     ts_id := br_next_task_id (w_broker w), ts_generation := 1, ts_rights := rights,
     ts_subject_id := llam_broker_current_subject w, ts_active := True, ts_result0 := task_result kind arg0\<rparr>"

definition names_task :: "broker \<Rightarrow> u64 \<Rightarrow> task_slot \<Rightarrow> capability_token \<Rightarrow> bool" where
  "names_task b subject s tok \<longleftrightarrow> br_runtime b = Some (tk_runtime_id tok) \<and> br_initialized b \<and>
     tk_family tok = LLAM_BROKER_CAP_FAMILY_TASK \<and> tk_slot tok = ts_id s \<and> tk_generation tok = ts_generation s \<and> tk_rights tok = ts_rights s \<and>
     (\<forall>required. required \<noteq> 0 \<and> ts_rights s AND required = required \<longrightarrow>
        llam_capability_validate_subject (br_capability_key b) (Some tok) required (br_revocation_epoch b) subject = Inr ())"

lemma spawn_start_quick:
  assumes wf: "ops_wf v" "\<not> br_destroying (w_broker v)"
    and k: "llam_broker_task_kind_valid kind" "kind \<noteq> LLAM_BROKER_TASK_KIND_SLEEP_NS_RETURN_U64" and rt: "ts_rights (task_at v i) = rights"
    and res: "spawn_task_start i kind arg0 rights (Some zero_token) v = ((Inr (), out), v')"
  shows "\<exists>tok os. out = Some tok \<and> names_task (w_broker v) (llam_broker_current_subject v) (task_at v i) tok \<and>
    v' = set_task i ((task_at v i)\<lparr>ts_result0 := task_result kind arg0, ts_error_code := E_OK, ts_state := STATE_COMPLETED\<rparr>) (v\<lparr>w_os := os\<rparr>)"
proof -
  obtain q out1 v1 where iss: "llam_broker_issue_object_cap v LLAM_BROKER_CAP_FAMILY_TASK (ts_id (task_at v i)) (ts_generation (task_at v i))
      rights (Some zero_token) = ((q, out1), v1)" by (metis prod.exhaust)
  note I = issue_cap_run [OF wf iss]
  obtain os where v1: "v1 = v\<lparr>w_os := os\<rparr>" using I(1) by blast
  have q: "q = Inr ()" using res iss by (cases q) (auto simp: spawn_task_start_def split: prod.splits)
  then have "out = out1 \<and> v' = set_task i ((task_at v i)\<lparr>ts_result0 := task_result kind arg0, ts_error_code := E_OK, ts_state := STATE_COMPLETED\<rparr>) (v\<lparr>w_os := os\<rparr>)"
    using res iss k(2) compute_result [OF k] by (simp add: spawn_task_start_def v1 store_result_def)
  moreover obtain tok where "out1 = Some tok" "names_task (w_broker v) (llam_broker_current_subject v) (task_at v i) tok"
    using I(2) q rt by (auto simp: names_task_def)
  ultimately show ?thesis by blast
qed

lemma spawn_quick_effect:
  assumes wf: "ops_wf w" "\<not> br_destroying (w_broker w)" and k: "kind \<noteq> LLAM_BROKER_TASK_KIND_SLEEP_NS_RETURN_U64"
    and res: "llam_broker_spawn_task w kind arg0 rights (Some t0) = ((Inr (), out), w')"
  shows "\<exists>i tok u. out = Some tok \<and> first_index (\<lambda>s. \<not> ts_active s) (br_tasks (w_broker w)) = Some i \<and> same_frame w' w \<and>
    w_broker w' = (w_broker w)\<lparr>br_next_task_id := br_next_task_id (w_broker w) + 1, br_tasks := (br_tasks (w_broker w))[i := quick_slot w kind arg0 rights]\<rparr> \<and>
    br_next_task_id (w_broker w) \<noteq> 0 \<and> br_next_task_id (w_broker w) \<noteq> UINT64_MAX \<and>
    names_task (w_broker w) (llam_broker_current_subject w) (quick_slot w kind arg0 rights) tok \<and>
    llam_broker_begin_op_subject w 0 = (Inr (), u)"
proof -
  have kv: "llam_broker_task_kind_valid kind"
    and run: "with_op_subject 0 (\<lambda>e. (Inl e, Some zero_token)) (spawn_task_body kind arg0 rights (Some zero_token)) w = ((Inr (), out), w')"
    using spawn_runs [OF res] by auto
  obtain b u where bg: "llam_broker_begin_op_subject w 0 = (b, u)" by fastforce
  then have b: "b = Inr ()" using run by (cases b) (auto simp: with_op_subject_def)
  note E = begin_op_ok [OF wf(1) bg [unfolded b]]
  note O = entered_open [OF E(1)] and F = entered_fields [OF E(1)]
  obtain u' where u': "spawn_task_body kind arg0 rights (Some zero_token) u = ((Inr (), out), u')" "w' = llam_broker_end_op u'"
    using run bg b by (auto simp: with_op_subject_def split: prod.splits)
  note fr = spawn_body_effect(1) [OF E(1) wf(2) u'(1)]
  have w': "w' = left_op (w_tls w) u'" using E(2) fr u'(2) by simp
  obtain q v where q: "with_lock Inl (spawn_task_locked kind arg0 rights) u = (q, v)" by fastforce
  obtain i where i: "q = Inr i" "spawn_task_start i kind arg0 rights (Some zero_token) v = ((Inr (), out), u')"
    using u'(1) q by (cases q) (auto simp: spawn_task_body_def)
  obtain x where x: "spawn_task_locked kind arg0 rights (upd_broker (\<lambda>b. b\<lparr>br_lock := Locked\<rparr>) u) = (Inr i, x)"
      "v = upd_broker (\<lambda>b. b\<lparr>br_lock := Unlocked\<rparr>) x" "same_frame v u"
    using with_lock_run [OF spawn_locked_frame O(1,2) q] i(1) by blast
  note S = spawn_locked_cases [OF x(1), simplified]
  have fi: "first_index (\<lambda>s. \<not> ts_active s) (br_tasks (w_broker w)) = Some i" and
    nx: "br_next_task_id (w_broker w) \<noteq> 0" "br_next_task_id (w_broker w) \<noteq> UINT64_MAX" using S F(1) by simp_all
  have il: "i < length (br_tasks (w_broker w))" using fi by (auto dest: first_index_SomeD)
  have sub: "llam_broker_current_subject u = llam_broker_current_subject w" "llam_broker_current_subject v = llam_broker_current_subject w"
    using E(1) same_frame_subject [OF x(3)] by (simp_all add: entered_def)
  have vb: "w_broker v = (w_broker u)\<lparr>br_next_task_id := br_next_task_id (w_broker w) + 1, br_tasks := (br_tasks (w_broker w))[i :=
      (quick_slot w kind arg0 rights)\<lparr>ts_state := STATE_SPAWNED, ts_result0 := 0\<rparr>]\<rparr>"
    using S x(2) O(3) sub F by (simp add: quick_slot_def subject_broker_irrelevant zero_task_slot_def)
  have v: "ops_wf v" "\<not> br_destroying (w_broker v)" "ts_rights (task_at v i) = rights"
    using same_frame_ops_wf [OF x(3) O(1)] wf(2) il by (simp_all add: vb F(1)) (simp add: quick_slot_def)
  from spawn_start_quick [OF v(1,2) kv k v(3) i(2)] obtain tok os where t: "out = Some tok"
      "names_task (w_broker v) (llam_broker_current_subject v) (task_at v i) tok"
      "u' = set_task i ((task_at v i)\<lparr>ts_result0 := task_result kind arg0, ts_error_code := E_OK, ts_state := STATE_COMPLETED\<rparr>) (v\<lparr>w_os := os\<rparr>)" by blast
  have "w_broker w' = (w_broker w)\<lparr>br_next_task_id := br_next_task_id (w_broker w) + 1, br_tasks := (br_tasks (w_broker w))[i := quick_slot w kind arg0 rights]\<rparr>"
    using il by (simp add: w' t(3) vb F(1)) (simp add: quick_slot_def zero_task_slot_def)
  moreover have "names_task (w_broker w) (llam_broker_current_subject w) (quick_slot w kind arg0 rights) tok"
    using t(2) il sub by (simp add: names_task_def vb F(1) quick_slot_def)
  moreover have "same_frame w' w" unfolding w' by (rule left_op_frame(1) [OF wf(1) E(1) fr])
  ultimately show ?thesis using t(1) fi nx bg b by blast
qed

lemma find_named_task:
  assumes ch: "br_channels (w_broker u) \<noteq> None" and wf: "tasks_wf (w_broker u)" and i: "i < length (br_tasks (w_broker u))" "ts_active (task_at u i)"
    and n: "names_task (w_broker u) (llam_broker_current_subject u) (task_at u i) tok"
    and r: "required \<noteq> 0" "ts_rights (task_at u i) AND required = required"
  shows "llam_broker_find_task u (Some tok) required = Inr i"
proof -
  have "(LLAM_BROKER_CAP_FAMILY_TASK, ts_id (task_at u i), ts_generation (task_at u i), ts_rights (task_at u i)) \<in> live_objects (w_broker u)"
    using i by (auto simp: live_objects_iff)
  then have "authorises (w_broker u) (llam_broker_current_subject u) tok required"
    using n r by (auto simp: names_task_def authorises_def validate_subject_ok_iff)
  then have v: "llam_broker_validate_token_family_unlocked u (Some tok) LLAM_BROKER_CAP_FAMILY_TASK required = Inr ()"
    using validate_token_family_iff [OF ch, of "Some tok"] n by (auto simp: names_task_def)
  have "first_index (\<lambda>s. ts_active s \<and> ts_id s = tk_slot tok \<and> ts_generation s = tk_generation tok) (br_tasks (w_broker u)) = Some i"
    using tsk.scan_unique [of _ _ i] wf i n unfolding tasks_wf_def tsk.scan_def names_task_def by auto
  then show ?thesis using v r(2) by (simp add: llam_broker_find_task_def)
qed

lemma join_named_task:
  assumes wf: "ops_wf w" "\<not> br_destroying (w_broker w)" "tasks_wf (w_broker w)" and ch: "br_channels (w_broker w) \<noteq> None"
    and i: "i < length (br_tasks (w_broker w))" "ts_active (task_at w i)"
    and n: "names_task (w_broker w) (llam_broker_current_subject w) (task_at w i) tok"
    and s: "ts_state (task_at w i) = STATE_COMPLETED" "ts_task (task_at w i) = 0" "ts_error_code (task_at w i) = E_OK"
    and r: "ts_rights (task_at w i) AND LLAM_CAP_RIGHT_JOIN = LLAM_CAP_RIGHT_JOIN"
    and b: "llam_broker_begin_op_subject w 0 = (Inr (), u)"
  shows "\<exists>w'. llam_broker_join_task w (Some tok) (Some z) = ((Inr (), Some (ts_result0 (task_at w i))), w') \<and> same_frame w' w \<and>
    w_broker w' = (w_broker w)\<lparr>br_tasks := (br_tasks (w_broker w))[i := zero_task_slot]\<rparr>"
proof -
  note E = begin_op_ok [OF wf(1) b]
  note O = entered_open [OF E(1)] and F = entered_fields [OF E(1)]
  let ?l = "upd_broker (\<lambda>b. b\<lparr>br_lock := Locked\<rparr>) u"
  have sub: "llam_broker_current_subject ?l = llam_broker_current_subject w"
    using E(1) by (simp add: entered_def subject_broker_irrelevant)
  have "LLAM_CAP_RIGHT_JOIN \<noteq> 0" by (simp add: LLAM_CAP_RIGHT_JOIN_def)
  from find_named_task [OF _ _ _ _ _ this, of ?l i tok]
  have f: "llam_broker_find_task ?l (Some tok) LLAM_CAP_RIGHT_JOIN = Inr i"
    using ch wf(3) i n r sub by (simp add: F(1) tasks_wf_def names_task_def)
  define v where "v = set_task i zero_task_slot u"
  have "with_lock Inl (join_task_locked (Some tok)) u = (Inr (0, ts_result0 (task_at w i), E_OK), v)"
    using O(2,3) f s unfolding with_lock_def
    by (simp add: lock_free join_task_locked_def join_slot_def F(1) unlock_held set_task_def v_def)
  moreover have "same_frame v u" by (simp add: v_def)
  then have "llam_broker_end_op v = left_op (w_tls w) v" "same_frame (left_op (w_tls w) v) w"
    using E(2) left_op_frame(1) [OF wf(1) E(1)] by simp_all
  ultimately have "llam_broker_join_task w (Some tok) (Some z) = ((Inr (), Some (ts_result0 (task_at w i))), left_op (w_tls w) v)"
      "same_frame (left_op (w_tls w) v) w"
    using b by (simp_all add: llam_broker_join_task_def with_op_def with_op_subject_def join_task_finish_def)
  moreover have "w_broker (left_op (w_tls w) v) = (w_broker w)\<lparr>br_tasks := (br_tasks (w_broker w))[i := zero_task_slot]\<rparr>"
    by (simp add: v_def F(1))
  ultimately show ?thesis by blast
qed

lemma join_dead_task:
  assumes wf: "ops_wf w" and dead: "\<forall>s\<in>set (br_tasks (w_broker w)). ts_active s \<longrightarrow> ts_id s \<noteq> tk_slot tok"
  shows "isl (fst (fst (llam_broker_join_task w (Some tok) (Some z))))"
proof (cases "llam_broker_begin_op_subject w 0")
  case (Pair b u)
  show ?thesis
  proof (cases b)
    case (Inl e)
    then show ?thesis using Pair by (simp add: llam_broker_join_task_def with_op_def with_op_subject_def)
  next
    case (Inr x)
    have "llam_broker_begin_op_subject w 0 = (Inr (), u)" using Pair Inr by simp
    note E = begin_op_ok [OF wf this]
    note O = entered_open [OF E(1)] and F = entered_fields [OF E(1)]
    let ?l = "upd_broker (\<lambda>b. b\<lparr>br_lock := Locked\<rparr>) u"
    have "first_index (\<lambda>s. ts_active s \<and> ts_id s = tk_slot tok \<and> ts_generation s = tk_generation tok) (br_tasks (w_broker w)) = None"
      using dead by auto
    then obtain e where "llam_broker_find_task ?l (Some tok) LLAM_CAP_RIGHT_JOIN = Inl e"
      by (cases "llam_broker_validate_token_family_unlocked ?l (Some tok) LLAM_BROKER_CAP_FAMILY_TASK LLAM_CAP_RIGHT_JOIN")
        (auto simp: llam_broker_find_task_def F(1) simp del: first_index_None)
    then have "join_task_locked (Some tok) ?l = (Inl e, ?l)" by (simp add: join_task_locked_def)
    then show ?thesis using Pair Inr O(2,3)
      by (simp add: llam_broker_join_task_def with_op_def with_op_subject_def with_lock_def lock_free)
  qed
qed

text \<open>Spawning a quick command and joining it with the token that the spawn returned delivers the command's value,
  frees the slot and leaves the other tasks alone; the token is spent, a second join fails.\<close>

theorem spawn_join_roundtrip:
  assumes wf: "ops_wf w" "\<not> br_destroying (w_broker w)" "tasks_wf (w_broker w)" and ch: "br_channels (w_broker w) \<noteq> None"
    and k: "kind \<noteq> LLAM_BROKER_TASK_KIND_SLEEP_NS_RETURN_U64" and r: "rights AND LLAM_CAP_RIGHT_JOIN = LLAM_CAP_RIGHT_JOIN"
  shows "case llam_broker_spawn_task w kind arg0 rights (Some t0) of
      ((Inl _, _), _) \<Rightarrow> True
    | ((Inr _, out), w1) \<Rightarrow>
        (case llam_broker_join_task w1 out (Some z) of
           (res, w2) \<Rightarrow> res = (Inr (), Some (task_result kind arg0)) \<and> tasks_wf (w_broker w2) \<and>
             {s \<in> set (br_tasks (w_broker w2)). ts_active s} = {s \<in> set (br_tasks (w_broker w)). ts_active s} \<and>
             isl (fst (fst (llam_broker_join_task w2 out (Some z)))))"
proof -
  obtain q out w1 where sp: "llam_broker_spawn_task w kind arg0 rights (Some t0) = ((q, out), w1)" by (metis prod.exhaust)
  show ?thesis
  proof (cases q)
    case (Inr y)
    let ?s = "quick_slot w kind arg0 rights" and ?n = "br_next_task_id (w_broker w)" and ?ts = "br_tasks (w_broker w)"
    have sp': "llam_broker_spawn_task w kind arg0 rights (Some t0) = ((Inr (), out), w1)" using sp Inr by simp
    obtain i tok u where e: "out = Some tok" "first_index (\<lambda>s. \<not> ts_active s) ?ts = Some i" "same_frame w1 w"
      "w_broker w1 = (w_broker w)\<lparr>br_next_task_id := ?n + 1, br_tasks := ?ts[i := ?s]\<rparr>" "?n \<noteq> 0" "?n \<noteq> UINT64_MAX"
      "names_task (w_broker w) (llam_broker_current_subject w) ?s tok" "llam_broker_begin_op_subject w 0 = (Inr (), u)"
      using spawn_quick_effect [OF wf(1,2) k sp'] by blast
    have i: "i < length ?ts" "\<not> ts_active (?ts ! i)" using first_index_SomeD [OF e(2)] by auto
    have s: "ts_active ?s" "ts_id ?s = ?n" "ts_generation ?s \<noteq> 0" "ts_state ?s = STATE_COMPLETED" "ts_task ?s = 0"
      "ts_error_code ?s = E_OK" "ts_rights ?s = rights" "ts_result0 ?s = task_result kind arg0"
      by (simp_all add: quick_slot_def zero_task_slot_def)
    have at: "task_at w1 i = ?s" "i < length (br_tasks (w_broker w1))" using i by (simp_all add: e(4))
    have n1: "tsk.numbered (?n + 1) (?ts[i := ?s])"
      using tsk.numbered_insert [OF wf(3) [unfolded tasks_wf_def] i(1) s(2,3) e(5,6)] .
    obtain u1 where b1: "llam_broker_begin_op_subject w1 0 = (Inr (), u1)" using begin_again [OF e(8,3)] by (auto simp: e(4))
    have "names_task (w_broker w1) (llam_broker_current_subject w1) (task_at w1 i) tok"
      using e(7) same_frame_subject [OF e(3)] i(1) by (simp add: names_task_def e(4))
    from join_named_task [OF same_frame_ops_wf [OF e(3) wf(1)] _ _ _ at(2) _ this _ _ _ _ b1, of z]
    obtain w2 where w2: "llam_broker_join_task w1 (Some tok) (Some z) = ((Inr (), Some (task_result kind arg0)), w2)" "same_frame w2 w1"
      "w_broker w2 = (w_broker w1)\<lparr>br_tasks := (br_tasks (w_broker w1))[i := zero_task_slot]\<rparr>"
      using wf(2) ch s r n1 unfolding at by (auto simp: e(4) tasks_wf_def)
    have t2: "br_tasks (w_broker w2) = ?ts[i := zero_task_slot]" "br_next_task_id (w_broker w2) = ?n + 1" by (simp_all add: w2(3) e(4))
    have "tasks_wf (w_broker w2)"
      unfolding tasks_wf_def t2 using tsk.numbered_clear [OF n1, of i] by simp
    moreover have act: "{s \<in> set (br_tasks (w_broker w2)). ts_active s} = {s \<in> set ?ts. ts_active s}"
      using i by (auto simp: t2 set_conv_nth nth_list_update split: if_splits)
    moreover have "ts_id x \<noteq> ?n" if "x \<in> set (br_tasks (w_broker w2))" "ts_active x" for x
      using that act wf(3) by (auto simp: tasks_wf_def tsk.numbered_def)
    then have "isl (fst (fst (llam_broker_join_task w2 (Some tok) (Some z))))"
      using join_dead_task [OF same_frame_ops_wf [OF w2(2) same_frame_ops_wf [OF e(3) wf(1)]], of tok z] e(7) s(2) by (auto simp: names_task_def)
    ultimately show ?thesis using sp Inr e(1) w2(1) by simp
  qed (simp add: sp)
qed

theorem spawn_join_roundtrip_witness:
  "case llam_broker_spawn_task example_world LLAM_BROKER_TASK_KIND_POPCOUNT_U64 255 LLAM_CAP_RIGHT_JOIN (Some zero_token) of
      ((Inl _, _), _) \<Rightarrow> True
    | ((Inr _, out), w1) \<Rightarrow> fst (llam_broker_join_task w1 out (Some 0)) = (Inr (), Some (task_result LLAM_BROKER_TASK_KIND_POPCOUNT_U64 255))"
proof -
  have "tasks_wf (w_broker example_world)"
    unfolding tasks_wf_def using tsk.numbered_all_cleared by (simp add: example_tls example_broker_def zero_broker_def)
  from spawn_join_roundtrip [OF example_world_wf example_buffers_wf(3) this example_buffers_wf(2), of LLAM_BROKER_TASK_KIND_POPCOUNT_U64
      LLAM_CAP_RIGHT_JOIN 255 0 zero_token]
  show ?thesis by (simp add: kind_defs split: prod.splits sum.splits)
qed

end
