(* ===== verification/Broker_Revoke.thy ===== *)
theory Broker_Revoke
  imports Broker_Task
begin

text \<open>
  Revocation of one object (\<^verbatim>\<open>core/broker/broker_revoke.c\<close>): the generation of the slot is advanced, which retires every
  token for the object, and the caller gets one replacement. The theory shows that a failed revocation changes
  nothing and that after a successful one only the new generation has authority.
\<close>

section \<open>Rotation\<close>

definition llam_broker_reissue_rotated_cap_unlocked ::
    "u32 \<Rightarrow> u64 \<Rightarrow> u64 \<Rightarrow> u64 \<Rightarrow> u64 \<Rightarrow> capability_token option \<Rightarrow> world \<Rightarrow> (unit result \<times> capability_token option) \<times> world" where
  "llam_broker_reissue_rotated_cap_unlocked family ident generation authority_rights replacement_rights out_token w =
     (if out_token = None \<or> replacement_rights = 0 then ((Inl EINVAL, out_token), w)
      else if authority_rights AND replacement_rights \<noteq> replacement_rights then ((Inl EACCES, out_token), w)
      else llam_broker_issue_object_cap_unlocked w family ident generation replacement_rights out_token)"

definition llam_broker_prepare_rotated_cap_unlocked ::
    "u32 \<Rightarrow> u64 \<Rightarrow> u64 \<Rightarrow> u64 \<Rightarrow> u64 \<Rightarrow> capability_token option \<Rightarrow> world \<Rightarrow> (u64 result \<times> capability_token option) \<times> world" where
  "llam_broker_prepare_rotated_cap_unlocked family ident current_generation authority_rights replacement_rights out_token w =
     (if current_generation = UINT64_MAX then ((Inl EOVERFLOW, out_token), w)
      else let next_generation = current_generation + 1 in
        (case llam_broker_reissue_rotated_cap_unlocked family ident next_generation authority_rights replacement_rights out_token w of
           ((Inl e, out), w) \<Rightarrow> ((Inl e, out), w)
         | ((Inr _, out), w) \<Rightarrow> ((Inr next_generation, out), w)))"

definition llam_broker_revoke_buffer_unlocked ::
    "capability_token \<Rightarrow> u64 \<Rightarrow> capability_token option \<Rightarrow> world \<Rightarrow> (unit result \<times> capability_token option) \<times> world" where
  "llam_broker_revoke_buffer_unlocked token replacement_rights out_token w =
     (case llam_broker_find_buffer_unlocked w (Some token) LLAM_CAP_RIGHT_DESTROY of
        Inl e \<Rightarrow> ((Inl e, out_token), w)
      | Inr i \<Rightarrow>
          let slot = br_buffers (w_broker w) ! i in
          (case llam_broker_prepare_rotated_cap_unlocked (tk_family token) (bs_id slot) (bs_generation slot) (tk_rights token)
                  replacement_rights out_token w of
             ((Inl e, out), w) \<Rightarrow> ((Inl e, out), w)
           | ((Inr next_generation, out), w) \<Rightarrow>
               ((Inr (), out), upd_broker (\<lambda>b. b\<lparr>br_buffers := (br_buffers b)[i := (br_buffers b ! i)\<lparr>bs_generation := next_generation,
                  bs_rights := replacement_rights\<rparr>]\<rparr>) w)))"

definition llam_broker_revoke_descriptor_unlocked ::
    "capability_token \<Rightarrow> u64 \<Rightarrow> capability_token option \<Rightarrow> world \<Rightarrow> (unit result \<times> capability_token option) \<times> world" where
  "llam_broker_revoke_descriptor_unlocked token replacement_rights out_token w =
     (if tk_family token \<noteq> LLAM_BROKER_CAP_FAMILY_DESCRIPTOR then ((Inl EACCES, out_token), w)
      else (case first_index (\<lambda>s. ds_active s \<and> ds_id s = tk_slot token \<and> ds_generation s = tk_generation token)
                   (br_descriptors (w_broker w)) of
              None \<Rightarrow> ((Inl EACCES, out_token), w)
            | Some i \<Rightarrow>
                let slot = br_descriptors (w_broker w) ! i in
                if ds_rights slot AND LLAM_CAP_RIGHT_DESTROY = 0 then ((Inl EACCES, out_token), w)
                else (case llam_broker_prepare_rotated_cap_unlocked (tk_family token) (ds_id slot) (ds_generation slot) (tk_rights token)
                             replacement_rights out_token w of
                        ((Inl e, out), w) \<Rightarrow> ((Inl e, out), w)
                      | ((Inr next_generation, out), w) \<Rightarrow>
                          ((Inr (), out), upd_broker (\<lambda>b. b\<lparr>br_descriptors := (br_descriptors b)[i := (br_descriptors b ! i)\<lparr>
                             ds_generation := next_generation, ds_rights := replacement_rights\<rparr>]\<rparr>) w))))"

definition llam_broker_revoke_channel_unlocked ::
    "capability_token \<Rightarrow> u64 \<Rightarrow> capability_token option \<Rightarrow> world \<Rightarrow> (unit result \<times> capability_token option) \<times> world" where
  "llam_broker_revoke_channel_unlocked token replacement_rights out_token w =
     (case llam_broker_find_channel_unlocked w (Some token) LLAM_CAP_RIGHT_DESTROY of
        Inl e \<Rightarrow> ((Inl e, out_token), w)
      | Inr i \<Rightarrow>
          let slot = channel_at w i in
          (case llam_broker_prepare_rotated_cap_unlocked (tk_family token) (cs_id slot) (cs_generation slot) (tk_rights token)
                  replacement_rights out_token w of
             ((Inl e, out), w) \<Rightarrow> ((Inl e, out), w)
           | ((Inr next_generation, out), w) \<Rightarrow>
               ((Inr (), out), set_channel i ((channel_at w i)\<lparr>cs_generation := next_generation, cs_rights := replacement_rights\<rparr>) w)))"

text \<open>The dispatch on the family; the replacement reaches the caller only on success.\<close>

definition revoke_dispatch ::
    "capability_token \<Rightarrow> u64 \<Rightarrow> capability_token option \<Rightarrow> world \<Rightarrow> (unit result \<times> capability_token option) \<times> world" where
  "revoke_dispatch source replacement_rights replacement w =
     (if tk_family source = LLAM_BROKER_CAP_FAMILY_BUFFER then llam_broker_revoke_buffer_unlocked source replacement_rights replacement w
      else if tk_family source = LLAM_BROKER_CAP_FAMILY_DESCRIPTOR then llam_broker_revoke_descriptor_unlocked source replacement_rights replacement w
      else if tk_family source = LLAM_BROKER_CAP_FAMILY_CHANNEL then llam_broker_revoke_channel_unlocked source replacement_rights replacement w
      else ((Inl EINVAL, replacement), w))"

definition revoke_object_locked :: "capability_token \<Rightarrow> u64 \<Rightarrow> world \<Rightarrow> (unit result \<times> capability_token option) \<times> world" where
  "revoke_object_locked source replacement_rights w =
     (case llam_broker_validate_cap_unlocked w (Some source) LLAM_CAP_RIGHT_DESTROY of
        Inl e \<Rightarrow> ((Inl e, Some zero_token), w)
      | Inr _ \<Rightarrow>
          (case revoke_dispatch source replacement_rights (Some zero_token) w of
             ((Inl e, _), w) \<Rightarrow> ((Inl e, Some zero_token), w)
           | ((Inr _, replacement), w) \<Rightarrow> ((Inr (), replacement), w)))"

definition llam_broker_revoke_object_cap ::
    "world \<Rightarrow> capability_token option \<Rightarrow> u64 \<Rightarrow> capability_token option \<Rightarrow> (unit result \<times> capability_token option) \<times> world" where
  "llam_broker_revoke_object_cap w token replacement_rights out_token =
     (if out_token = None then ((Inl EINVAL, None), w)
      else if token = None \<or> replacement_rights = 0 then ((Inl EINVAL, Some zero_token), w)
      else locked_op (\<lambda>e. (Inl e, Some zero_token)) (revoke_object_locked (the token) replacement_rights) w)"

section \<open>Rotating a numbered table\<close>

context object_table
begin

lemma rotated_gone:
  assumes "numbered next ss" "k < length ss" "active (ss ! k)" "gen s \<noteq> gen (ss ! k)"
    and "x \<in> set (ss[k := s])" "active x" "ident x = ident (ss ! k)"
  shows "gen x \<noteq> gen (ss ! k)"
proof -
  obtain m where m: "m < length ss" "x = ss[k := s] ! m" using assms(5) by (auto simp: in_set_conv_nth)
  show ?thesis
  proof (cases "m = k")
    case False
    then show ?thesis using numbered_unique [OF assms(1) m(1) assms(2)] assms m by simp
  qed (use m assms in simp)
qed

end

interpretation dsc: object_table ds_active ds_id ds_generation ds_rights "zero_descriptor_slot\<lparr>ds_fd := -1\<rparr>"
  by unfold_locales (simp add: zero_descriptor_slot_def)

definition tables_wf :: "broker \<Rightarrow> bool" where
  "tables_wf b \<longleftrightarrow> buf.numbered (br_next_buffer_id b) (br_buffers b) \<and> dsc.numbered (br_next_descriptor_id b) (br_descriptors b) \<and>
     (\<exists>cs. br_channels b = Some cs \<and> chan.numbered (br_next_channel_id b) cs)"

lemma prepare_rotated:
  assumes "llam_broker_prepare_rotated_cap_unlocked f ident g authority replacement (Some t0) w = ((r, out), w')"
  shows "\<exists>os. w' = w\<lparr>w_os := os\<rparr>"
    "case r of Inl _ \<Rightarrow> True | Inr h \<Rightarrow> h \<noteq> g \<and> h \<noteq> 0 \<and> authority AND replacement = replacement \<and> replacement \<noteq> 0 \<and>
       (\<exists>tok. out = Some tok \<and> br_runtime (w_broker w) = Some (tk_runtime_id tok) \<and> br_initialized (w_broker w) \<and>
         tk_family tok = f \<and> tk_slot tok = ident \<and> tk_generation tok = h \<and> tk_rights tok = replacement \<and>
         llam_capability_validate_subject (br_capability_key (w_broker w)) (Some tok) replacement
           (br_revocation_epoch (w_broker w)) (llam_broker_current_subject w) = Inr ())"
proof -
  obtain q o1 w1 where iss: "llam_broker_issue_object_cap_unlocked w f ident (g + 1) replacement (Some t0) = ((q, o1), w1)" by (metis prod.exhaust)
  note I = issue_unlocked_cases [OF iss]
  show "\<exists>os. w' = w\<lparr>w_os := os\<rparr>"
    using assms iss I(1) by (cases q) (auto simp: llam_broker_prepare_rotated_cap_unlocked_def llam_broker_reissue_rotated_cap_unlocked_def Let_def
        split: if_splits intro: exI [of _ "w_os w"])
  show "case r of Inl _ \<Rightarrow> True | Inr h \<Rightarrow> h \<noteq> g \<and> h \<noteq> 0 \<and> authority AND replacement = replacement \<and> replacement \<noteq> 0 \<and>
       (\<exists>tok. out = Some tok \<and> br_runtime (w_broker w) = Some (tk_runtime_id tok) \<and> br_initialized (w_broker w) \<and>
         tk_family tok = f \<and> tk_slot tok = ident \<and> tk_generation tok = h \<and> tk_rights tok = replacement \<and>
         llam_capability_validate_subject (br_capability_key (w_broker w)) (Some tok) replacement
           (br_revocation_epoch (w_broker w)) (llam_broker_current_subject w) = Inr ())"
  proof (cases r)
    case (Inr h)
    have "h = g + 1 \<and> g \<noteq> UINT64_MAX \<and> authority AND replacement = replacement \<and> replacement \<noteq> 0 \<and> q = Inr () \<and> out = o1"
      using assms iss Inr by (cases q) (auto simp: llam_broker_prepare_rotated_cap_unlocked_def llam_broker_reissue_rotated_cap_unlocked_def Let_def
        split: if_splits)
    moreover from this have "\<exists>tok. o1 = Some tok \<and> br_runtime (w_broker w) = Some (tk_runtime_id tok) \<and> br_initialized (w_broker w) \<and>
         tk_family tok = f \<and> tk_slot tok = ident \<and> tk_generation tok = g + 1 \<and> tk_rights tok = replacement \<and>
         llam_capability_validate_subject (br_capability_key (w_broker w)) (Some tok) replacement
           (br_revocation_epoch (w_broker w)) (llam_broker_current_subject w) = Inr ()"
      using I(2) by auto
    ultimately show ?thesis using Inr by (auto simp: add_eq_0_iff2)
  qed simp
qed

text \<open>What a rotation of one object achieves.\<close>

definition rotated :: "broker \<Rightarrow> u64 \<Rightarrow> capability_token \<Rightarrow> u64 \<Rightarrow> capability_token \<Rightarrow> bool" where
  "rotated b subject tok replacement new \<longleftrightarrow> tables_wf b \<and> tk_family new = tk_family tok \<and> tk_slot new = tk_slot tok \<and>
     tk_rights new = replacement \<and> tk_rights tok AND replacement = replacement \<and> authorises b subject new replacement \<and>
     (\<forall>rights. (tk_family tok, tk_slot tok, tk_generation tok, rights) \<notin> live_objects b)"

lemma tables_wf_frame [simp]:
  "tables_wf (b\<lparr>br_active_ops := n\<rparr>) = tables_wf b" "tables_wf (b\<lparr>br_lock := l\<rparr>) = tables_wf b"
  by (simp_all add: tables_wf_def)

lemma rotated_frame [simp]:
  "rotated (b\<lparr>br_active_ops := n\<rparr>) s tok q new = rotated b s tok q new" "rotated (b\<lparr>br_lock := l\<rparr>) s tok q new = rotated b s tok q new"
  by (simp_all add: rotated_def)

lemma rotatedI:
  assumes prep: "llam_broker_prepare_rotated_cap_unlocked (tk_family tok) (tk_slot tok) (tk_generation tok) (tk_rights tok) replacement (Some t0) u
      = ((Inr h, out), u1)"
    and same: "br_runtime b = br_runtime (w_broker u)" "br_initialized b = br_initialized (w_broker u)"
      "br_capability_key b = br_capability_key (w_broker u)" "br_revocation_epoch b = br_revocation_epoch (w_broker u)"
    and wf: "tables_wf b" and live: "(tk_family tok, tk_slot tok, h, replacement) \<in> live_objects b"
    and gone: "\<And>rights. (tk_family tok, tk_slot tok, tk_generation tok, rights) \<notin> live_objects b"
  shows "\<exists>new. out = Some new \<and> rotated b (llam_broker_current_subject u) tok replacement new"
proof -
  have "\<exists>rights. (tk_family tok, tk_slot tok, h, rights) \<in> live_objects b \<and> rights AND replacement = replacement"
    using live by (intro exI [of _ replacement]) simp
  then show ?thesis using prepare_rotated(2) [OF prep] same wf gone by (auto simp: rotated_def authorises_def validate_subject_ok_iff)
qed

lemma find_buffer_first:
  assumes "llam_broker_find_buffer_unlocked u (Some tok) q = Inr i"
  shows "i < length (br_buffers (w_broker u)) \<and> bs_active (br_buffers (w_broker u) ! i) \<and>
    bs_id (br_buffers (w_broker u) ! i) = tk_slot tok \<and> bs_generation (br_buffers (w_broker u) ! i) = tk_generation tok"
  using assms by (auto simp: llam_broker_find_buffer_unlocked_def simp del: first_index_None split: option.splits sum.splits if_splits
      dest: first_index_SomeD)

lemma find_channel_first:
  assumes "llam_broker_find_channel_unlocked u (Some tok) q = Inr i"
  shows "\<exists>cs. br_channels (w_broker u) = Some cs \<and> i < length cs \<and> cs_active (cs ! i) \<and>
    cs_id (cs ! i) = tk_slot tok \<and> cs_generation (cs ! i) = tk_generation tok"
  using assms by (auto simp: llam_broker_find_channel_unlocked_def simp del: first_index_None split: option.splits sum.splits if_splits
      dest: first_index_SomeD)

definition revoke_ok :: "(unit result \<times> capability_token option) \<times> world \<Rightarrow> capability_token \<Rightarrow> u64 \<Rightarrow> world \<Rightarrow> bool" where
  "revoke_ok res tok replacement u \<longleftrightarrow> (case res of ((r, out), u') \<Rightarrow> same_frame u' u \<and> w_log u' = w_log u \<and>
     (case r of Inl _ \<Rightarrow> w_broker u' = w_broker u
      | Inr _ \<Rightarrow> (\<exists>new. out = Some new \<and> rotated (w_broker u') (llam_broker_current_subject u) tok replacement new)))"

lemma revoke_buffer_ok:
  assumes wf: "tables_wf (w_broker u)" and fam: "tk_family tok = LLAM_BROKER_CAP_FAMILY_BUFFER"
  shows "revoke_ok (llam_broker_revoke_buffer_unlocked tok replacement (Some t0) u) tok replacement u"
proof (cases "llam_broker_find_buffer_unlocked u (Some tok) LLAM_CAP_RIGHT_DESTROY")
  case (Inl e)
  then show ?thesis by (simp add: revoke_ok_def llam_broker_revoke_buffer_unlocked_def)
next
  case (Inr i)
  let ?ss = "br_buffers (w_broker u)"
  note B = find_buffer_first [OF Inr]
  obtain q out u1 where p: "llam_broker_prepare_rotated_cap_unlocked (tk_family tok) (tk_slot tok) (tk_generation tok) (tk_rights tok)
      replacement (Some t0) u = ((q, out), u1)" by (metis prod.exhaust)
  obtain os where u1: "u1 = u\<lparr>w_os := os\<rparr>" using prepare_rotated(1) [OF p] by blast
  show ?thesis
  proof (cases q)
    case (Inl e)
    then show ?thesis using p B \<open>llam_broker_find_buffer_unlocked u _ _ = _\<close>
      by (simp add: revoke_ok_def llam_broker_revoke_buffer_unlocked_def Let_def u1 same_frame_def)
  next
    case q: (Inr h)
    note P = prepare_rotated(2) [OF p, unfolded q, simplified]
    define s where "s = (?ss ! i)\<lparr>bs_generation := h, bs_rights := replacement\<rparr>"
    define b where "b = (w_broker u)\<lparr>br_buffers := ?ss[i := s]\<rparr>"
    have res: "llam_broker_revoke_buffer_unlocked tok replacement (Some t0) u = ((Inr (), out), u1\<lparr>w_broker := b\<rparr>)"
      using p q B Inr by (simp add: llam_broker_revoke_buffer_unlocked_def Let_def u1 b_def s_def)
    have n: "buf.numbered (br_next_buffer_id (w_broker u)) ?ss" using wf by (simp add: tables_wf_def)
    have "\<exists>new. out = Some new \<and> rotated b (llam_broker_current_subject u) tok replacement new"
    proof (rule rotatedI [OF p [unfolded q]])
      show "tables_wf b" using wf buf.numbered_modify [OF n, of i s] B P by (simp add: tables_wf_def b_def s_def)
      show "(tk_family tok, tk_slot tok, h, replacement) \<in> live_objects b"
        using live_buffer [of i b] B by (simp add: fam b_def s_def)
      show "(tk_family tok, tk_slot tok, tk_generation tok, rights) \<notin> live_objects b" for rights
        using buf.rotated_gone [OF n, of i s] B P by (auto simp: fam live_objects_iff b_def s_def)
    qed (simp_all add: b_def)
    then show ?thesis by (simp add: revoke_ok_def res u1 b_def same_frame_def)
  qed
qed

lemma revoke_descriptor_ok:
  assumes wf: "tables_wf (w_broker u)"
  shows "revoke_ok (llam_broker_revoke_descriptor_unlocked tok replacement (Some t0) u) tok replacement u"
proof (cases "tk_family tok = LLAM_BROKER_CAP_FAMILY_DESCRIPTOR \<and> (\<exists>i. first_index (\<lambda>s. ds_active s \<and> ds_id s = tk_slot tok \<and>
    ds_generation s = tk_generation tok) (br_descriptors (w_broker u)) = Some i \<and> ds_rights (br_descriptors (w_broker u) ! i) AND LLAM_CAP_RIGHT_DESTROY \<noteq> 0)")
  case False
  then show ?thesis
    by (auto simp: revoke_ok_def llam_broker_revoke_descriptor_unlocked_def Let_def simp del: first_index_None split: option.splits)
next
  case True
  let ?ss = "br_descriptors (w_broker u)"
  obtain i where fam: "tk_family tok = LLAM_BROKER_CAP_FAMILY_DESCRIPTOR" and
    i: "first_index (\<lambda>s. ds_active s \<and> ds_id s = tk_slot tok \<and> ds_generation s = tk_generation tok) ?ss = Some i"
      "ds_rights (?ss ! i) AND LLAM_CAP_RIGHT_DESTROY \<noteq> 0" using True by blast
  note B = first_index_SomeD [OF i(1)]
  obtain q out u1 where p: "llam_broker_prepare_rotated_cap_unlocked (tk_family tok) (tk_slot tok) (tk_generation tok) (tk_rights tok)
      replacement (Some t0) u = ((q, out), u1)" by (metis prod.exhaust)
  obtain os where u1: "u1 = u\<lparr>w_os := os\<rparr>" using prepare_rotated(1) [OF p] by blast
  show ?thesis
  proof (cases q)
    case (Inl e)
    then show ?thesis using p B i fam
      by (simp add: revoke_ok_def llam_broker_revoke_descriptor_unlocked_def Let_def u1 same_frame_def)
  next
    case q: (Inr h)
    note P = prepare_rotated(2) [OF p, unfolded q, simplified]
    define s where "s = (?ss ! i)\<lparr>ds_generation := h, ds_rights := replacement\<rparr>"
    define b where "b = (w_broker u)\<lparr>br_descriptors := ?ss[i := s]\<rparr>"
    have res: "llam_broker_revoke_descriptor_unlocked tok replacement (Some t0) u = ((Inr (), out), u1\<lparr>w_broker := b\<rparr>)"
      using p q B i fam by (simp add: llam_broker_revoke_descriptor_unlocked_def Let_def u1 b_def s_def)
    have n: "dsc.numbered (br_next_descriptor_id (w_broker u)) ?ss" using wf by (simp add: tables_wf_def)
    have "\<exists>new. out = Some new \<and> rotated b (llam_broker_current_subject u) tok replacement new"
    proof (rule rotatedI [OF p [unfolded q]])
      show "tables_wf b" using wf dsc.numbered_modify [OF n, of i s] B P by (simp add: tables_wf_def b_def s_def)
      have "s \<in> set (br_descriptors b)" using B by (simp add: b_def set_update_memI)
      then show "(tk_family tok, tk_slot tok, h, replacement) \<in> live_objects b"
        using B by (auto simp: fam live_objects_iff s_def intro!: bexI [of _ s])
      show "(tk_family tok, tk_slot tok, tk_generation tok, rights) \<notin> live_objects b" for rights
        using dsc.rotated_gone [OF n, of i s] B P by (auto simp: fam live_objects_iff b_def s_def)
    qed (simp_all add: b_def)
    then show ?thesis by (simp add: revoke_ok_def res u1 b_def same_frame_def)
  qed
qed

lemma revoke_channel_ok:
  assumes wf: "tables_wf (w_broker u)" and fam: "tk_family tok = LLAM_BROKER_CAP_FAMILY_CHANNEL"
  shows "revoke_ok (llam_broker_revoke_channel_unlocked tok replacement (Some t0) u) tok replacement u"
proof (cases "llam_broker_find_channel_unlocked u (Some tok) LLAM_CAP_RIGHT_DESTROY")
  case (Inl e)
  then show ?thesis by (simp add: revoke_ok_def llam_broker_revoke_channel_unlocked_def)
next
  case (Inr i)
  obtain ss where B: "br_channels (w_broker u) = Some ss" "i < length ss" "cs_active (ss ! i)" "cs_id (ss ! i) = tk_slot tok"
    "cs_generation (ss ! i) = tk_generation tok" using find_channel_first [OF Inr] by blast
  obtain q out u1 where p: "llam_broker_prepare_rotated_cap_unlocked (tk_family tok) (tk_slot tok) (tk_generation tok) (tk_rights tok)
      replacement (Some t0) u = ((q, out), u1)" by (metis prod.exhaust)
  obtain os where u1: "u1 = u\<lparr>w_os := os\<rparr>" using prepare_rotated(1) [OF p] by blast
  show ?thesis
  proof (cases q)
    case (Inl e)
    then show ?thesis using p B \<open>llam_broker_find_channel_unlocked u _ _ = _\<close>
      by (simp add: revoke_ok_def llam_broker_revoke_channel_unlocked_def Let_def u1 same_frame_def)
  next
    case q: (Inr h)
    note P = prepare_rotated(2) [OF p, unfolded q, simplified]
    define s where "s = (ss ! i)\<lparr>cs_generation := h, cs_rights := replacement\<rparr>"
    define b where "b = (w_broker u)\<lparr>br_channels := Some (ss[i := s])\<rparr>"
    have res: "llam_broker_revoke_channel_unlocked tok replacement (Some t0) u = ((Inr (), out), u1\<lparr>w_broker := b\<rparr>)"
      using p q B Inr by (simp add: llam_broker_revoke_channel_unlocked_def Let_def u1 b_def s_def set_channel_def)
    have n: "chan.numbered (br_next_channel_id (w_broker u)) ss" using wf B(1) by (simp add: tables_wf_def)
    have "\<exists>new. out = Some new \<and> rotated b (llam_broker_current_subject u) tok replacement new"
    proof (rule rotatedI [OF p [unfolded q]])
      show "tables_wf b" using wf chan.numbered_modify [OF n, of i s] B P by (simp add: tables_wf_def b_def s_def)
      have "s \<in> set (ss[i := s])" using B by (simp add: set_update_memI)
      then show "(tk_family tok, tk_slot tok, h, replacement) \<in> live_objects b"
        using B by (auto simp: fam live_objects_iff b_def s_def intro!: bexI [of _ s])
      show "(tk_family tok, tk_slot tok, tk_generation tok, rights) \<notin> live_objects b" for rights
        using chan.rotated_gone [OF n, of i s] B P by (auto simp: fam live_objects_iff b_def s_def)
    qed (simp_all add: b_def)
    then show ?thesis by (simp add: revoke_ok_def res u1 b_def same_frame_def)
  qed
qed

lemma revoke_dispatch_ok:
  assumes "tables_wf (w_broker u)"
  shows "revoke_ok (revoke_dispatch tok replacement (Some t0) u) tok replacement u"
  using revoke_buffer_ok [OF assms] revoke_descriptor_ok [OF assms] revoke_channel_ok [OF assms]
  by (auto simp: revoke_dispatch_def) (simp_all add: revoke_ok_def)

lemma revoke_locked_ok:
  assumes "tables_wf (w_broker u)" "revoke_object_locked tok replacement u = ((r, out), u')"
  shows "same_frame u' u \<and> w_log u' = w_log u \<and> (case r of Inl _ \<Rightarrow> w_broker u' = w_broker u \<and> out = Some zero_token
      | Inr _ \<Rightarrow> llam_broker_validate_cap_unlocked u (Some tok) LLAM_CAP_RIGHT_DESTROY = Inr () \<and>
          (\<exists>new. out = Some new \<and> rotated (w_broker u') (llam_broker_current_subject u) tok replacement new))"
proof (cases "llam_broker_validate_cap_unlocked u (Some tok) LLAM_CAP_RIGHT_DESTROY")
  case (Inl e)
  then have "((r, out), u') = ((Inl e, Some zero_token), u)" using assms(2) by (simp add: revoke_object_locked_def)
  then show ?thesis by simp
next
  case (Inr x)
  obtain q o1 v where d: "revoke_dispatch tok replacement (Some zero_token) u = ((q, o1), v)" by (metis prod.exhaust)
  note D = revoke_dispatch_ok [OF assms(1), of tok replacement zero_token, unfolded d]
  have eq: "((r, out), u') = (case q of Inl e \<Rightarrow> ((Inl e, Some zero_token), v) | Inr _ \<Rightarrow> ((Inr (), o1), v))"
    using assms(2) Inr by (simp add: revoke_object_locked_def d split: sum.splits)
  show ?thesis
  proof (cases q)
    case (Inl e)
    then show ?thesis using D eq by (simp add: revoke_ok_def)
  next
    case q: (Inr y)
    then have "r = Inr ()" "out = o1" "u' = v" using eq by simp_all
    then show ?thesis using D q Inr by (simp add: revoke_ok_def)
  qed
qed

lemma revoke_result:
  assumes wf: "ops_wf w" "tables_wf (w_broker w)"
    and res: "llam_broker_revoke_object_cap w (Some tok) replacement (Some t0) = ((r, out), w')"
  shows "ops_wf w' \<and> (case r of Inl _ \<Rightarrow> w_broker w' = w_broker w \<and> out = Some zero_token
    | Inr _ \<Rightarrow> authorises (w_broker w) (llam_broker_current_subject w) tok LLAM_CAP_RIGHT_DESTROY \<and> tables_wf (w_broker w') \<and>
        (\<exists>new. out = Some new \<and> tk_family new = tk_family tok \<and> tk_slot new = tk_slot tok \<and> tk_rights new = replacement \<and>
           tk_rights tok AND replacement = replacement \<and> authorises (w_broker w') (llam_broker_current_subject w) new replacement) \<and>
        (\<forall>old subject required. (tk_family old, tk_slot old, tk_generation old) = (tk_family tok, tk_slot tok, tk_generation tok) \<longrightarrow>
           \<not> authorises (w_broker w') subject old required))"
proof (cases "replacement = 0")
  case True
  then show ?thesis using res wf(1) by (auto simp: llam_broker_revoke_object_cap_def)
next
  case False
  have ch: "br_channels (w_broker w) \<noteq> None" using wf(2) by (auto simp: tables_wf_def)
  have lk: "br_lock (w_broker w) = Unlocked" using wf(1) by (simp add: ops_wf_def)
  have res': "locked_op (\<lambda>e. (Inl e, Some zero_token)) (revoke_object_locked tok replacement) w = ((r, out), w')"
    using res False by (simp add: llam_broker_revoke_object_cap_def)
  have tu: "tables_wf (w_broker u)" if "holding w u" for u using wf(2) by (simp add: holding_fields [OF that])
  show ?thesis
  proof (rule locked_op_cases [OF wf(1) res'], goal_cases)
    case (1 u q u')
    then show ?case using revoke_locked_ok [OF tu [OF 1(1)], of tok replacement] by (cases q) auto
  next
    case (2 e)
    then show ?case using wf(1) by auto
  next
    case (3 u u')
    note F = holding_fields [OF 3(1)]
    note R = revoke_locked_ok [OF tu [OF 3(1)] 3(2)]
    have w': "ops_wf w'" unfolding 3(4) by (rule released_frame(2) [OF wf(1) 3(1,3)])
    show ?case
    proof (cases r)
      case (Inl e)
      then have "w_broker u' = w_broker u" "out = Some zero_token" using R by simp_all
      then show ?thesis using Inl lk w' by (simp add: 3(4) F(1))
    next
      case (Inr x)
      obtain new where n: "out = Some new" "rotated (w_broker w') (llam_broker_current_subject w) tok replacement new"
        using R Inr F(8) by (auto simp: 3(4))
      have "authorises (w_broker w) (llam_broker_current_subject w) tok LLAM_CAP_RIGHT_DESTROY"
        using R Inr validate_cap_unlocked_iff [of u tok LLAM_CAP_RIGHT_DESTROY] ch F(8) by (simp add: F(1))
      then show ?thesis using n Inr w' by (auto simp: rotated_def authorises_def)
    qed
  qed
qed

text \<open>C30. Revoking an object is atomic and final. A failed call changes no table and returns no token. A successful one needs a token
  that authorises destruction, hands out one token for a subset of its rights that authorises exactly from now on, and
  leaves every token of the old generation, whoever holds it, without any authority.\<close>

theorem revoke_rotates_generation:
  assumes wf: "ops_wf w" "tables_wf (w_broker w)"
    and res: "llam_broker_revoke_object_cap w (Some tok) replacement (Some t0) = ((r, out), w')"
  shows "case r of Inl _ \<Rightarrow> w_broker w' = w_broker w \<and> out = Some zero_token
    | Inr _ \<Rightarrow> authorises (w_broker w) (llam_broker_current_subject w) tok LLAM_CAP_RIGHT_DESTROY \<and> tables_wf (w_broker w') \<and>
        (\<exists>new. out = Some new \<and> tk_family new = tk_family tok \<and> tk_slot new = tk_slot tok \<and> tk_rights new = replacement \<and>
           tk_rights tok AND replacement = replacement \<and> authorises (w_broker w') (llam_broker_current_subject w) new replacement) \<and>
        (\<forall>old subject required. (tk_family old, tk_slot old, tk_generation old) = (tk_family tok, tk_slot tok, tk_generation tok) \<longrightarrow>
           \<not> authorises (w_broker w') subject old required)"
  using revoke_result [OF assms] by blast

lemma example_tables_wf: "tables_wf (w_broker example_world)"
proof -
  have "dsc.numbered n (replicate m zero_descriptor_slot)" for n m
    by (auto simp: dsc.numbered_def zero_descriptor_slot_def inj_on_def)
  then show ?thesis using buf.numbered_all_cleared chan.numbered_all_cleared
    by (simp add: tables_wf_def example_tls example_broker_def zero_broker_def)
qed

theorem revoke_rotates_generation_witness:
  "snd (fst (llam_broker_revoke_object_cap example_world (Some zero_token) 1 (Some zero_token))) = Some zero_token \<and>
   w_broker (snd (llam_broker_revoke_object_cap example_world (Some zero_token) 1 (Some zero_token))) = w_broker example_world"
proof -
  obtain r out w' where x: "llam_broker_revoke_object_cap example_world (Some zero_token) 1 (Some zero_token) = ((r, out), w')"
    by (metis prod.exhaust)
  from revoke_rotates_generation [OF example_world_wf example_tables_wf x] show ?thesis
    unfolding x by (auto simp: zero_token_powerless split: sum.splits)
qed

end
