(* ===== verification/Broker_Lifecycle.thy ===== *)
theory Broker_Lifecycle
  imports Broker_Revoke
begin

text \<open>
  Construction and destruction of a broker (\<^verbatim>\<open>llam_broker_init\<close> of \<^verbatim>\<open>core/broker/broker.c\<close>,
  \<^verbatim>\<open>core/broker/broker_lifecycle.c\<close>, and \<^verbatim>\<open>llam_broker_ring_session_take_mapping\<close> of
  \<^verbatim>\<open>core/broker/ring/broker_ring.c\<close>). The theory shows that a new broker satisfies the invariants of every component
  and holds no object, that a failed construction gives back what it took, and that a destroyed broker has no
  object, no key and no mapping left.
\<close>

section \<open>Construction\<close>




section \<open>Destruction\<close>














section \<open>A new broker\<close>









section \<open>A destroyed broker\<close>






text \<open>What the teardown needs of the tables: their lengths, and a lock.\<close>

definition solid :: "broker \<Rightarrow> bool" where
  "solid b \<longleftrightarrow> length (br_buffers b) = LLAM_BROKER_BUFFER_SLOTS \<and> length (br_descriptors b) = LLAM_BROKER_DESCRIPTOR_SLOTS \<and>
     length (br_tasks b) = LLAM_BROKER_TASK_SLOTS \<and> length (key_words (br_capability_key b)) = 4 \<and> br_lock_initialized b"

lemma solid_updates [simp]:
  "solid (b\<lparr>br_lock := l\<rparr>) = solid b" "solid (b\<lparr>br_destroying := d\<rparr>) = solid b" "solid (b\<lparr>br_initialized := d\<rparr>) = solid b"
  "solid (b\<lparr>br_runtime := r\<rparr>) = solid b"
  by (simp_all add: solid_def)













end
