(* ===== verification/Timer_Heap.thy ===== *)
theory Timer_Heap
  imports LLAM_Prelude "HOL-Library.Multiset"
begin

text \<open>
  The timer heap of a processor (\<^verbatim>\<open>core/time/timer_heap.c\<close>): a four-way heap of timer nodes, ordered by deadline and task
  number, whose root the scheduler polls. The list holds the first \<^verbatim>\<open>timer_heap_len\<close> entries of the array. The theory
  shows that pushing and removing keep the heap in order and its nodes in place, and that the root is the
  earliest timer; and that merging two heaps in \<^verbatim>\<open>llam_processor_rehome_timers_locked\<close> does not always restore the order.
\<close>

section \<open>State\<close>

definition LLAM_TIMER_HEAP_ARITY :: nat where "LLAM_TIMER_HEAP_ARITY = 4"

record timer_node =
  tm_address :: u64
  tm_task :: "u64 option"
  tm_deadline_ns :: u64
  tm_heap_index :: nat

record timer_processor =
  tp_timer_heap :: "timer_node list"
  tp_timer_heap_cap :: nat
  tp_timers :: "timer_node option"
  tp_timer_count :: u32
  tp_fatal :: "errno list"

definition TIMER_HEAP_MAX_ITEMS :: nat where "TIMER_HEAP_MAX_ITEMS = (2 ^ 64 - 1) div 8"

section \<open>Order and moves\<close>

definition llam_timer_heap_parent :: "nat \<Rightarrow> nat" where
  "llam_timer_heap_parent i = (i - 1) div LLAM_TIMER_HEAP_ARITY"

definition llam_timer_heap_less :: "timer_node \<Rightarrow> timer_node \<Rightarrow> bool" where
  "llam_timer_heap_less lhs rhs =
     (if tm_deadline_ns lhs \<noteq> tm_deadline_ns rhs then tm_deadline_ns lhs < tm_deadline_ns rhs
      else case (tm_task lhs, tm_task rhs) of
             (Some l, Some r) \<Rightarrow> l < r
           | _ \<Rightarrow> tm_address lhs < tm_address rhs)"

definition llam_timer_heap_refresh_root :: "timer_processor \<Rightarrow> timer_processor" where
  "llam_timer_heap_refresh_root p =
     p\<lparr>tp_timers := (if 0 < length (tp_timer_heap p) then Some (tp_timer_heap p ! 0) else None)\<rparr>"

definition llam_timer_heap_swap :: "nat \<Rightarrow> nat \<Rightarrow> timer_node list \<Rightarrow> timer_node list" where
  "llam_timer_heap_swap lhs rhs h =
     (let h = h[lhs := h ! rhs, rhs := h ! lhs];
          h = h[lhs := (h ! lhs)\<lparr>tm_heap_index := lhs\<rparr>]
      in h[rhs := (h ! rhs)\<lparr>tm_heap_index := rhs\<rparr>])"

lemma parent_less: "0 < i \<Longrightarrow> llam_timer_heap_parent i < i"
  by (simp add: llam_timer_heap_parent_def LLAM_TIMER_HEAP_ARITY_def)

function llam_timer_heap_sift_up :: "nat \<Rightarrow> timer_node list \<Rightarrow> timer_node list" where
  "llam_timer_heap_sift_up i h =
     (if 0 < i \<and> llam_timer_heap_less (h ! i) (h ! llam_timer_heap_parent i)
      then llam_timer_heap_sift_up (llam_timer_heap_parent i) (llam_timer_heap_swap i (llam_timer_heap_parent i) h)
      else h)"
  by auto
termination llam_timer_heap_sift_up
  by (relation "measure fst") (simp_all add: parent_less)

declare llam_timer_heap_sift_up.simps [simp del]

text \<open>The loop over the children, which keeps the least node seen so far.\<close>

definition best_child :: "nat \<Rightarrow> timer_node list \<Rightarrow> nat" where
  "best_child i h =
     (let first_child = i * LLAM_TIMER_HEAP_ARITY + 1
      in fold (\<lambda>child best. if llam_timer_heap_less (h ! child) (h ! best) then child else best)
           [first_child..<min (length h) (first_child + LLAM_TIMER_HEAP_ARITY)] i)"

lemma best_child_cases: "best_child i h = i \<or> i < best_child i h \<and> best_child i h < length h"
proof -
  have "fold (\<lambda>child best. if llam_timer_heap_less (h ! child) (h ! best) then child else best) cs b \<in> insert b (set cs)" for cs b
    by (induction cs arbitrary: b) auto
  from this [of "[i * LLAM_TIMER_HEAP_ARITY + 1..<min (length h) (i * LLAM_TIMER_HEAP_ARITY + 1 + LLAM_TIMER_HEAP_ARITY)]" i]
  show ?thesis by (auto simp: best_child_def Let_def LLAM_TIMER_HEAP_ARITY_def)
qed

lemma length_swap [simp]: "length (llam_timer_heap_swap i j h) = length h"
  by (simp add: llam_timer_heap_swap_def Let_def)

lemma best_child_advances: "best_child i h \<noteq> i \<Longrightarrow> length h - best_child i h < length h - i"
  using best_child_cases [of i h] by auto

function llam_timer_heap_sift_down :: "nat \<Rightarrow> timer_node list \<Rightarrow> timer_node list" where
  "llam_timer_heap_sift_down i h =
     (let best = best_child i h
      in if best = i then h else llam_timer_heap_sift_down best (llam_timer_heap_swap i best h))"
  by auto
termination llam_timer_heap_sift_down
  by (relation "measure (\<lambda>(i, h). length h - i)") (auto simp: best_child_advances)

declare llam_timer_heap_sift_down.simps [simp del]

section \<open>Capacity and counters\<close>

text \<open>Doubling until the request fits; \<^verbatim>\<open>realloc\<close> answers with \<open>ok\<close>.\<close>

function grow_capacity :: "nat \<Rightarrow> nat \<Rightarrow> nat" where
  "grow_capacity needed new_cap =
     (if new_cap < needed \<and> 0 < new_cap then
        if TIMER_HEAP_MAX_ITEMS div 2 < new_cap then needed else grow_capacity needed (new_cap * 2)
      else new_cap)"
  by auto
termination grow_capacity
  by (relation "measure (\<lambda>(needed, new_cap). needed - new_cap)") auto

declare grow_capacity.simps [simp del]

definition llam_timer_heap_reserve :: "bool \<Rightarrow> nat \<Rightarrow> timer_processor \<Rightarrow> unit result \<times> timer_processor" where
  "llam_timer_heap_reserve ok needed p =
     (if TIMER_HEAP_MAX_ITEMS < needed \<or> TIMER_HEAP_MAX_ITEMS < tp_timer_heap_cap p then (Inl ENOMEM, p)
      else if needed \<le> tp_timer_heap_cap p then (Inr (), p)
      else let new_cap = (if tp_timer_heap_cap p = 0 then 64
                          else if TIMER_HEAP_MAX_ITEMS div 2 < tp_timer_heap_cap p then needed
                          else tp_timer_heap_cap p * 2);
               new_cap = grow_capacity needed new_cap
           in if TIMER_HEAP_MAX_ITEMS < new_cap then (Inl ENOMEM, p)
              else if \<not> ok then (Inl ENOMEM, p)
              else (Inr (), p\<lparr>tp_timer_heap_cap := new_cap\<rparr>))"

definition llam_timer_count_increment :: "timer_processor \<Rightarrow> unit result \<times> timer_processor" where
  "llam_timer_count_increment p =
     (if tp_timer_count p = UINT32_MAX then (Inl EOVERFLOW, p\<lparr>tp_fatal := tp_fatal p @ [EOVERFLOW]\<rparr>)
      else (Inr (), p\<lparr>tp_timer_count := tp_timer_count p + 1\<rparr>))"

definition llam_timer_count_decrement :: "timer_processor \<Rightarrow> timer_processor" where
  "llam_timer_count_decrement p =
     (if 0 < tp_timer_count p then p\<lparr>tp_timer_count := tp_timer_count p - 1\<rparr> else p\<lparr>tp_fatal := tp_fatal p @ [EINVAL]\<rparr>)"

section \<open>Operations\<close>

definition llam_timer_heap_push_locked :: "bool \<Rightarrow> timer_node \<Rightarrow> timer_processor \<Rightarrow> unit result \<times> timer_processor" where
  "llam_timer_heap_push_locked ok node p =
     (if TIMER_HEAP_MAX_ITEMS \<le> length (tp_timer_heap p) then (Inl ENOMEM, p)
      else (case llam_timer_heap_reserve ok (length (tp_timer_heap p) + 1) p of
              (Inl e, p) \<Rightarrow> (Inl e, p)
            | (Inr _, p) \<Rightarrow>
                (case llam_timer_count_increment p of
                   (Inl e, p) \<Rightarrow> (Inl e, p)
                 | (Inr _, p) \<Rightarrow>
                     let i = length (tp_timer_heap p);
                         h = tp_timer_heap p @ [node\<lparr>tm_heap_index := i\<rparr>]
                     in (Inr (), llam_timer_heap_refresh_root (p\<lparr>tp_timer_heap := llam_timer_heap_sift_up i h\<rparr>)))))"

definition remove_from_heap :: "nat \<Rightarrow> timer_node list \<Rightarrow> timer_node list" where
  "remove_from_heap i h =
     (let last = h ! (length h - 1); h' = butlast h in
      if i = length h' then h'
      else let last = last\<lparr>tm_heap_index := i\<rparr>; h' = h'[i := last]
           in if 0 < i \<and> llam_timer_heap_less last (h' ! llam_timer_heap_parent i)
              then llam_timer_heap_sift_up i h' else llam_timer_heap_sift_down i h')"

definition llam_timer_heap_remove_at_locked :: "nat \<Rightarrow> timer_processor \<Rightarrow> timer_node option \<times> timer_processor" where
  "llam_timer_heap_remove_at_locked i p =
     (if length (tp_timer_heap p) \<le> i then (None, p)
      else (Some ((tp_timer_heap p ! i)\<lparr>tm_heap_index := 0\<rparr>),
            llam_timer_count_decrement (llam_timer_heap_refresh_root (p\<lparr>tp_timer_heap := remove_from_heap i (tp_timer_heap p)\<rparr>))))"

definition llam_timer_heap_pop_min_locked :: "timer_processor \<Rightarrow> timer_node option \<times> timer_processor" where
  "llam_timer_heap_pop_min_locked p = llam_timer_heap_remove_at_locked 0 p"

text \<open>The commit phase of moving the timers of one processor to another: append, then restore the order bottom-up.\<close>

definition rehome_append :: "timer_node list \<Rightarrow> timer_node list \<Rightarrow> timer_node list" where
  "rehome_append source target = target @ map (\<lambda>(i, n). n\<lparr>tm_heap_index := length target + i\<rparr>) (enumerate 0 source)"

definition rehome_heapify :: "timer_node list \<Rightarrow> timer_node list" where
  "rehome_heapify h = fold llam_timer_heap_sift_down (rev [0..<length h div LLAM_TIMER_HEAP_ARITY]) h"

definition rehome_commit :: "timer_processor \<Rightarrow> timer_processor \<Rightarrow> timer_processor \<times> timer_processor" where
  "rehome_commit source target =
     (let p = llam_timer_heap_refresh_root (target\<lparr>tp_timer_heap := rehome_heapify (rehome_append (tp_timer_heap source) (tp_timer_heap target))\<rparr>)
      in (source\<lparr>tp_timer_heap := [], tp_timers := None, tp_timer_count := 0\<rparr>,
          p\<lparr>tp_timer_count := tp_timer_count target + tp_timer_count source\<rparr>))"

section \<open>Heap order\<close>

abbreviation tle :: "timer_node \<Rightarrow> timer_node \<Rightarrow> bool" where
  "tle a b \<equiv> \<not> llam_timer_heap_less b a"

definition heap_ordered :: "timer_node list \<Rightarrow> bool" where
  "heap_ordered h \<longleftrightarrow> (\<forall>j<length h. 0 < j \<longrightarrow> tle (h ! llam_timer_heap_parent j) (h ! j))"

definition tasked :: "timer_node list \<Rightarrow> bool" where
  "tasked h \<longleftrightarrow> (\<forall>n\<in>set h. tm_task n \<noteq> None)"

lemma less_index [simp]:
  "llam_timer_heap_less (a\<lparr>tm_heap_index := x\<rparr>) b = llam_timer_heap_less a b"
  "llam_timer_heap_less a (b\<lparr>tm_heap_index := x\<rparr>) = llam_timer_heap_less a b"
  by (simp_all add: llam_timer_heap_less_def split: option.split)

lemma less_asym: "tm_task a \<noteq> None \<Longrightarrow> tm_task b \<noteq> None \<Longrightarrow> llam_timer_heap_less a b \<Longrightarrow> tle a b"
  by (auto simp: llam_timer_heap_less_def split: if_splits)

lemma tle_trans:
  "tm_task a \<noteq> None \<Longrightarrow> tm_task b \<noteq> None \<Longrightarrow> tm_task c \<noteq> None \<Longrightarrow> tle a b \<Longrightarrow> tle b c \<Longrightarrow> tle a c"
  by (auto simp: llam_timer_heap_less_def split: if_splits)

lemma tle_refl [simp]: "tle a a"
  by (simp add: llam_timer_heap_less_def split: option.split)

lemma tasked_nth: "tasked h \<Longrightarrow> i < length h \<Longrightarrow> tm_task (h ! i) \<noteq> None"
  by (simp add: tasked_def)

lemma swap_nth:
  assumes "i < length h" "j < length h" "i \<noteq> j" "k < length h"
  shows "llam_timer_heap_swap i j h ! k =
    (if k = i then (h ! j)\<lparr>tm_heap_index := i\<rparr> else if k = j then (h ! i)\<lparr>tm_heap_index := j\<rparr> else h ! k)"
  using assms by (auto simp: llam_timer_heap_swap_def Let_def nth_list_update)

lemma tasked_swap: "tasked h \<Longrightarrow> i < length h \<Longrightarrow> j < length h \<Longrightarrow> i \<noteq> j \<Longrightarrow> tasked (llam_timer_heap_swap i j h)"
  by (simp add: tasked_def all_set_conv_all_nth swap_nth)

text \<open>The node itself, without the place it is stored at.\<close>

definition bare :: "timer_node \<Rightarrow> timer_node" where
  "bare n = n\<lparr>tm_heap_index := 0\<rparr>"

definition timers_of :: "timer_node list \<Rightarrow> timer_node multiset" where
  "timers_of h = mset (map bare h)"

definition indexed :: "timer_node list \<Rightarrow> bool" where
  "indexed h \<longleftrightarrow> (\<forall>j<length h. tm_heap_index (h ! j) = j)"

lemma timers_swap:
  assumes "i < length h" "j < length h" "i \<noteq> j"
  shows "timers_of (llam_timer_heap_swap i j h) = timers_of h"
proof -
  have "map bare (llam_timer_heap_swap i j h) = (map bare h)[j := map bare h ! i, i := map bare h ! j]"
    using assms by (intro nth_equalityI) (auto simp: swap_nth nth_list_update bare_def)
  then show ?thesis unfolding timers_of_def using assms by (simp only: mset_swap length_map)
qed

lemma indexed_swap: "indexed h \<Longrightarrow> i < length h \<Longrightarrow> j < length h \<Longrightarrow> i \<noteq> j \<Longrightarrow> indexed (llam_timer_heap_swap i j h)"
  by (auto simp: indexed_def swap_nth)

text \<open>What a move within the heap keeps.\<close>

definition rearranged :: "timer_node list \<Rightarrow> timer_node list \<Rightarrow> bool" where
  "rearranged h' h \<longleftrightarrow> length h' = length h \<and> timers_of h' = timers_of h \<and> (indexed h \<longrightarrow> indexed h') \<and> (tasked h \<longrightarrow> tasked h')"

lemma rearranged_swap: "i < length h \<Longrightarrow> j < length h \<Longrightarrow> i \<noteq> j \<Longrightarrow> rearranged (llam_timer_heap_swap i j h) h"
  by (simp add: rearranged_def timers_swap indexed_swap tasked_swap)

lemma rearranged_trans: "rearranged a b \<Longrightarrow> rearranged b c \<Longrightarrow> rearranged a c"
  by (simp add: rearranged_def)

lemma rearranged_refl [simp]: "rearranged h h"
  by (simp add: rearranged_def)

section \<open>Sifting up\<close>

definition up_inv :: "nat \<Rightarrow> timer_node list \<Rightarrow> bool" where
  "up_inv i h \<longleftrightarrow> (\<forall>j<length h. 0 < j \<longrightarrow> j \<noteq> i \<longrightarrow> tle (h ! llam_timer_heap_parent j) (h ! j)) \<and>
     (\<forall>j<length h. 0 < j \<longrightarrow> llam_timer_heap_parent j = i \<longrightarrow> 0 < i \<longrightarrow> tle (h ! llam_timer_heap_parent i) (h ! j))"

lemma up_inv_step:
  assumes up: "up_inv i h" and i: "0 < i" "i < length h" and t: "tasked h"
    and less: "llam_timer_heap_less (h ! i) (h ! llam_timer_heap_parent i)"
  shows "up_inv (llam_timer_heap_parent i) (llam_timer_heap_swap i (llam_timer_heap_parent i) h)"
proof -
  let ?p = "llam_timer_heap_parent i" let ?h = "llam_timer_heap_swap i ?p h"
  have "?p < i" using i by (simp add: parent_less)
  then have p: "?p < i" "?p < length h" "i \<noteq> ?p" using i by linarith+
  note nth = swap_nth [OF i(2) p(2,3)]
  have task: "tm_task (h ! j) \<noteq> None" if "j < length h" for j using tasked_nth [OF t that] .
  have pl: "llam_timer_heap_parent j < length h" if "j < length h" "0 < j" for j using parent_less [OF that(2)] that(1) by simp
  have ord: "tle (h ! llam_timer_heap_parent j) (h ! j)" if "j < length h" "0 < j" "j \<noteq> i" for j using up that by (simp add: up_inv_def)
  have ch: "tle (h ! ?p) (h ! j)" if "j < length h" "0 < j" "llam_timer_heap_parent j = i" for j using up that i(1) by (simp add: up_inv_def)
  have ip: "tle (h ! i) (h ! ?p)" using less_asym [OF task [OF i(2)] task [OF p(2)] less] .
  have sib: "tle (h ! i) (h ! j)" if "j < length h" "0 < j" "j \<noteq> i" "llam_timer_heap_parent j = ?p" for j
    using tle_trans [OF task [OF i(2)] task [OF p(2)] task [OF that(1)] ip] ord [OF that(1-3)] that(4) by simp
  show ?thesis unfolding up_inv_def length_swap
  proof (intro conjI allI impI)
    fix j assume j: "j < length h" "0 < j" "j \<noteq> ?p"
    show "tle (?h ! llam_timer_heap_parent j) (?h ! j)"
      using j ip sib [of j] ch [of j] ord [of j] p(3) parent_less [OF j(2)] by (auto simp: nth pl)
  next
    fix j assume j: "j < length h" "0 < j" "llam_timer_heap_parent j = ?p" "0 < ?p"
    have g: "tle (h ! llam_timer_heap_parent ?p) (h ! ?p)" using ord [OF p(2) j(4) p(3) [symmetric]] .
    have q: "llam_timer_heap_parent ?p < ?p" using parent_less [OF j(4)] .
    have "tle (h ! llam_timer_heap_parent ?p) (h ! j)" if "j \<noteq> i"
      using tle_trans [OF task [OF pl [OF p(2) j(4)]] task [OF p(2)] task [OF j(1)] g] ord [OF j(1,2) that] j(3) by simp
    then show "tle (?h ! llam_timer_heap_parent ?p) (?h ! j)"
      using j q p g parent_less [OF j(2)] by (auto simp: nth pl)
  qed
qed

lemma sift_up_ordered:
  "i < length h \<Longrightarrow> tasked h \<Longrightarrow> up_inv i h \<Longrightarrow> heap_ordered (llam_timer_heap_sift_up i h) \<and> rearranged (llam_timer_heap_sift_up i h) h"
proof (induction i h rule: llam_timer_heap_sift_up.induct)
  case (1 i h)
  let ?p = "llam_timer_heap_parent i"
  show ?case
  proof (cases "0 < i \<and> llam_timer_heap_less (h ! i) (h ! ?p)")
    case True
    have "?p < i" using True by (simp add: parent_less)
    then have p: "?p < length h" "i \<noteq> ?p" using 1(2) by linarith+
    note r = rearranged_swap [OF 1(2) p]
    have "heap_ordered (llam_timer_heap_sift_up ?p (llam_timer_heap_swap i ?p h)) \<and>
        rearranged (llam_timer_heap_sift_up ?p (llam_timer_heap_swap i ?p h)) (llam_timer_heap_swap i ?p h)"
      using 1(1) [OF True] p(1) tasked_swap [OF 1(3) 1(2) p] up_inv_step [OF 1(4) _ 1(2,3)] True by simp
    then show ?thesis using True rearranged_trans [OF _ r] by (simp add: llam_timer_heap_sift_up.simps [of i h])
  next
    case False
    then have "llam_timer_heap_sift_up i h = h" by (subst llam_timer_heap_sift_up.simps) auto
    moreover have "heap_ordered h" using False 1(4) by (auto simp: heap_ordered_def up_inv_def)
    ultimately show ?thesis by simp
  qed
qed

section \<open>Sifting down\<close>

lemma child_iff: "0 < c \<and> llam_timer_heap_parent c = i \<longleftrightarrow> i * LLAM_TIMER_HEAP_ARITY + 1 \<le> c \<and> c < i * LLAM_TIMER_HEAP_ARITY + 1 + LLAM_TIMER_HEAP_ARITY"
  by (cases c) (auto simp: llam_timer_heap_parent_def LLAM_TIMER_HEAP_ARITY_def)

lemma best_fold:
  assumes "tasked h" "b < length h" "\<forall>c\<in>set cs. c < length h"
  shows "let m = fold (\<lambda>child best. if llam_timer_heap_less (h ! child) (h ! best) then child else best) cs b
    in m \<in> insert b (set cs) \<and> (\<forall>c\<in>insert b (set cs). tle (h ! m) (h ! c))"
  using assms(2,3)
proof (induction cs arbitrary: b)
  case (Cons c cs)
  define b' where "b' = (if llam_timer_heap_less (h ! c) (h ! b) then c else b)"
  have l: "b' < length h" "c < length h" "b < length h" using Cons.prems by (auto simp: b'_def)
  have m: "tle (h ! b') (h ! b)" "tle (h ! b') (h ! c)"
    using less_asym [OF tasked_nth [OF assms(1) l(2)] tasked_nth [OF assms(1) l(3)]] by (auto simp: b'_def)
  define r where "r = fold (\<lambda>child best. if llam_timer_heap_less (h ! child) (h ! best) then child else best) cs b'"
  have r: "r \<in> insert b' (set cs)" "\<And>d. d \<in> insert b' (set cs) \<Longrightarrow> tle (h ! r) (h ! d)"
    using Cons.IH [OF l(1)] Cons.prems(2) by (auto simp: r_def Let_def)
  have rl: "r < length h" using r(1) l(1) Cons.prems(2) by auto
  have "tle (h ! r) (h ! b)" "tle (h ! r) (h ! c)"
    using tle_trans [OF tasked_nth [OF assms(1) rl] tasked_nth [OF assms(1) l(1)] tasked_nth [OF assms(1) l(3)] r(2) m(1)]
      tle_trans [OF tasked_nth [OF assms(1) rl] tasked_nth [OF assms(1) l(1)] tasked_nth [OF assms(1) l(2)] r(2) m(2)] by simp_all
  then show ?case using r by (auto simp: Let_def r_def [symmetric] b'_def [symmetric]) (auto simp: b'_def split: if_splits)
qed simp

lemma best_child_least:
  assumes "tasked h" "i < length h"
  shows "tle (h ! best_child i h) (h ! i)"
    "\<And>c. c < length h \<Longrightarrow> 0 < c \<Longrightarrow> llam_timer_heap_parent c = i \<Longrightarrow> tle (h ! best_child i h) (h ! c)"
    "best_child i h \<noteq> i \<Longrightarrow> best_child i h < length h \<and> 0 < best_child i h \<and> llam_timer_heap_parent (best_child i h) = i"
proof -
  let ?f = "i * LLAM_TIMER_HEAP_ARITY + 1"
  have B: "best_child i h \<in> insert i (set [?f..<min (length h) (?f + LLAM_TIMER_HEAP_ARITY)])"
      "\<And>c. c \<in> insert i (set [?f..<min (length h) (?f + LLAM_TIMER_HEAP_ARITY)]) \<Longrightarrow> tle (h ! best_child i h) (h ! c)"
    using best_fold [OF assms, of "[?f..<min (length h) (?f + LLAM_TIMER_HEAP_ARITY)]"] by (auto simp: best_child_def Let_def)
  show "tle (h ! best_child i h) (h ! i)" by (rule B(2)) simp
  show "tle (h ! best_child i h) (h ! c)" if "c < length h" "0 < c" "llam_timer_heap_parent c = i" for c
    using child_iff [of c i] that by (intro B(2)) auto
  show "best_child i h < length h \<and> 0 < best_child i h \<and> llam_timer_heap_parent (best_child i h) = i" if "best_child i h \<noteq> i"
    using B(1) that child_iff [of "best_child i h" i] by auto
qed

text \<open>The order among the parents from \<open>lo\<close> on, which is all that building a heap bottom-up has at hand.\<close>

definition ordered_from :: "nat \<Rightarrow> timer_node list \<Rightarrow> bool" where
  "ordered_from lo h \<longleftrightarrow> (\<forall>j<length h. 0 < j \<longrightarrow> lo \<le> llam_timer_heap_parent j \<longrightarrow> tle (h ! llam_timer_heap_parent j) (h ! j))"

lemma ordered_from_0: "ordered_from 0 h = heap_ordered h"
  by (simp add: ordered_from_def heap_ordered_def)

definition down_inv :: "nat \<Rightarrow> nat \<Rightarrow> timer_node list \<Rightarrow> bool" where
  "down_inv lo i h \<longleftrightarrow> (\<forall>j<length h. 0 < j \<longrightarrow> lo \<le> llam_timer_heap_parent j \<longrightarrow> llam_timer_heap_parent j \<noteq> i \<longrightarrow>
       tle (h ! llam_timer_heap_parent j) (h ! j)) \<and>
     (\<forall>j<length h. 0 < j \<longrightarrow> llam_timer_heap_parent j = i \<longrightarrow> 0 < i \<longrightarrow> lo \<le> llam_timer_heap_parent i \<longrightarrow>
       tle (h ! llam_timer_heap_parent i) (h ! j))"

lemma down_inv_step:
  assumes dn: "down_inv lo i h" and lo: "lo \<le> i" and i: "i < length h" and t: "tasked h" and b: "best_child i h = b" "b \<noteq> i"
  shows "down_inv lo b (llam_timer_heap_swap i b h)"
proof -
  let ?h = "llam_timer_heap_swap i b h"
  note L = best_child_least [OF t i, unfolded b(1)]
  have bl: "b < length h" "0 < b" "llam_timer_heap_parent b = i" using L(3) b(2) by simp_all
  have ib: "i < b" using parent_less [OF bl(2)] bl(3) by simp
  note nth = swap_nth [OF i bl(1) b(2) [symmetric]]
  have pl: "llam_timer_heap_parent j < length h" if "j < length h" "0 < j" for j using parent_less [OF that(2)] that(1) by simp
  have ord: "tle (h ! llam_timer_heap_parent j) (h ! j)" if "j < length h" "0 < j" "llam_timer_heap_parent j \<noteq> i" "lo \<le> llam_timer_heap_parent j" for j
    using dn that by (simp add: down_inv_def)
  show ?thesis unfolding down_inv_def length_swap
  proof (intro conjI allI impI)
    fix j assume j: "j < length h" "0 < j" "lo \<le> llam_timer_heap_parent j" "llam_timer_heap_parent j \<noteq> b"
    have top: "tle (h ! llam_timer_heap_parent i) (h ! b)" if "0 < i" "lo \<le> llam_timer_heap_parent i" using dn bl that by (simp add: down_inv_def)
    have pj: "llam_timer_heap_parent j < j" using parent_less [OF j(2)] .
    show "tle (?h ! llam_timer_heap_parent j) (?h ! j)"
      using j L(1) L(2) [of j] ord [of j] top bl(3) ib pj b(2) by (auto simp: nth pl)
  next
    fix j assume j: "j < length h" "0 < j" "llam_timer_heap_parent j = b" "0 < b"
    have "b < j" using parent_less [OF j(2)] j(3) by simp
    then show "tle (?h ! llam_timer_heap_parent b) (?h ! j)"
      using ord [OF j(1,2)] j(1,3) b(2) ib i bl(3) lo by (simp add: nth)
  qed
qed

lemma sift_down_from:
  "i < length h \<Longrightarrow> tasked h \<Longrightarrow> down_inv lo i h \<Longrightarrow> lo \<le> i \<Longrightarrow>
   ordered_from lo (llam_timer_heap_sift_down i h) \<and> rearranged (llam_timer_heap_sift_down i h) h"
proof (induction i h rule: llam_timer_heap_sift_down.induct)
  case (1 i h)
  note L = best_child_least [OF 1(3,2)]
  show ?case
  proof (cases "best_child i h = i")
    case True
    then have "llam_timer_heap_sift_down i h = h" by (simp add: llam_timer_heap_sift_down.simps [of i h])
    moreover have "ordered_from lo h" unfolding ordered_from_def
    proof (intro allI impI)
      fix j assume "j < length h" "0 < j" "lo \<le> llam_timer_heap_parent j"
      then show "tle (h ! llam_timer_heap_parent j) (h ! j)"
        using 1(4) L(2) [of j] True by (cases "llam_timer_heap_parent j = i") (auto simp: down_inv_def)
    qed
    ultimately show ?thesis by simp
  next
    case False
    let ?b = "best_child i h" let ?h = "llam_timer_heap_swap i ?b h"
    have bl: "?b < length h" using L(3) False by simp
    have lb: "lo \<le> ?b" using L(3) False parent_less [of ?b] 1(5) by simp
    note r = rearranged_swap [OF 1(2) bl False [symmetric]]
    have "ordered_from lo (llam_timer_heap_sift_down ?b ?h) \<and> rearranged (llam_timer_heap_sift_down ?b ?h) ?h"
      using 1(1) [OF refl False] bl lb tasked_swap [OF 1(3,2) bl False [symmetric]] down_inv_step [OF 1(4,5,2,3) refl False] by simp
    then show ?thesis using False rearranged_trans [OF _ r] by (simp add: llam_timer_heap_sift_down.simps [of i h] Let_def)
  qed
qed

lemmas sift_down_ordered = sift_down_from [where lo = 0, unfolded ordered_from_0, OF _ _ _ le0]

lemma root_least:
  assumes "heap_ordered h" "tasked h" "j < length h"
  shows "tle (h ! 0) (h ! j)"
  using assms(3)
proof (induction j rule: less_induct)
  case (less j)
  show ?case
  proof (cases "j = 0")
    case False
    have p: "llam_timer_heap_parent j < j" using False by (simp add: parent_less)
    have l: "llam_timer_heap_parent j < length h" "0 < length h" using p less.prems by auto
    have "tle (h ! llam_timer_heap_parent j) (h ! j)" using assms(1) less.prems False by (simp add: heap_ordered_def)
    from tle_trans [OF tasked_nth [OF assms(2) l(2)] tasked_nth [OF assms(2) l(1)] tasked_nth [OF assms(2) less.prems] less.IH [OF p l(1)] this]
    show ?thesis .
  qed simp
qed

section \<open>Push and remove\<close>

definition timer_wf :: "timer_processor \<Rightarrow> bool" where
  "timer_wf p \<longleftrightarrow> (let h = tp_timer_heap p in tasked h \<and> indexed h \<and> heap_ordered h \<and>
     tp_timers p = (if h = [] then None else Some (h ! 0)) \<and> unat (tp_timer_count p) = length h)"

lemma push_heap:
  assumes "tasked h" "indexed h" "heap_ordered h" "tm_task n \<noteq> None" "tm_heap_index n = length h"
  shows "let g = llam_timer_heap_sift_up (length h) (h @ [n])
    in heap_ordered g \<and> tasked g \<and> indexed g \<and> timers_of g = add_mset (bare n) (timers_of h) \<and> length g = Suc (length h)"
proof -
  let ?g = "h @ [n]"
  have pj: "llam_timer_heap_parent j < length h" if "j < Suc (length h)" "0 < j" for j using parent_less [OF that(2)] that(1) by simp
  have "up_inv (length h) ?g" unfolding up_inv_def
  proof (intro conjI allI impI)
    fix j assume "j < length ?g" "0 < j" "j \<noteq> length h"
    then show "tle (?g ! llam_timer_heap_parent j) (?g ! j)" using assms(3) pj [of j] by (simp add: heap_ordered_def nth_append)
  next
    fix j assume "j < length ?g" "0 < j" "llam_timer_heap_parent j = length h"
    then show "tle (?g ! llam_timer_heap_parent (length h)) (?g ! j)" using pj [of j] by simp
  qed
  moreover have "tasked ?g" "indexed ?g" using assms by (auto simp: tasked_def indexed_def nth_append less_Suc_eq)
  ultimately show ?thesis using sift_up_ordered [of "length h" ?g] by (auto simp: Let_def rearranged_def timers_of_def)
qed

lemma reserve_heap:
  "llam_timer_heap_reserve ok n p = (r, p') \<Longrightarrow>
   tp_timer_heap p' = tp_timer_heap p \<and> tp_timers p' = tp_timers p \<and> tp_timer_count p' = tp_timer_count p"
  by (auto simp: llam_timer_heap_reserve_def Let_def split: if_splits)

text \<open>C37. Pushing a timer keeps the heap in order, with every node knowing its place and the root published, and adds exactly that
  timer; a refused push leaves the heap, its root and its count as they were.\<close>

theorem push_correct:
  assumes wf: "timer_wf p" and task: "tm_task node \<noteq> None"
    and res: "llam_timer_heap_push_locked ok node p = (r, p')"
  shows "timer_wf p' \<and> timers_of (tp_timer_heap p') = timers_of (tp_timer_heap p) + (case r of Inl _ \<Rightarrow> {#} | Inr _ \<Rightarrow> {# bare node #})"
proof (cases "TIMER_HEAP_MAX_ITEMS \<le> length (tp_timer_heap p)")
  case True
  then show ?thesis using res wf by (auto simp: llam_timer_heap_push_locked_def)
next
  case False
  let ?h = "tp_timer_heap p"
  obtain q p1 where rs: "llam_timer_heap_reserve ok (length ?h + 1) p = (q, p1)" by fastforce
  note R = reserve_heap [OF rs]
  show ?thesis
  proof (cases "isl q \<or> tp_timer_count p = UINT32_MAX")
    case True
    then have "tp_timer_heap p' = ?h \<and> tp_timers p' = tp_timers p \<and> tp_timer_count p' = tp_timer_count p \<and> isl r"
      using res rs R False by (cases q) (auto simp: llam_timer_heap_push_locked_def llam_timer_count_increment_def)
    then show ?thesis using wf by (auto simp: timer_wf_def Let_def split: sum.split)
  next
    case go: False
    define g where "g = llam_timer_heap_sift_up (length ?h) (?h @ [node\<lparr>tm_heap_index := length ?h\<rparr>])"
    have eq: "r = Inr ()" "tp_timer_heap p' = g" "tp_timer_count p' = tp_timer_count p + 1"
        "tp_timers p' = (if 0 < length g then Some (g ! 0) else None)"
      using res rs R False go
      by (cases q; auto simp: llam_timer_heap_push_locked_def llam_timer_count_increment_def llam_timer_heap_refresh_root_def Let_def g_def)+
    have "heap_ordered g \<and> tasked g \<and> indexed g \<and> timers_of g = add_mset (bare node) (timers_of ?h) \<and> length g = Suc (length ?h)"
      using push_heap [of ?h "node\<lparr>tm_heap_index := length ?h\<rparr>"] wf task by (simp add: g_def timer_wf_def Let_def bare_def)
    moreover have "unat (tp_timer_count p + 1) = Suc (length ?h)"
      using wf unat_Suc_no_wrap [of "tp_timer_count p"] go by (simp add: timer_wf_def Let_def)
    ultimately show ?thesis using eq by (auto simp: timer_wf_def Let_def)
  qed
qed

lemma remove_ok:
  assumes t: "tasked h" and ix: "indexed h" and o: "heap_ordered h" and i: "i < length h"
  shows "let g = remove_from_heap i h
    in heap_ordered g \<and> tasked g \<and> indexed g \<and> timers_of h = add_mset (bare (h ! i)) (timers_of g) \<and> Suc (length g) = length h"
proof -
  define l where "l = h ! (length h - 1)"
  define b where "b = butlast h"
  have "h \<noteq> []" using i by auto
  then have h: "h = b @ [l]" unfolding b_def l_def by (metis append_butlast_last_id last_conv_nth)
  have "tle (b ! llam_timer_heap_parent j) (b ! j)" if j: "j < length b" "0 < j" for j
    using o j parent_less [OF j(2)] by (auto simp: h heap_ordered_def nth_append dest!: spec [of _ j])
  moreover have "tm_heap_index (b ! j) = j" if "j < length b" for j
    using ix that by (auto simp: h indexed_def nth_append dest!: spec [of _ j])
  ultimately have ob: "heap_ordered b" "tasked b" "indexed b" "tm_task l \<noteq> None"
    using t by (auto simp: h heap_ordered_def tasked_def indexed_def)
  show ?thesis
  proof (cases "i = length b")
    case True
    then show ?thesis using ob by (simp add: remove_from_heap_def Let_def b_def [symmetric] h timers_of_def)
  next
    case False
    then have ib: "i < length b" using i by (simp add: h)
    define g where "g = b[i := l\<lparr>tm_heap_index := i\<rparr>]"
    have g: "tasked g" "indexed g" "length g = length b" "i < length g"
      using ob ib by (auto simp: g_def tasked_def indexed_def nth_list_update dest: set_update_subset_insert [THEN subsetD])
    have tg: "timers_of h = add_mset (bare (h ! i)) (timers_of g)"
      using ib by (simp add: h timers_of_def g_def nth_append map_update mset_update bare_def)
    have pl: "llam_timer_heap_parent j < length b" "llam_timer_heap_parent j < j" if "j < length b" "0 < j" for j
      using parent_less [OF that(2)] that(1) by simp_all
    have ord: "tle (b ! llam_timer_heap_parent j) (b ! j)" if "j < length b" "0 < j" for j using ob(1) that by (simp add: heap_ordered_def)
    have task: "tm_task (b ! j) \<noteq> None" if "j < length b" for j using tasked_nth [OF ob(2) that] .
    have rm: "remove_from_heap i h = (if 0 < i \<and> llam_timer_heap_less l (g ! llam_timer_heap_parent i) then llam_timer_heap_sift_up i g
        else llam_timer_heap_sift_down i g)"
      unfolding remove_from_heap_def Let_def l_def [symmetric] b_def [symmetric] g_def using False by simp
    have chain: "tle (b ! llam_timer_heap_parent i) (b ! j)" if "j < length b" "0 < j" "llam_timer_heap_parent j = i" "0 < i" for j
      using tle_trans [OF task [OF pl(1) [OF ib that(4)]] task [OF ib] task [OF that(1)] ord [OF ib that(4)]] ord [OF that(1,2)] that(3) by simp
    show ?thesis
    proof (cases "0 < i \<and> llam_timer_heap_less l (g ! llam_timer_heap_parent i)")
      case True
      have i0: "0 < i" using True by simp
      have pi: "g ! llam_timer_heap_parent i = b ! llam_timer_heap_parent i" using pl(2) [OF ib] True by (simp add: g_def)
      have lp: "tle l (b ! llam_timer_heap_parent i)"
        using less_asym [OF ob(4) task [OF pl(1) [OF ib i0]]] True pi by simp
      have "tle l (b ! j)" if "j < length b" "0 < j" "llam_timer_heap_parent j = i" for j
        using tle_trans [OF ob(4) task [OF pl(1) [OF ib i0]] task [OF that(1)] lp chain [OF that i0]] by simp
      then have "up_inv i g" using ord chain pl ib by (auto simp: up_inv_def g(3) g_def nth_list_update)
      from sift_up_ordered [OF g(4,1) this] show ?thesis using rm True g tg h by (simp add: Let_def rearranged_def)
    next
      case no: False
      have pp: "0 < i \<Longrightarrow> llam_timer_heap_parent i \<noteq> i" using pl(2) [OF ib] by auto
      have "down_inv 0 i g" using ord chain pl ib no pp by (auto simp: down_inv_def g(3) g_def nth_list_update)
      from sift_down_ordered [OF g(4,1) this] show ?thesis using rm no g tg h by (simp add: Let_def rearranged_def)
    qed
  qed
qed

text \<open>C36. Popping returns an earliest timer: on a well-formed non-empty heap the popped node precedes or equals every remaining one in
  deadline and task number, exactly that node leaves, and the heap stays well-formed.\<close>

theorem pop_min_correct:
  assumes wf: "timer_wf p" and ne: "tp_timer_heap p \<noteq> []"
  shows "case llam_timer_heap_pop_min_locked p of
      (None, _) \<Rightarrow> False
    | (Some n, p') \<Rightarrow> timer_wf p' \<and> timers_of (tp_timer_heap p) = add_mset n (timers_of (tp_timer_heap p')) \<and>
        (\<forall>m \<in># timers_of (tp_timer_heap p'). \<not> llam_timer_heap_less m n)"
proof -
  let ?h = "tp_timer_heap p"
  define g where "g = remove_from_heap 0 ?h"
  have w: "tasked ?h" "indexed ?h" "heap_ordered ?h" "unat (tp_timer_count p) = length ?h" using wf by (simp_all add: timer_wf_def Let_def)
  have g: "heap_ordered g" "tasked g" "indexed g" "timers_of ?h = add_mset (bare (?h ! 0)) (timers_of g)" "Suc (length g) = length ?h"
    using remove_ok [OF w(1-3), of 0] ne by (simp_all add: g_def Let_def)
  define p' where "p' = llam_timer_count_decrement (llam_timer_heap_refresh_root (p\<lparr>tp_timer_heap := g\<rparr>))"
  have c: "0 < tp_timer_count p" using w(4) ne by (simp add: word_less_nat_alt)
  have "unat (tp_timer_count p - 1) = length g"
    using c w(4) g(5) by (simp add: unat_minus_one word_neq_0_conv)
  then have "timer_wf p'" using g c
    by (simp add: p'_def timer_wf_def llam_timer_count_decrement_def llam_timer_heap_refresh_root_def Let_def)
  moreover have "tp_timer_heap p' = g" by (simp add: p'_def llam_timer_count_decrement_def llam_timer_heap_refresh_root_def)
  moreover have "\<not> llam_timer_heap_less m (bare (?h ! 0))" if "m \<in># timers_of g" for m
  proof -
    have "m \<in># timers_of ?h" using that g(4) by simp
    then obtain j where "j < length ?h" "m = bare (?h ! j)" by (auto simp: timers_of_def in_set_conv_nth)
    then show ?thesis using root_least [OF w(3,1)] by (simp add: bare_def)
  qed
  moreover have "llam_timer_heap_pop_min_locked p = (Some (bare (?h ! 0)), p')"
    using ne by (simp add: llam_timer_heap_pop_min_locked_def llam_timer_heap_remove_at_locked_def p'_def g_def bare_def)
  ultimately show ?thesis using g(4) by simp
qed

section \<open>Moving timers\<close>

lemma heapify_prefix:
  "tasked h \<Longrightarrow> m \<le> length h \<Longrightarrow> ordered_from m h \<Longrightarrow>
   ordered_from 0 (fold llam_timer_heap_sift_down (rev [0..<m]) h) \<and> rearranged (fold llam_timer_heap_sift_down (rev [0..<m]) h) h"
proof (induction m arbitrary: h)
  case (Suc m)
  have "down_inv m m h" using Suc.prems(3) parent_less by (auto simp: down_inv_def ordered_from_def) (metis linorder_not_le parent_less)
  then have s: "ordered_from m (llam_timer_heap_sift_down m h)" "rearranged (llam_timer_heap_sift_down m h) h"
    using sift_down_from [of m h m] Suc.prems by auto
  have "ordered_from 0 (fold llam_timer_heap_sift_down (rev [0..<m]) (llam_timer_heap_sift_down m h)) \<and>
      rearranged (fold llam_timer_heap_sift_down (rev [0..<m]) (llam_timer_heap_sift_down m h)) (llam_timer_heap_sift_down m h)"
    using Suc.IH [of "llam_timer_heap_sift_down m h"] s Suc.prems by (auto simp: rearranged_def)
  then show ?case using rearranged_trans [OF _ s(2)] by simp
qed simp

text \<open>When the number of merged timers is a multiple of four or one more, moving the timers of one processor to another restores the
  order, so the published root is an earliest timer, and no timer is lost or duplicated.\<close>

theorem rehome_orders_when_covered:
  assumes t: "tasked (tp_timer_heap source)" "tasked (tp_timer_heap target)"
    and n: "(length (tp_timer_heap source) + length (tp_timer_heap target)) mod LLAM_TIMER_HEAP_ARITY < 2"
    and res: "rehome_commit source target = (source', target')"
  shows "heap_ordered (tp_timer_heap target') \<and> tp_timer_heap source' = [] \<and>
    timers_of (tp_timer_heap target') = timers_of (tp_timer_heap source) + timers_of (tp_timer_heap target) \<and>
    (\<forall>m \<in> set (tp_timer_heap target'). \<exists>r. tp_timers target' = Some r \<and> \<not> llam_timer_heap_less m r)"
proof -
  define h where "h = rehome_append (tp_timer_heap source) (tp_timer_heap target)"
  have len: "length h = length (tp_timer_heap source) + length (tp_timer_heap target)" by (simp add: h_def rehome_append_def)
  have bare: "map bare (map (\<lambda>(i, n). n\<lparr>tm_heap_index := k + i\<rparr>) (enumerate 0 xs)) = map bare xs" for k xs
    by (rule nth_equalityI) (simp_all add: nth_enumerate_eq bare_def)
  have th: "timers_of h = timers_of (tp_timer_heap source) + timers_of (tp_timer_heap target)"
    unfolding timers_of_def h_def rehome_append_def map_append bare by simp
  have tk: "tasked h" using t by (auto simp: tasked_def h_def rehome_append_def in_set_enumerate_eq)
  have "ordered_from (length h div LLAM_TIMER_HEAP_ARITY) h" unfolding ordered_from_def
  proof (intro allI impI)
    fix j assume j: "j < length h" "0 < j" "length h div LLAM_TIMER_HEAP_ARITY \<le> llam_timer_heap_parent j"
    have "length h div 4 \<le> (j - 1) div 4" "length h mod 4 < 2" using j n len by (simp_all add: llam_timer_heap_parent_def LLAM_TIMER_HEAP_ARITY_def)
    then have False using j(1,2) by presburger
    then show "tle (h ! llam_timer_heap_parent j) (h ! j)" ..
  qed
  from heapify_prefix [OF tk _ this] have g: "heap_ordered (rehome_heapify h)" "rearranged (rehome_heapify h) h"
    by (simp_all add: rehome_heapify_def ordered_from_0)
  have e: "tp_timer_heap target' = rehome_heapify h" "tp_timer_heap source' = []"
      "tp_timers target' = (if 0 < length (rehome_heapify h) then Some (rehome_heapify h ! 0) else None)"
    using res by (auto simp: rehome_commit_def llam_timer_heap_refresh_root_def Let_def h_def)
  have "\<not> llam_timer_heap_less m (rehome_heapify h ! 0)" if "m \<in> set (rehome_heapify h)" for m
    using that root_least [OF g(1)] g(2) tk by (auto simp: in_set_conv_nth rearranged_def)
  then show ?thesis using e g th by (auto simp: rearranged_def)
qed

definition one_timer :: "u64 \<Rightarrow> u64 \<Rightarrow> timer_processor" where
  "one_timer task deadline = (let n = \<lparr>tm_address = task, tm_task = Some task, tm_deadline_ns = deadline, tm_heap_index = 0\<rparr>
     in \<lparr>tp_timer_heap = [n], tp_timer_heap_cap = 64, tp_timers = Some n, tp_timer_count = 1, tp_fatal = []\<rparr>)"

text \<open>C39. Merging two processors' timers can hide the earliest one: moving a single timer with deadline 5 to a processor whose single
  timer has deadline 9 leaves the later timer at the root, because the loop that restores the order starts below
  the last parent when the number of timers is two or three more than a multiple of four.\<close>

theorem rehome_loses_order:
  "let (_, p) = rehome_commit (one_timer 1 5) (one_timer 2 9)
   in heap_ordered (tp_timer_heap (one_timer 1 5)) \<and> heap_ordered (tp_timer_heap (one_timer 2 9)) \<and>
      \<not> heap_ordered (tp_timer_heap p) \<and> map_option tm_deadline_ns (tp_timers p) = Some 9 \<and>
      5 \<in> tm_deadline_ns ` set (tp_timer_heap p)"
proof -
  have "snd (rehome_commit (one_timer 1 5) (one_timer 2 9)) =
      \<lparr>tp_timer_heap = [\<lparr>tm_address = 2, tm_task = Some 2, tm_deadline_ns = 9, tm_heap_index = 0\<rparr>,
                         \<lparr>tm_address = 1, tm_task = Some 1, tm_deadline_ns = 5, tm_heap_index = 1\<rparr>],
       tp_timer_heap_cap = 64, tp_timers = Some \<lparr>tm_address = 2, tm_task = Some 2, tm_deadline_ns = 9, tm_heap_index = 0\<rparr>,
       tp_timer_count = 2, tp_fatal = []\<rparr>"
    by (simp add: rehome_commit_def one_timer_def rehome_append_def rehome_heapify_def LLAM_TIMER_HEAP_ARITY_def
        llam_timer_heap_refresh_root_def Let_def enumerate_eq_zip)
  then show ?thesis
    by (cases "rehome_commit (one_timer 1 5) (one_timer 2 9)")
      (auto simp: heap_ordered_def one_timer_def llam_timer_heap_less_def llam_timer_heap_parent_def Let_def intro!: exI [of _ 1])
qed


lemma one_timer_wf: "timer_wf (one_timer task deadline)"
  by (simp add: timer_wf_def one_timer_def Let_def tasked_def indexed_def heap_ordered_def)

theorem push_correct_witness:
  "let n = \<lparr>tm_address = 7, tm_task = Some 7, tm_deadline_ns = 3, tm_heap_index = 0\<rparr>
   in timer_wf (snd (llam_timer_heap_push_locked True n (one_timer 1 5)))"
proof -
  define n where "n = \<lparr>tm_address = 7, tm_task = Some 7, tm_deadline_ns = 3, tm_heap_index = 0\<rparr>"
  obtain r p' where x: "llam_timer_heap_push_locked True n (one_timer 1 5) = (r, p')" by fastforce
  have "tm_task n \<noteq> None" by (simp add: n_def)
  from push_correct [OF one_timer_wf this x] show ?thesis by (simp add: x n_def [symmetric])
qed

theorem pop_min_correct_witness:
  "\<exists>n p'. llam_timer_heap_pop_min_locked (one_timer 1 5) = (Some n, p') \<and> timer_wf p' \<and> tm_deadline_ns n = 5"
proof -
  have "tp_timer_heap (one_timer 1 5) \<noteq> []" by (simp add: one_timer_def Let_def)
  note P = pop_min_correct [OF one_timer_wf this]
  then obtain n p' where x: "llam_timer_heap_pop_min_locked (one_timer 1 5) = (Some n, p')"
    by (cases "llam_timer_heap_pop_min_locked (one_timer 1 5)") (auto split: option.splits)
  have "n \<in># timers_of (tp_timer_heap (one_timer 1 5))" using P by (simp add: x)
  then have "tm_deadline_ns n = 5" by (simp add: timers_of_def one_timer_def Let_def bare_def)
  then show ?thesis using P by (simp add: x)
qed

theorem rehome_orders_when_covered_witness:
  "let three = (one_timer 1 5)\<lparr>tp_timer_heap := tp_timer_heap (one_timer 1 5) @ tp_timer_heap (one_timer 3 7) @ tp_timer_heap (one_timer 4 8)\<rparr>
   in heap_ordered (tp_timer_heap (snd (rehome_commit three (one_timer 2 9))))"
proof -
  define three where "three = (one_timer 1 5)\<lparr>tp_timer_heap := tp_timer_heap (one_timer 1 5) @ tp_timer_heap (one_timer 3 7) @ tp_timer_heap (one_timer 4 8)\<rparr>"
  obtain s' t' where x: "rehome_commit three (one_timer 2 9) = (s', t')" by fastforce
  have "tasked (tp_timer_heap three)" "tasked (tp_timer_heap (one_timer 2 9))"
      "(length (tp_timer_heap three) + length (tp_timer_heap (one_timer 2 9))) mod LLAM_TIMER_HEAP_ARITY < 2"
    by (simp_all add: three_def tasked_def one_timer_def Let_def LLAM_TIMER_HEAP_ARITY_def)
  from rehome_orders_when_covered [OF this x] show ?thesis by (simp add: x three_def [symmetric])
qed

end
