(* ===== verification/Work_Deque.thy ===== *)
theory Work_Deque
  imports LLAM_Prelude
begin

text \<open>
  The work-stealing deque of the scheduler's normal lane (\<^verbatim>\<open>core/sched/norm_queue.c\<close>): a Chase-Lev deque of
  4096 entries with cursors that run freely through the machine word. The owner pushes and pops at the bottom, any
  number of thieves take from the top. Each function is given as its sequential meaning and as the sequence of its
  atomic accesses; the accesses of the owner and the thieves are interleaved arbitrarily, each acting on the memory
  the one before it left. The theory shows that every interleaving is a legal history of an abstract double-ended
  queue: no task is lost, taken twice or taken out of order, also where the cursors wrap.
\<close>

section \<open>The deque\<close>

definition LLAM_NORM_QUEUE_CAP :: nat where "LLAM_NORM_QUEUE_CAP = 4096"

definition LLAM_CLDEQUE_DISTANCE_SIGN_BIT :: u64 where
  "LLAM_CLDEQUE_DISTANCE_SIGN_BIT = UINT64_MAX div 2 + 1"

definition llam_cldeque_distance_is_negative :: "u64 \<Rightarrow> bool" where
  "llam_cldeque_distance_is_negative distance \<longleftrightarrow> distance AND LLAM_CLDEQUE_DISTANCE_SIGN_BIT \<noteq> 0"

text \<open>Task pointers are words; 0 is the null pointer.\<close>

record cldeque =
  cl_top :: u64
  cl_bottom :: u64
  cl_buffer :: "u64 list"

definition llam_cldeque_init :: cldeque where
  "llam_cldeque_init = \<lparr>cl_top = 0, cl_bottom = 0, cl_buffer = replicate LLAM_NORM_QUEUE_CAP 0\<rparr>"

definition cl_index :: "u64 \<Rightarrow> nat" where
  "cl_index cursor = unat (cursor AND (of_nat LLAM_NORM_QUEUE_CAP - 1))"

definition llam_cldeque_push_bottom :: "cldeque \<Rightarrow> u64 \<Rightarrow> bool \<times> cldeque" where
  "llam_cldeque_push_bottom d task =
     (if task = 0 then (False, d)
      else let bottom = cl_bottom d; top = cl_top d; distance = bottom - top in
        if llam_cldeque_distance_is_negative distance \<or> of_nat LLAM_NORM_QUEUE_CAP \<le> distance then (False, d)
        else let d = d\<lparr>cl_buffer := (cl_buffer d)[cl_index bottom := task]\<rparr>
             in (True, d\<lparr>cl_bottom := bottom + 1\<rparr>))"

definition llam_cldeque_pop_bottom :: "cldeque \<Rightarrow> u64 \<times> cldeque" where
  "llam_cldeque_pop_bottom d =
     (let bottom = cl_bottom d - 1; d = d\<lparr>cl_bottom := bottom\<rparr>; top = cl_top d; distance = bottom - top in
      if llam_cldeque_distance_is_negative distance then (0, d\<lparr>cl_bottom := top\<rparr>)
      else let task = cl_buffer d ! cl_index bottom in
        if distance = 0
        then let (task, d) = (if cl_top d = top then (task, d\<lparr>cl_top := top + 1\<rparr>) else (0, d))
             in (task, d\<lparr>cl_bottom := top + 1\<rparr>)
        else (task, d))"

definition llam_cldeque_steal_top :: "cldeque \<Rightarrow> u64 \<times> cldeque" where
  "llam_cldeque_steal_top d =
     (let top = cl_top d; bottom = cl_bottom d; distance = bottom - top in
      if distance = 0 \<or> llam_cldeque_distance_is_negative distance then (0, d)
      else let task = cl_buffer d ! cl_index top in
        if task = 0 then (0, d)
        else if cl_top d = top then (task, d\<lparr>cl_top := top + 1\<rparr>) else (0, d))"

definition llam_cldeque_has_work :: "cldeque \<Rightarrow> bool" where
  "llam_cldeque_has_work d \<longleftrightarrow>
     (let distance = cl_bottom d - cl_top d in distance \<noteq> 0 \<and> \<not> llam_cldeque_distance_is_negative distance)"

section \<open>Atomic accesses\<close>

text \<open>
  Where the owner stands between two accesses of \<^verbatim>\<open>llam_cldeque_push_bottom\<close> or \<^verbatim>\<open>llam_cldeque_pop_bottom\<close>, with the
  local variables it has read; and where a thief stands in \<^verbatim>\<open>llam_cldeque_steal_top\<close>.
\<close>

datatype owner_pc =
    OwnerIdle
  | PushCall u64                \<comment> \<open>task\<close>
  | PushBottom u64 u64          \<comment> \<open>task, bottom read\<close>
  | PushRoom u64 u64            \<comment> \<open>task, bottom; top read and room found\<close>
  | PushSlot u64 u64            \<comment> \<open>task, bottom; slot written\<close>
  | PopCall
  | PopBottom u64               \<comment> \<open>decremented bottom, not yet stored\<close>
  | PopStored u64               \<comment> \<open>bottom stored\<close>
  | PopEmpty u64                \<comment> \<open>top to restore as bottom\<close>
  | PopTop u64 u64              \<comment> \<open>bottom, top read\<close>
  | PopLast u64 u64             \<comment> \<open>top, task; about to race for the last item\<close>
  | PopReset u64                \<comment> \<open>top; bottom to be reset above it\<close>

datatype thief_pc =
    ThiefIdle
  | StealCall
  | StealTop u64                \<comment> \<open>top read\<close>
  | StealRange u64              \<comment> \<open>top; bottom read and range found non-empty\<close>
  | StealTask u64 u64           \<comment> \<open>top, task read\<close>

text \<open>What an access decides: a published push, or a task taken at the bottom or at the top.\<close>

datatype deque_label = Silent | Pushed u64 | TakenBottom u64 | TakenTop u64

fun owner_access :: "owner_pc \<Rightarrow> cldeque \<Rightarrow> deque_label \<times> owner_pc \<times> cldeque" where
  "owner_access OwnerIdle d = (Silent, OwnerIdle, d)"
| "owner_access (PushCall task) d =
     (if task = 0 then (Silent, OwnerIdle, d) else (Silent, PushBottom task (cl_bottom d), d))"
| "owner_access (PushBottom task bottom) d =
     (let distance = bottom - cl_top d in
      if llam_cldeque_distance_is_negative distance \<or> of_nat LLAM_NORM_QUEUE_CAP \<le> distance
      then (Silent, OwnerIdle, d) else (Silent, PushRoom task bottom, d))"
| "owner_access (PushRoom task bottom) d =
     (Silent, PushSlot task bottom, d\<lparr>cl_buffer := (cl_buffer d)[cl_index bottom := task]\<rparr>)"
| "owner_access (PushSlot task bottom) d = (Pushed task, OwnerIdle, d\<lparr>cl_bottom := bottom + 1\<rparr>)"
| "owner_access PopCall d = (Silent, PopBottom (cl_bottom d - 1), d)"
| "owner_access (PopBottom bottom) d = (Silent, PopStored bottom, d\<lparr>cl_bottom := bottom\<rparr>)"
| "owner_access (PopStored bottom) d =
     (let tp = cl_top d in
      if llam_cldeque_distance_is_negative (bottom - tp) then (Silent, PopEmpty tp, d) else (Silent, PopTop bottom tp, d))"
| "owner_access (PopEmpty tp) d = (Silent, OwnerIdle, d\<lparr>cl_bottom := tp\<rparr>)"
| "owner_access (PopTop bottom tp) d =
     (let task = cl_buffer d ! cl_index bottom in
      if bottom - tp = 0 then (Silent, PopLast tp task, d) else (TakenBottom task, OwnerIdle, d))"
| "owner_access (PopLast tp task) d =
     (if cl_top d = tp then (TakenTop task, PopReset tp, d\<lparr>cl_top := tp + 1\<rparr>) else (Silent, PopReset tp, d))"
| "owner_access (PopReset tp) d = (Silent, OwnerIdle, d\<lparr>cl_bottom := tp + 1\<rparr>)"

fun thief_access :: "thief_pc \<Rightarrow> cldeque \<Rightarrow> deque_label \<times> thief_pc \<times> cldeque" where
  "thief_access ThiefIdle d = (Silent, ThiefIdle, d)"
| "thief_access StealCall d = (Silent, StealTop (cl_top d), d)"
| "thief_access (StealTop tp) d =
     (let distance = cl_bottom d - tp in
      if distance = 0 \<or> llam_cldeque_distance_is_negative distance then (Silent, ThiefIdle, d)
      else (Silent, StealRange tp, d))"
| "thief_access (StealRange tp) d =
     (let task = cl_buffer d ! cl_index tp in
      if task = 0 then (Silent, ThiefIdle, d) else (Silent, StealTask tp task, d))"
| "thief_access (StealTask tp task) d =
     (if cl_top d = tp then (TakenTop task, ThiefIdle, d\<lparr>cl_top := tp + 1\<rparr>) else (Silent, ThiefIdle, d))"

record deque_system =
  sy_deque :: cldeque
  sy_owner :: owner_pc
  sy_thief :: "nat \<Rightarrow> thief_pc"

inductive deque_step :: "deque_system \<Rightarrow> deque_label \<Rightarrow> deque_system \<Rightarrow> bool" where
  call_push: "sy_owner s = OwnerIdle \<Longrightarrow> deque_step s Silent (s\<lparr>sy_owner := PushCall task\<rparr>)"
| call_pop: "sy_owner s = OwnerIdle \<Longrightarrow> deque_step s Silent (s\<lparr>sy_owner := PopCall\<rparr>)"
| call_steal: "sy_thief s i = ThiefIdle \<Longrightarrow> deque_step s Silent (s\<lparr>sy_thief := (sy_thief s)(i := StealCall)\<rparr>)"
| owner: "owner_access (sy_owner s) (sy_deque s) = (l, pc, d) \<Longrightarrow> deque_step s l (s\<lparr>sy_owner := pc, sy_deque := d\<rparr>)"
| thief: "thief_access (sy_thief s i) (sy_deque s) = (l, pc, d) \<Longrightarrow>
    deque_step s l (s\<lparr>sy_thief := (sy_thief s)(i := pc), sy_deque := d\<rparr>)"

inductive deque_run :: "deque_system \<Rightarrow> deque_label list \<Rightarrow> deque_system \<Rightarrow> bool" where
  start: "deque_run s [] s"
| more: "deque_run s ls s1 \<Longrightarrow> deque_step s1 l s2 \<Longrightarrow> deque_run s (ls @ [l]) s2"

text \<open>A schedule names who moves next; carrying it out is a run.\<close>

datatype deque_move = CallPush u64 | CallPop | CallSteal nat | OwnerMove | ThiefMove nat

fun make_move :: "deque_move \<Rightarrow> deque_system \<Rightarrow> (deque_label \<times> deque_system) option" where
  "make_move (CallPush task) s = (if sy_owner s = OwnerIdle then Some (Silent, s\<lparr>sy_owner := PushCall task\<rparr>) else None)"
| "make_move CallPop s = (if sy_owner s = OwnerIdle then Some (Silent, s\<lparr>sy_owner := PopCall\<rparr>) else None)"
| "make_move (CallSteal i) s =
     (if sy_thief s i = ThiefIdle then Some (Silent, s\<lparr>sy_thief := (sy_thief s)(i := StealCall)\<rparr>) else None)"
| "make_move OwnerMove s = (case owner_access (sy_owner s) (sy_deque s) of (l, pc, d) \<Rightarrow> Some (l, s\<lparr>sy_owner := pc, sy_deque := d\<rparr>))"
| "make_move (ThiefMove i) s = (case thief_access (sy_thief s i) (sy_deque s) of (l, pc, d) \<Rightarrow>
     Some (l, s\<lparr>sy_thief := (sy_thief s)(i := pc), sy_deque := d\<rparr>))"

fun schedule :: "deque_move list \<Rightarrow> deque_system \<Rightarrow> (deque_label list \<times> deque_system) option" where
  "schedule [] s = Some ([], s)"
| "schedule (m # ms) s = (case make_move m s of None \<Rightarrow> None
     | Some (l, s1) \<Rightarrow> map_option (\<lambda>(ls, s2). (l # ls, s2)) (schedule ms s1))"

text \<open>The abstract double-ended queue: the only histories it allows.\<close>

fun deque_spec :: "deque_label \<Rightarrow> u64 list \<Rightarrow> u64 list option" where
  "deque_spec Silent q = Some q"
| "deque_spec (Pushed t) q = (if length q < LLAM_NORM_QUEUE_CAP then Some (q @ [t]) else None)"
| "deque_spec (TakenBottom t) q = (if q \<noteq> [] \<and> last q = t then Some (butlast q) else None)"
| "deque_spec (TakenTop t) q = (if q \<noteq> [] \<and> hd q = t then Some (tl q) else None)"

fun deque_history :: "deque_label list \<Rightarrow> u64 list \<Rightarrow> u64 list option" where
  "deque_history [] q = Some q"
| "deque_history (l # ls) q = (case deque_spec l q of None \<Rightarrow> None | Some q' \<Rightarrow> deque_history ls q')"

text \<open>An empty deque whose cursors may stand anywhere, with nobody at work.\<close>

definition idle_deque :: "u64 \<Rightarrow> u64 list \<Rightarrow> deque_system" where
  "idle_deque base buffer =
     \<lparr>sy_deque = \<lparr>cl_top = base, cl_bottom = base, cl_buffer = buffer\<rparr>, sy_owner = OwnerIdle, sy_thief = (\<lambda>_. ThiefIdle)\<rparr>"

fun pushes :: "deque_label list \<Rightarrow> nat" where
  "pushes [] = 0"
| "pushes (Pushed t # ls) = Suc (pushes ls)"
| "pushes (_ # ls) = pushes ls"

section \<open>Cursors\<close>

lemma distance_negative: "llam_cldeque_distance_is_negative w \<longleftrightarrow> bit w 63"
proof -
  have e: "LLAM_CLDEQUE_DISTANCE_SIGN_BIT = 2 ^ 63"
    by (simp add: LLAM_CLDEQUE_DISTANCE_SIGN_BIT_def word_eq_iff_unsigned unat_div)
  show ?thesis unfolding llam_cldeque_distance_is_negative_def e and_exp_eq_0_iff_not_bit by simp
qed

lemma unat_of_nat64: "k < 2 ^ 64 \<Longrightarrow> unat (of_nat k :: u64) = k"
  by (simp add: unsigned_of_nat take_bit_nat_eq_self)

lemma small_distance: "k < 2 ^ 63 \<Longrightarrow> \<not> llam_cldeque_distance_is_negative (of_nat k)"
proof -
  assume k: "k < 2 ^ 63"
  then have "unat (of_nat k :: u64) < 2 ^ 63" by (subst unat_of_nat64) simp_all
  from bit_small_False [OF this, of 63] show ?thesis by (simp add: distance_negative)
qed

lemma minus_one_negative: "llam_cldeque_distance_is_negative (- 1)"
  by (simp add: distance_negative)

lemma cl_index_mod: "cl_index w = unat w mod LLAM_NORM_QUEUE_CAP"
proof -
  have m: "of_nat LLAM_NORM_QUEUE_CAP - 1 = (mask 12 :: u64)"
    by (simp add: LLAM_NORM_QUEUE_CAP_def mask_eq_exp_minus_1)
  show ?thesis by (simp add: cl_index_def m unat_and_mask_mod) (simp add: LLAM_NORM_QUEUE_CAP_def)
qed

lemma cl_index_less: "cl_index w < LLAM_NORM_QUEUE_CAP"
  by (simp add: cl_index_mod LLAM_NORM_QUEUE_CAP_def)

lemma cl_index_add: "cl_index (base + of_nat m) = (unat base + m) mod LLAM_NORM_QUEUE_CAP"
proof -
  have d: "LLAM_NORM_QUEUE_CAP dvd 2 ^ 64" by (simp add: LLAM_NORM_QUEUE_CAP_def)
  have "unat (base + of_nat m) = (unat base + m) mod 2 ^ 64"
    by (simp add: unat_word_ariths unat_of_nat mod_add_right_eq)
  then show ?thesis by (simp only: cl_index_mod mod_mod_cancel [OF d])
qed

lemma cursor_eq: "n < 2 ^ 64 \<Longrightarrow> m < 2 ^ 64 \<Longrightarrow> (base :: u64) + of_nat n = base + of_nat m \<longleftrightarrow> n = m"
  by (metis add_left_cancel unat_of_nat64)

section \<open>The invariant\<close>

text \<open>
  \<open>T\<close> and \<open>B\<close> count the items ever taken at the top and the end of the live range; the cursors are their images in
  the machine word. While the owner is about to take an item without a race, that item is out of the thieves' reach.
\<close>

definition claimed :: "owner_pc \<Rightarrow> nat" where
  "claimed pc = (case pc of PopTop bottom tp \<Rightarrow> if bottom = tp then 0 else 1 | _ \<Rightarrow> 0)"

definition lowered :: "owner_pc \<Rightarrow> bool" where
  "lowered pc \<longleftrightarrow> (case pc of PopStored _ \<Rightarrow> True | PopEmpty _ \<Rightarrow> True | PopTop _ _ \<Rightarrow> True | PopLast _ _ \<Rightarrow> True | PopReset _ \<Rightarrow> True
     | _ \<Rightarrow> False)"

definition owner_ok :: "u64 \<Rightarrow> nat \<Rightarrow> nat \<Rightarrow> u64 list \<Rightarrow> u64 list \<Rightarrow> owner_pc \<Rightarrow> bool" where
  "owner_ok base T B buffer q pc \<longleftrightarrow>
     (case pc of
        PushBottom task b \<Rightarrow> task \<noteq> 0 \<and> b = base + of_nat B
      | PushRoom task b \<Rightarrow> task \<noteq> 0 \<and> b = base + of_nat B \<and> B - T < LLAM_NORM_QUEUE_CAP
      | PushSlot task b \<Rightarrow> task \<noteq> 0 \<and> b = base + of_nat B \<and> B - T < LLAM_NORM_QUEUE_CAP \<and>
          buffer ! ((unat base + B) mod LLAM_NORM_QUEUE_CAP) = task
      | PopBottom b \<Rightarrow> b = base + of_nat B - 1
      | PopStored b \<Rightarrow> b = base + of_nat B - 1
      | PopEmpty tp \<Rightarrow> T = B \<and> tp = base + of_nat B
      | PopTop b tp \<Rightarrow> 0 < B \<and> b = base + of_nat (B - 1) \<and> (b = tp \<longrightarrow> B - 1 \<le> T)
      | PopLast tp task \<Rightarrow> 0 < B \<and> tp = base + of_nat (B - 1) \<and> B - 1 \<le> T \<and> (T < B \<longrightarrow> q = [task])
      | PopReset tp \<Rightarrow> 0 < B \<and> T = B \<and> tp = base + of_nat (B - 1)
      | _ \<Rightarrow> True)"

definition thief_ok :: "u64 \<Rightarrow> nat \<Rightarrow> nat \<Rightarrow> u64 list \<Rightarrow> thief_pc \<Rightarrow> bool" where
  "thief_ok base T L q pc \<longleftrightarrow>
     (case pc of
        StealTop tp \<Rightarrow> \<exists>n\<le>T. tp = base + of_nat n
      | StealRange tp \<Rightarrow> \<exists>n\<le>T. tp = base + of_nat n \<and> (n = T \<longrightarrow> T < L)
      | StealTask tp task \<Rightarrow> \<exists>n\<le>T. tp = base + of_nat n \<and> (n = T \<longrightarrow> T < L \<and> hd q = task)
      | _ \<Rightarrow> True)"

definition spans :: "u64 \<Rightarrow> nat \<Rightarrow> nat \<Rightarrow> u64 list \<Rightarrow> u64 list \<Rightarrow> bool" where
  "spans base T B buffer q \<longleftrightarrow> length buffer = LLAM_NORM_QUEUE_CAP \<and>
     q = window buffer LLAM_NORM_QUEUE_CAP (unat base + T) (B - T) \<and> 0 \<notin> set q"

definition deque_inv :: "u64 \<Rightarrow> nat \<Rightarrow> nat \<Rightarrow> u64 list \<Rightarrow> deque_system \<Rightarrow> bool" where
  "deque_inv base T B q s \<longleftrightarrow>
     spans base T B (cl_buffer (sy_deque s)) q \<and>
     T + claimed (sy_owner s) \<le> B \<and> B - T \<le> LLAM_NORM_QUEUE_CAP \<and>
     cl_top (sy_deque s) = base + of_nat T \<and>
     cl_bottom (sy_deque s) = base + of_nat B - (if lowered (sy_owner s) then 1 else 0) \<and>
     owner_ok base T B (cl_buffer (sy_deque s)) q (sy_owner s) \<and>
     (\<forall>i. thief_ok base T (B - claimed (sy_owner s)) q (sy_thief s i))"

lemmas owner_simps = claimed_def lowered_def owner_ok_def

lemma window_snoc: "window buf cap h (Suc n) = window buf cap h n @ [buf ! ((h + n) mod cap)]"
  by (simp add: window_def)

lemma spans_length: "spans base T B buffer q \<Longrightarrow> length q = B - T"
  by (simp add: spans_def)

lemma spans_write:
  assumes "spans base T B buffer q" "T \<le> B" "B - T < LLAM_NORM_QUEUE_CAP"
  shows "spans base T B (buffer[cl_index (base + of_nat B) := x]) q"
proof -
  have ix: "cl_index (base + of_nat B) = (unat base + T + (B - T)) mod LLAM_NORM_QUEUE_CAP" using assms(2) by (simp add: cl_index_add)
  have "window (buffer[cl_index (base + of_nat B) := x]) LLAM_NORM_QUEUE_CAP (unat base + T) (B - T)
      = window buffer LLAM_NORM_QUEUE_CAP (unat base + T) (B - T)"
    unfolding ix by (rule window_other) (use assms in \<open>auto simp: spans_def\<close>)
  then show ?thesis using assms(1) by (auto simp: spans_def)
qed

lemma spans_push:
  assumes "spans base T B buffer q" "T \<le> B" "x \<noteq> 0" "buffer ! ((unat base + B) mod LLAM_NORM_QUEUE_CAP) = x"
  shows "spans base T (Suc B) buffer (q @ [x])"
  using assms by (auto simp: spans_def window_snoc Suc_diff_le)

lemma spans_pop:
  assumes "spans base T B buffer q" "T < B"
  shows "q = butlast q @ [buffer ! cl_index (base + of_nat (B - 1))]" "spans base T (B - 1) buffer (butlast q)"
proof -
  have e: "B - T = Suc (B - 1 - T)" "unat base + T + (B - 1 - T) = unat base + (B - 1)" using assms(2) by auto
  have q: "q = window buffer LLAM_NORM_QUEUE_CAP (unat base + T) (B - 1 - T) @ [buffer ! cl_index (base + of_nat (B - 1))]"
    using assms(1) unfolding spans_def by (metis e window_snoc cl_index_add)
  then show "q = butlast q @ [buffer ! cl_index (base + of_nat (B - 1))]" by (metis butlast_snoc)
  have b: "butlast q = window buffer LLAM_NORM_QUEUE_CAP (unat base + T) (B - 1 - T)" using q by (metis butlast_snoc)
  have "0 \<notin> set (butlast q)" using assms(1) by (auto simp: spans_def dest: in_set_butlastD)
  then show "spans base T (B - 1) buffer (butlast q)" using assms(1) b by (simp add: spans_def)
qed

lemma spans_take:
  assumes "spans base T B buffer q" "T < B"
  shows "q = buffer ! cl_index (base + of_nat T) # tl q" "spans base (Suc T) B buffer (tl q)"
proof -
  have e: "B - T = Suc (B - Suc T)" using assms(2) by auto
  have q: "q = buffer ! cl_index (base + of_nat T) # window buffer LLAM_NORM_QUEUE_CAP (unat base + Suc T) (B - Suc T)"
    using assms(1) unfolding spans_def by (metis e window_Suc cl_index_add add_Suc_right)
  then show "q = buffer ! cl_index (base + of_nat T) # tl q" by (metis list.sel(3))
  have t: "tl q = window buffer LLAM_NORM_QUEUE_CAP (unat base + Suc T) (B - Suc T)" using q by (metis list.sel(3))
  have "0 \<notin> set (tl q)" using assms(1) unfolding spans_def by (metis list.sel(2) list.set_sel(2))
  then show "spans base (Suc T) B buffer (tl q)" using assms(1) t by (simp add: spans_def)
qed

lemma cursor_distance: "T \<le> B \<Longrightarrow> (base :: u64) + of_nat B - (base + of_nat T) = of_nat (B - T)"
  by simp

lemma cursor_distance_lowered:
  assumes "T \<le> B"
  shows "(base :: u64) + of_nat B - 1 - (base + of_nat T) = (if T = B then - 1 else of_nat (B - 1 - T))"
  using assms by (cases "T = B") (auto simp: of_nat_diff)

lemma distance_neg_lowered:
  assumes "T \<le> B" "B - T \<le> LLAM_NORM_QUEUE_CAP"
  shows "llam_cldeque_distance_is_negative (base + of_nat B - 1 - (base + of_nat T)) \<longleftrightarrow> T = B"
proof (cases "T = B")
  case False
  have "B - 1 - T < 2 ^ 63" using assms by (simp add: LLAM_NORM_QUEUE_CAP_def)
  then show ?thesis using False small_distance [of "B - 1 - T"] assms(1) by (simp only: cursor_distance_lowered if_False simp_thms)
qed (simp add: minus_one_negative)

lemma inv_thief: "deque_inv base T B q s \<Longrightarrow> thief_ok base T (B - claimed (sy_owner s)) q (sy_thief s i)"
  by (simp add: deque_inv_def)

text \<open>A step is accounted for: its label is allowed on the abstract queue, and the invariant holds with the result.\<close>

definition accounted :: "u64 \<Rightarrow> nat \<Rightarrow> u64 list \<Rightarrow> deque_label \<Rightarrow> deque_system \<Rightarrow> bool" where
  "accounted base B q l s' \<longleftrightarrow> (\<exists>T' B' q'. deque_spec l q = Some q' \<and> deque_inv base T' B' q' s' \<and> B' \<le> B + pushes [l])"

lemma accountedI:
  "deque_inv base T' B' q' s' \<Longrightarrow> deque_spec l q = Some q' \<Longrightarrow> B' \<le> B + pushes [l] \<Longrightarrow> accounted base B q l s'"
  unfolding accounted_def by blast

lemma thief_ok_mono: "thief_ok base T L q pc \<Longrightarrow> L \<le> L' \<Longrightarrow> (T < L \<Longrightarrow> hd q' = hd q) \<Longrightarrow> thief_ok base T L' q' pc"
  by (force simp: thief_ok_def split: thief_pc.splits)

lemma thief_ok_passed: "thief_ok base T L q pc \<Longrightarrow> thief_ok base (Suc T) L' q' pc"
  by (cases pc; simp add: thief_ok_def; metis le_SucI Suc_n_not_le_n)

lemma push_bottom_step:
  assumes inv: "deque_inv base T B q s" and step: "owner_access (sy_owner s) (sy_deque s) = (l, pc, d)" and small: "Suc B < 2 ^ 64"
    and PushBottom: "sy_owner s = PushBottom task b"
  shows "accounted base B q l (s\<lparr>sy_owner := pc, sy_deque := d\<rparr>)"
proof -
  have "B - T < LLAM_NORM_QUEUE_CAP" if "pc \<noteq> OwnerIdle"
  proof -
    have D: "\<not> of_nat LLAM_NORM_QUEUE_CAP \<le> b - cl_top (sy_deque s)" using PushBottom step that by (auto simp: Let_def split: if_splits)
    have i: "T \<le> B" "B - T \<le> LLAM_NORM_QUEUE_CAP" "b = base + of_nat B" "cl_top (sy_deque s) = base + of_nat T"
      using inv PushBottom by (auto simp: deque_inv_def owner_simps)
    have "B - T < 2 ^ 64" using i(2) by (simp add: LLAM_NORM_QUEUE_CAP_def)
    then have "unat (b - cl_top (sy_deque s)) = B - T" unfolding i(3,4) cursor_distance [OF i(1)] by (rule unat_of_nat64)
    then show ?thesis using D by (simp add: word_le_nat_alt LLAM_NORM_QUEUE_CAP_def)
  qed
  then show ?thesis using inv step PushBottom
    by (intro accountedI [of _ T B q]) (auto simp: deque_inv_def owner_simps Let_def split: if_splits)
qed

lemma push_room_step:
  assumes inv: "deque_inv base T B q s" and step: "owner_access (sy_owner s) (sy_deque s) = (l, pc, d)" and small: "Suc B < 2 ^ 64"
    and PushRoom: "sy_owner s = PushRoom task b"
  shows "accounted base B q l (s\<lparr>sy_owner := pc, sy_deque := d\<rparr>)"
proof -
  have b: "b = base + of_nat B" "B - T < LLAM_NORM_QUEUE_CAP" "T \<le> B" "spans base T B (cl_buffer (sy_deque s)) q"
    using inv PushRoom by (auto simp: deque_inv_def owner_simps)
  have c: "(unat base + B) mod LLAM_NORM_QUEUE_CAP < length (cl_buffer (sy_deque s))" using b(4) by (simp add: spans_def LLAM_NORM_QUEUE_CAP_def)
  show ?thesis using inv step PushRoom spans_write [OF b(4,3,2), of task] b c
    by (intro accountedI [of _ T B q]) (auto simp: deque_inv_def owner_simps cl_index_add)
qed

lemma push_slot_step:
  assumes inv: "deque_inv base T B q s" and step: "owner_access (sy_owner s) (sy_deque s) = (l, pc, d)" and small: "Suc B < 2 ^ 64"
    and PushSlot: "sy_owner s = PushSlot task b"
  shows "accounted base B q l (s\<lparr>sy_owner := pc, sy_deque := d\<rparr>)"
proof -
  let ?q = "q @ [task]"
  have i: "spans base T B (cl_buffer (sy_deque s)) q" "T \<le> B" "task \<noteq> 0" "B - T < LLAM_NORM_QUEUE_CAP"
      "cl_buffer (sy_deque s) ! ((unat base + B) mod LLAM_NORM_QUEUE_CAP) = task"
    using inv PushSlot by (auto simp: deque_inv_def owner_simps)
  have th: "thief_ok base T (Suc B) ?q (sy_thief s i)" for i
  proof (rule thief_ok_mono)
    show "thief_ok base T B q (sy_thief s i)" using inv_thief [OF inv, of i] PushSlot by (simp add: owner_simps)
    show "hd ?q = hd q" if "T < B" using that spans_length [OF i(1)] by (cases q) auto
  qed simp
  have "deque_inv base T (Suc B) ?q (s\<lparr>sy_owner := pc, sy_deque := d\<rparr>)"
    unfolding deque_inv_def using inv step PushSlot i(2) spans_push [OF i(1,2,3,5)] th by (auto simp: deque_inv_def owner_simps)
  then show ?thesis using step PushSlot spans_length [OF i(1)] i(4) by (intro accountedI) auto
qed

lemma pop_stored_step:
  assumes inv: "deque_inv base T B q s" and step: "owner_access (sy_owner s) (sy_deque s) = (l, pc, d)" and small: "Suc B < 2 ^ 64"
    and PopStored: "sy_owner s = PopStored b"
  shows "accounted base B q l (s\<lparr>sy_owner := pc, sy_deque := d\<rparr>)"
proof -
  have i: "T \<le> B" "B - T \<le> LLAM_NORM_QUEUE_CAP" "cl_top (sy_deque s) = base + of_nat T" "b = base + of_nat B - 1"
    using inv PopStored by (auto simp: deque_inv_def owner_simps)
  show ?thesis
  proof (cases "T = B")
    case True
    then have "pc = PopEmpty (base + of_nat B)" "l = Silent" "d = sy_deque s"
      using step PopStored i distance_neg_lowered [OF i(1,2)] by (auto simp: Let_def)
    then show ?thesis using inv PopStored True by (intro accountedI [of _ T B q]) (auto simp: deque_inv_def owner_simps)
  next
    case False
    let ?tp = "base + of_nat T"
    have r: "pc = PopTop b ?tp" "l = Silent" "d = sy_deque s"
      using step PopStored i distance_neg_lowered [OF i(1,2)] False by (auto simp: Let_def)
    have b: "b = base + of_nat (B - 1)" using i(1,4) False by (simp add: of_nat_diff)
    have eq: "b = ?tp \<longleftrightarrow> B - 1 = T" unfolding b by (rule cursor_eq) (use small i(1) in auto)
    have th: "thief_ok base T (B - claimed pc) q (sy_thief s i)" for i
    proof (cases "B - 1 = T")
      case True
      then show ?thesis using inv_thief [OF inv, of i] PopStored r eq by (simp add: owner_simps)
    next
      case far: False
      have "thief_ok base T B q (sy_thief s i)" using inv_thief [OF inv, of i] PopStored by (simp add: owner_simps)
      then have "thief_ok base T (B - 1) q (sy_thief s i)" using far False i(1) by (auto simp: thief_ok_def split: thief_pc.splits)
      then show ?thesis using far r eq by (simp add: owner_simps)
    qed
    show ?thesis using inv PopStored r b eq th False i(1) by (intro accountedI [of _ T B q]) (auto simp: deque_inv_def owner_simps)
  qed
qed

lemma pop_top_step:
  assumes inv: "deque_inv base T B q s" and step: "owner_access (sy_owner s) (sy_deque s) = (l, pc, d)" and small: "Suc B < 2 ^ 64"
    and PopTop: "sy_owner s = PopTop b tp"
  shows "accounted base B q l (s\<lparr>sy_owner := pc, sy_deque := d\<rparr>)"
proof -
  have i: "0 < B" "b = base + of_nat (B - 1)" "T \<le> B" "spans base T B (cl_buffer (sy_deque s)) q"
      "b = tp \<Longrightarrow> B - 1 \<le> T" "T + claimed (PopTop b tp) \<le> B"
    using inv PopTop by (auto simp: deque_inv_def owner_simps)
  let ?task = "cl_buffer (sy_deque s) ! cl_index b"
  show ?thesis
  proof (cases "b = tp")
    case True
    then have r: "pc = PopLast tp ?task" "l = Silent" "d = sy_deque s" using step PopTop by auto
    have "q = [?task]" if "T < B"
    proof -
      have "length (butlast q) = 0" using spans_length [OF spans_pop(2) [OF i(4) that]] i(5) [OF True] by simp
      then show ?thesis using spans_pop(1) [OF i(4) that] i(2) by (metis append_Nil length_0_conv)
    qed
    then show ?thesis using inv PopTop True i r by (intro accountedI [of _ T B q]) (auto simp: deque_inv_def owner_simps)
  next
    case False
    then have r: "pc = OwnerIdle" "l = TakenBottom ?task" "d = sy_deque s" and T: "T < B" using step PopTop i by (auto simp: owner_simps)
    let ?q = "butlast q"
    note sp = spans_pop [OF i(4) T]
    have th: "thief_ok base T (B - 1) ?q (sy_thief s i)" for i
    proof (rule thief_ok_mono)
      show "thief_ok base T (B - 1) q (sy_thief s i)" using inv_thief [OF inv, of i] PopTop False by (simp add: owner_simps)
      show "hd ?q = hd q" if "T < B - 1"
      proof -
        have "?q \<noteq> []" using that spans_length [OF sp(2)] by (metis list.size(3) zero_less_diff less_nat_zero_code)
        then show ?thesis using sp(1) by (metis hd_append2)
      qed
    qed simp
    have "deque_inv base T (B - 1) ?q (s\<lparr>sy_owner := pc, sy_deque := d\<rparr>)"
      unfolding deque_inv_def using inv PopTop r sp(2) th T by (auto simp: deque_inv_def owner_simps of_nat_diff)
    moreover have "q \<noteq> []" "last q = ?task" using sp(1) i(2) by (metis snoc_eq_iff_butlast)+
    ultimately show ?thesis using r by (intro accountedI) auto
  qed
qed

lemma pop_last_step:
  assumes inv: "deque_inv base T B q s" and step: "owner_access (sy_owner s) (sy_deque s) = (l, pc, d)" and small: "Suc B < 2 ^ 64"
    and PopLast: "sy_owner s = PopLast tp task"
  shows "accounted base B q l (s\<lparr>sy_owner := pc, sy_deque := d\<rparr>)"
proof -
  have i: "0 < B" "tp = base + of_nat (B - 1)" "T \<le> B" "B - 1 \<le> T" "T < B \<Longrightarrow> q = [task]" "cl_top (sy_deque s) = base + of_nat T"
    using inv PopLast by (auto simp: deque_inv_def owner_simps)
  have eq: "cl_top (sy_deque s) = tp \<longleftrightarrow> T = B - 1" unfolding i(2,6) by (rule cursor_eq) (use small i(3) in auto)
  show ?thesis
  proof (cases "T = B - 1")
    case True
    then have r: "pc = PopReset tp" "l = TakenTop task" "d = (sy_deque s)\<lparr>cl_top := tp + 1\<rparr>" using step PopLast eq by auto
    have th: "thief_ok base (Suc T) B [] (sy_thief s i)" for i
      by (rule thief_ok_passed) (rule inv_thief [OF inv])
    have T: "T < B" using True i(1) by simp
    have sp: "spans base (Suc T) B (cl_buffer (sy_deque s)) []"
      using spans_take(2) [of base T B "cl_buffer (sy_deque s)" q] inv i(5) [OF T] T by (simp add: deque_inv_def)
    have "deque_inv base (Suc T) B [] (s\<lparr>sy_owner := pc, sy_deque := d\<rparr>)"
      unfolding deque_inv_def using inv PopLast r True i th sp by (auto simp: deque_inv_def owner_simps of_nat_diff)
    then show ?thesis using r i True by (intro accountedI) auto
  next
    case False
    then show ?thesis using inv step PopLast eq i by (intro accountedI [of _ T B q]) (auto simp: deque_inv_def owner_simps)
  qed
qed

lemma owner_step:
  assumes inv: "deque_inv base T B q s" and step: "owner_access (sy_owner s) (sy_deque s) = (l, pc, d)" and small: "Suc B < 2 ^ 64"
  shows "accounted base B q l (s\<lparr>sy_owner := pc, sy_deque := d\<rparr>)"
proof (cases "sy_owner s")
  case OwnerIdle
  then show ?thesis using inv step by (intro accountedI [of _ T B q]) (auto simp: deque_inv_def)
next
  case (PushCall task)
  then show ?thesis using inv step by (intro accountedI [of _ T B q]) (auto simp: deque_inv_def owner_simps split: if_splits)
next
  case (PushBottom task b)
  with assms show ?thesis by (rule push_bottom_step)
next
  case (PushRoom task b)
  with assms show ?thesis by (rule push_room_step)
next
  case (PushSlot task b)
  with assms show ?thesis by (rule push_slot_step)
next
  case PopCall
  then show ?thesis using inv step by (intro accountedI [of _ T B q]) (auto simp: deque_inv_def owner_simps)
next
  case (PopBottom b)
  then show ?thesis using inv step by (intro accountedI [of _ T B q]) (auto simp: deque_inv_def owner_simps)
next
  case (PopStored b)
  with assms show ?thesis by (rule pop_stored_step)
next
  case (PopEmpty tp)
  then show ?thesis using inv step by (intro accountedI [of _ T B q]) (auto simp: deque_inv_def owner_simps)
next
  case (PopTop b tp)
  with assms show ?thesis by (rule pop_top_step)
next
  case (PopLast tp task)
  with assms show ?thesis by (rule pop_last_step)
next
  case (PopReset tp)
  then show ?thesis using inv step by (intro accountedI [of _ T B q]) (auto simp: deque_inv_def owner_simps)
qed

lemma steal_range_ok: "n \<le> T \<Longrightarrow> (n = T \<Longrightarrow> T < L) \<Longrightarrow> thief_ok base T L q (StealRange (base + of_nat n))"
  by (auto simp: thief_ok_def)

lemma steal_task_ok:
  "n \<le> T \<Longrightarrow> (n = T \<Longrightarrow> T < L) \<Longrightarrow> (n = T \<Longrightarrow> hd q = task) \<Longrightarrow> thief_ok base T L q (StealTask (base + of_nat n) task)"
  by (auto simp: thief_ok_def)

lemma range_found:
  assumes inv: "deque_inv base T B q s" and d: "cl_bottom (sy_deque s) - (base + of_nat T) \<noteq> 0"
    "\<not> llam_cldeque_distance_is_negative (cl_bottom (sy_deque s) - (base + of_nat T))"
  shows "T < B - claimed (sy_owner s)"
proof (cases "lowered (sy_owner s)")
  case True
  have i: "T \<le> B" "B - T \<le> LLAM_NORM_QUEUE_CAP" "cl_bottom (sy_deque s) = base + of_nat B - 1" using inv True by (auto simp: deque_inv_def)
  have ne: "T \<noteq> B" using d(2) distance_neg_lowered [OF i(1,2), of base] unfolding i(3) by blast
  have e: "cl_bottom (sy_deque s) - (base + of_nat T) = of_nat (B - 1 - T)"
    unfolding i(3) cursor_distance_lowered [OF i(1), of base] using ne by (simp only: if_False)
  have "B - 1 - T \<noteq> 0"
  proof
    assume z: "B - 1 - T = 0"
    show False using d(1) unfolding e z of_nat_0 by (metis mult_zero_left)
  qed
  moreover have "claimed (sy_owner s) \<le> 1" by (cases "sy_owner s") (simp_all add: claimed_def)
  ultimately show ?thesis by linarith
next
  case False
  then have c: "claimed (sy_owner s) = 0" by (cases "sy_owner s") (simp_all add: owner_simps)
  have "T \<noteq> B" using d(1) inv False by (auto simp: deque_inv_def)
  then show ?thesis using inv c by (simp add: deque_inv_def)
qed

lemma owner_ok_passed:
  "owner_ok base T B buffer q pc \<Longrightarrow> T < B - claimed pc \<Longrightarrow> owner_ok base (Suc T) B buffer q' pc"
  by (cases pc) (auto simp: owner_simps split: if_splits)

lemma thief_step:
  assumes inv: "deque_inv base T B q s" and step: "thief_access (sy_thief s i) (sy_deque s) = (l, pc, d)" and small: "Suc B < 2 ^ 64"
  shows "accounted base B q l (s\<lparr>sy_thief := (sy_thief s)(i := pc), sy_deque := d\<rparr>)"
proof -
  let ?L = "B - claimed (sy_owner s)"
  have i: "T \<le> ?L" "?L \<le> B" "B - T \<le> LLAM_NORM_QUEUE_CAP" "cl_top (sy_deque s) = base + of_nat T" "spans base T B (cl_buffer (sy_deque s)) q"
    using inv by (auto simp: deque_inv_def)
  note th = inv_thief [OF inv, of i]
  have quiet: ?thesis if "l = Silent" "d = sy_deque s" "thief_ok base T ?L q pc"
    using inv that by (intro accountedI [of _ T B q]) (auto simp: deque_inv_def)
  show ?thesis
  proof (cases "sy_thief s i")
    case (StealTop tp)
    then obtain n where n: "n \<le> T" "tp = base + of_nat n" using th by (auto simp: thief_ok_def)
    have "thief_ok base T ?L q pc"
    proof (cases "pc = StealRange tp")
      case True
      then have "T < ?L" if "n = T" using that step StealTop n(2) by (intro range_found [OF inv]) (auto simp: Let_def split: if_splits)
      then show ?thesis unfolding True n(2) by (rule steal_range_ok [OF n(1)])
    next
      case False
      then show ?thesis using step StealTop by (auto simp: Let_def thief_ok_def split: if_splits)
    qed
    then show ?thesis using step StealTop by (intro quiet) (auto simp: Let_def split: if_splits)
  next
    case (StealRange tp)
    then obtain n where n: "n \<le> T" "tp = base + of_nat n" "n = T \<longrightarrow> T < ?L" using th by (auto simp: thief_ok_def)
    have "hd q = cl_buffer (sy_deque s) ! cl_index tp" if "n = T"
      using spans_take(1) [OF i(5)] n that i(2) by (metis list.sel(1) less_le_trans)
    then have "thief_ok base T ?L q (StealTask tp (cl_buffer (sy_deque s) ! cl_index tp))" unfolding n(2) using n(1,3) by (intro steal_task_ok) auto
    then show ?thesis using step StealRange by (intro quiet) (auto simp: Let_def thief_ok_def [of _ _ _ _ ThiefIdle] split: if_splits)
  next
    case (StealTask tp task)
    then obtain n where n: "n \<le> T" "tp = base + of_nat n" "n = T \<longrightarrow> T < ?L \<and> hd q = task" using th by (auto simp: thief_ok_def)
    have eq: "cl_top (sy_deque s) = tp \<longleftrightarrow> T = n" unfolding n(2) i(4) by (rule cursor_eq) (use small n(1) i(1,2) in linarith)+
    show ?thesis
    proof (cases "T = n")
      case True
      then have r: "l = TakenTop task" "pc = ThiefIdle" "d = (sy_deque s)\<lparr>cl_top := tp + 1\<rparr>" using step StealTask eq by auto
      have T: "T < ?L" "hd q = task" using n(3) True by auto
      note sp = spans_take [OF i(5) less_le_trans [OF T(1) i(2)]]
      have "thief_ok base (Suc T) ?L (tl q) (sy_thief s j)" for j by (rule thief_ok_passed) (rule inv_thief [OF inv])
      moreover have "owner_ok base (Suc T) B (cl_buffer (sy_deque s)) (tl q) (sy_owner s)"
        using inv T(1) by (intro owner_ok_passed [of _ _ _ _ q]) (simp_all add: deque_inv_def)
      ultimately have "deque_inv base (Suc T) B (tl q) (s\<lparr>sy_thief := (sy_thief s)(i := pc), sy_deque := d\<rparr>)"
        using inv r sp(2) T(1) n(2) True by (auto simp: deque_inv_def thief_ok_def)
      moreover have "q \<noteq> []" using sp(1) by (metis list.distinct(1))
      ultimately show ?thesis using r T(2) by (intro accountedI) auto
    next
      case False
      then show ?thesis using step StealTask eq by (intro quiet) (auto simp: thief_ok_def)
    qed
  next
    case ThiefIdle
    then show ?thesis using step by (intro quiet) (auto simp: thief_ok_def)
  next
    case StealCall
    then show ?thesis using step i(4) by (intro quiet) (auto simp: thief_ok_def)
  qed
qed

section \<open>The functions alone\<close>

text \<open>What the deque holds while nobody is inside it; the operations, run without interruption, act on that list.\<close>

definition deque_view :: "cldeque \<Rightarrow> u64 list \<Rightarrow> bool" where
  "deque_view d q \<longleftrightarrow> (\<exists>T B. T \<le> B \<and> B - T \<le> LLAM_NORM_QUEUE_CAP \<and> cl_top d = of_nat T \<and> cl_bottom d = of_nat B \<and>
     spans 0 T B (cl_buffer d) q)"

lemma deque_viewI:
  "T \<le> B \<Longrightarrow> B - T \<le> LLAM_NORM_QUEUE_CAP \<Longrightarrow> cl_top d = of_nat T \<Longrightarrow> cl_bottom d = of_nat B \<Longrightarrow> spans 0 T B (cl_buffer d) q \<Longrightarrow>
     deque_view d q"
  unfolding deque_view_def by blast

lemma view_init: "deque_view llam_cldeque_init []"
  by (rule deque_viewI [of 0 0]) (simp_all add: llam_cldeque_init_def spans_def)

lemma cap_word: "unat (of_nat LLAM_NORM_QUEUE_CAP :: u64) = LLAM_NORM_QUEUE_CAP"
  by (simp add: LLAM_NORM_QUEUE_CAP_def)

lemma small_word:
  assumes "k \<le> LLAM_NORM_QUEUE_CAP"
  shows "unat (of_nat k :: u64) = k" "\<not> llam_cldeque_distance_is_negative (of_nat k)" "(of_nat k :: u64) = 0 \<longleftrightarrow> k = 0"
proof -
  have k: "k < 2 ^ 63" using assms by (simp add: LLAM_NORM_QUEUE_CAP_def)
  show u: "unat (of_nat k :: u64) = k" by (rule unat_of_nat64) (use k in simp)
  show "\<not> llam_cldeque_distance_is_negative (of_nat k)" by (rule small_distance [OF k])
  show "(of_nat k :: u64) = 0 \<longleftrightarrow> k = 0"
    by (subst unat_eq_0 [symmetric]) (simp only: u)
qed

lemma push_view:
  assumes view: "deque_view d q" and task: "task \<noteq> 0"
  shows "length q < LLAM_NORM_QUEUE_CAP \<Longrightarrow> \<exists>d'. llam_cldeque_push_bottom d task = (True, d') \<and> deque_view d' (q @ [task])"
    and "\<not> length q < LLAM_NORM_QUEUE_CAP \<Longrightarrow> llam_cldeque_push_bottom d task = (False, d)"
proof -
  obtain T B where v: "T \<le> B" "B - T \<le> LLAM_NORM_QUEUE_CAP" "cl_top d = of_nat T" "cl_bottom d = of_nat B" "spans 0 T B (cl_buffer d) q"
    using view by (auto simp: deque_view_def)
  note len = spans_length [OF v(5)]
  have D: "cl_bottom d - cl_top d = of_nat (B - T)" unfolding v(3,4) using v(1) by (simp add: of_nat_diff)
  have full: "of_nat LLAM_NORM_QUEUE_CAP \<le> cl_bottom d - cl_top d \<longleftrightarrow> \<not> length q < LLAM_NORM_QUEUE_CAP"
    unfolding D word_le_nat_alt cap_word small_word(1) [OF v(2)] len by auto
  show "\<not> length q < LLAM_NORM_QUEUE_CAP \<Longrightarrow> llam_cldeque_push_bottom d task = (False, d)"
    using full by (simp add: llam_cldeque_push_bottom_def Let_def)
  assume room: "length q < LLAM_NORM_QUEUE_CAP"
  let ?buf = "(cl_buffer d)[cl_index (0 + of_nat B) := task]"
  have w: "spans 0 T B ?buf q" by (rule spans_write [OF v(5,1)]) (use room len in simp)
  have "?buf ! ((unat (0 :: u64) + B) mod LLAM_NORM_QUEUE_CAP) = task"
    using cl_index_add [of 0 B] cl_index_less [of "of_nat B"] v(5) by (simp add: spans_def)
  note p = spans_push [OF w v(1) task this]
  have n: "\<not> llam_cldeque_distance_is_negative (cl_bottom d - cl_top d)" unfolding D by (rule small_word(2) [OF v(2)])
  have "llam_cldeque_push_bottom d task = (True, d\<lparr>cl_buffer := ?buf, cl_bottom := of_nat (Suc B)\<rparr>)"
    using full room n task v(4) by (simp add: llam_cldeque_push_bottom_def Let_def)
  moreover have "deque_view (d\<lparr>cl_buffer := ?buf, cl_bottom := of_nat (Suc B)\<rparr>) (q @ [task])"
    by (rule deque_viewI [of T "Suc B"]) (use v len room p in auto)
  ultimately show "\<exists>d'. llam_cldeque_push_bottom d task = (True, d') \<and> deque_view d' (q @ [task])" by blast
qed

lemma pop_view:
  assumes view: "deque_view d q" and res: "llam_cldeque_pop_bottom d = (task, d')"
  shows "if q = [] then task = 0 \<and> deque_view d' [] else task = last q \<and> deque_view d' (butlast q)"
proof -
  obtain T B where v: "T \<le> B" "B - T \<le> LLAM_NORM_QUEUE_CAP" "cl_top d = of_nat T" "cl_bottom d = of_nat B" "spans 0 T B (cl_buffer d) q"
    using view by (auto simp: deque_view_def)
  note len = spans_length [OF v(5)]
  have neg: "llam_cldeque_distance_is_negative (cl_bottom d - 1 - cl_top d) \<longleftrightarrow> T = B"
    using distance_neg_lowered [OF v(1,2), of 0] by (simp add: v(3,4))
  show ?thesis
  proof (cases "T = B")
    case True
    then have "q = []" using len by simp
    moreover have "deque_view d' []" "task = 0"
      using res neg True v calculation by (auto simp: llam_cldeque_pop_bottom_def Let_def intro!: deque_viewI [of T B])
    ultimately show ?thesis by simp
  next
    case False
    then have T: "T < B" using v(1) by simp
    note sp = spans_pop [OF v(5) T]
    have ne: "q \<noteq> []" using len T by auto
    have b: "cl_bottom d - 1 = of_nat (B - 1)" using v(4) T by (simp add: of_nat_diff)
    have l: "last q = cl_buffer d ! cl_index (of_nat (B - 1))" using sp(1) by (metis add_0 last_snoc)
    have D: "cl_bottom d - 1 - cl_top d = of_nat (B - 1 - T)" unfolding b v(3) using T by (simp add: of_nat_diff)
    have z: "cl_bottom d - 1 - cl_top d = 0 \<longleftrightarrow> B - 1 = T" unfolding D using small_word(3) [of "B - 1 - T"] v(2) T by auto
    show ?thesis
    proof (cases "B - 1 = T")
      case True
      have "llam_cldeque_pop_bottom d = (last q, d\<lparr>cl_bottom := of_nat (Suc T), cl_top := of_nat (Suc T)\<rparr>)"
        using neg False z True b l v(3) by (simp add: llam_cldeque_pop_bottom_def Let_def)
      moreover have "spans 0 (Suc T) (Suc T) (cl_buffer d) (butlast q)"
        using sp(2) True spans_length [OF sp(2)] by (simp add: spans_def)
      ultimately show ?thesis using res ne by (auto intro!: deque_viewI [of "Suc T" "Suc T"])
    next
      case far: False
      have "llam_cldeque_pop_bottom d = (last q, d\<lparr>cl_bottom := of_nat (B - 1)\<rparr>)"
        using neg False z far b l v(3) by (simp add: llam_cldeque_pop_bottom_def Let_def)
      moreover have "T \<le> B - 1" "B - 1 - T \<le> LLAM_NORM_QUEUE_CAP" using v(2) T by auto
      ultimately show ?thesis using res ne v(3) sp(2) by (auto intro!: deque_viewI [of T "B - 1"])
    qed
  qed
qed

lemma steal_view:
  assumes view: "deque_view d q" and res: "llam_cldeque_steal_top d = (task, d')"
  shows "if q = [] then task = 0 \<and> d' = d else task = hd q \<and> deque_view d' (tl q)"
proof -
  obtain T B where v: "T \<le> B" "B - T \<le> LLAM_NORM_QUEUE_CAP" "cl_top d = of_nat T" "cl_bottom d = of_nat B" "spans 0 T B (cl_buffer d) q"
    using view by (auto simp: deque_view_def)
  note len = spans_length [OF v(5)]
  have D: "cl_bottom d - cl_top d = of_nat (B - T)" unfolding v(3,4) using v(1) by (simp add: of_nat_diff)
  have z: "cl_bottom d - cl_top d = 0 \<longleftrightarrow> q = []" unfolding D small_word(3) [OF v(2)] using len by auto
  have n: "\<not> llam_cldeque_distance_is_negative (cl_bottom d - cl_top d)" unfolding D by (rule small_word(2) [OF v(2)])
  show ?thesis
  proof (cases "q = []")
    case False
    then have T: "T < B" using len by (cases q) auto
    note sp = spans_take [OF v(5) T]
    have h: "hd q = cl_buffer d ! cl_index (cl_top d)" using sp(1) v(3) by (metis add_0 list.sel(1))
    have "hd q \<noteq> 0" using v(5) False unfolding spans_def by (metis hd_in_set)
    then have "llam_cldeque_steal_top d = (hd q, d\<lparr>cl_top := of_nat (Suc T)\<rparr>)"
      using n z False h v(3) by (simp add: llam_cldeque_steal_top_def Let_def)
    then show ?thesis using res False v sp(2) T by (auto intro!: deque_viewI [of "Suc T" B])
  qed (use res z in \<open>simp add: llam_cldeque_steal_top_def Let_def\<close>)
qed

lemma has_work_view:
  assumes "deque_view d q"
  shows "llam_cldeque_has_work d \<longleftrightarrow> q \<noteq> []"
proof -
  obtain T B where v: "T \<le> B" "B - T \<le> LLAM_NORM_QUEUE_CAP" "cl_top d = of_nat T" "cl_bottom d = of_nat B" "spans 0 T B (cl_buffer d) q"
    using assms by (auto simp: deque_view_def)
  have D: "cl_bottom d - cl_top d = of_nat (B - T)" unfolding v(3,4) using v(1) by (simp add: of_nat_diff)
  show ?thesis unfolding llam_cldeque_has_work_def Let_def D small_word(3) [OF v(2)] using small_word(2) [OF v(2)] spans_length [OF v(5)] by auto
qed

section \<open>Every interleaving is a legal history\<close>

lemma pushes_append: "pushes (ls @ ms) = pushes ls + pushes ms"
  by (induction ls rule: pushes.induct) simp_all

lemma deque_history_snoc:
  "deque_history ls q = Some q1 \<Longrightarrow> deque_spec l q1 = Some q2 \<Longrightarrow> deque_history (ls @ [l]) q = Some q2"
  by (induction ls arbitrary: q) (auto split: option.splits)

lemma deque_step_accounted:
  assumes "deque_step s l s'" "deque_inv base T B q s" "Suc B < 2 ^ 64"
  shows "accounted base B q l s'"
  using assms
proof (cases rule: deque_step.cases)
  case (call_push task)
  then show ?thesis using assms(2) by (intro accountedI [of _ T B q]) (auto simp: deque_inv_def owner_simps)
next
  case call_pop
  then show ?thesis using assms(2) by (intro accountedI [of _ T B q]) (auto simp: deque_inv_def owner_simps)
next
  case (call_steal i)
  then show ?thesis using assms(2) by (intro accountedI [of _ T B q]) (auto simp: deque_inv_def thief_ok_def)
next
  case (owner pc d)
  then show ?thesis using owner_step assms(2,3) by blast
next
  case (thief i pc d)
  then show ?thesis using thief_step assms(2,3) by blast
qed

lemma deque_run_inv:
  assumes "deque_run (idle_deque base buffer) ls s" "length buffer = LLAM_NORM_QUEUE_CAP" "Suc (pushes ls) < 2 ^ 64"
  shows "\<exists>T B q. deque_history ls [] = Some q \<and> deque_inv base T B q s \<and> B \<le> pushes ls"
  using assms(1,3)
proof (induction "idle_deque base buffer" ls s rule: deque_run.induct)
  case start
  have "deque_inv base 0 0 [] (idle_deque base buffer)"
    using assms(2) by (simp add: deque_inv_def idle_deque_def spans_def owner_simps thief_ok_def)
  then show ?case by (intro exI [of _ 0] exI [of _ "[]"]) simp
next
  case (more ls s1 l s2)
  have "Suc (pushes ls) < 2 ^ 64" using more.prems by (simp add: pushes_append)
  then obtain T B q where q: "deque_history ls [] = Some q" "deque_inv base T B q s1" "B \<le> pushes ls" using more.hyps(2) by blast
  have "Suc B < 2 ^ 64" using q(3) more.prems by (simp add: pushes_append)
  from deque_step_accounted [OF more.hyps(3) q(2) this] obtain T' B' q' where
    "deque_spec l q = Some q'" "deque_inv base T' B' q' s2" "B' \<le> B + pushes [l]" unfolding accounted_def by blast
  then show ?case using q deque_history_snoc [OF q(1)] by (intro exI [of _ T'] exI [of _ B'] exI [of _ q']) (auto simp: pushes_append)
qed

text \<open>The tasks between the cursors, as memory has them.\<close>

definition deque_contents :: "cldeque \<Rightarrow> u64 list" where
  "deque_contents d = map (\<lambda>i. cl_buffer d ! cl_index (cl_top d + of_nat i)) [0..<unat (cl_bottom d - cl_top d)]"

lemma inv_contents:
  assumes "deque_inv base T B q s" "\<not> lowered (sy_owner s)"
  shows "deque_contents (sy_deque s) = q"
proof -
  let ?d = "sy_deque s"
  have i: "T \<le> B" "B - T \<le> LLAM_NORM_QUEUE_CAP" "cl_top ?d = base + of_nat T" "cl_bottom ?d = base + of_nat B" "spans base T B (cl_buffer ?d) q"
    using assms by (auto simp: deque_inv_def)
  have "B - T < 2 ^ 64" using i(2) by (simp add: LLAM_NORM_QUEUE_CAP_def)
  then have "unat (cl_bottom ?d - cl_top ?d) = B - T" unfolding i(3,4) cursor_distance [OF i(1)] by (rule unat_of_nat64)
  moreover have "cl_index (base + of_nat T + of_nat k) = (unat base + T + k) mod LLAM_NORM_QUEUE_CAP" for k
    using cl_index_add [of base "T + k"] by (simp add: add.assoc)
  ultimately show ?thesis using i(5) by (simp add: deque_contents_def window_def spans_def i(3))
qed

text \<open>C3. Linearizability of the work-stealing deque: under every interleaving of the owner's and any number of thieves' atomic
  accesses, from an empty deque with its cursors anywhere in the machine word, the pushes and takes in the order in which they are
  decided are a legal history of a bounded double-ended queue (the owner takes the newest task, thieves the oldest, no task twice,
  none lost), and whenever the owner is between its calls memory holds exactly the tasks of that history.\<close>

theorem deque_linearizable:
  assumes "deque_run (idle_deque base buffer) ls s" "length buffer = LLAM_NORM_QUEUE_CAP" "Suc (pushes ls) < 2 ^ 64"
  shows "\<exists>q. deque_history ls [] = Some q \<and> (sy_owner s = OwnerIdle \<longrightarrow> deque_contents (sy_deque s) = q)"
proof -
  obtain T B q where "deque_history ls [] = Some q" "deque_inv base T B q s" using deque_run_inv [OF assms] by blast
  then show ?thesis using inv_contents [of base T B q s] by (auto simp: lowered_def)
qed

lemma deque_run_front: "deque_run s1 ls s2 \<Longrightarrow> deque_step s l s1 \<Longrightarrow> deque_run s (l # ls) s2"
proof (induction s1 ls s2 rule: deque_run.induct)
  case (start s1)
  then show ?case using deque_run.more [OF deque_run.start] by fastforce
next
  case (more s1 ls s2 l' s3)
  then show ?case using deque_run.more [of s "l # ls" s2 l' s3] by simp
qed

lemma make_move_step: "make_move m s = Some (l, s') \<Longrightarrow> deque_step s l s'"
  by (cases m) (auto intro: deque_step.intros split: prod.splits if_splits)

lemma schedule_run: "schedule ms s = Some (ls, s') \<Longrightarrow> deque_run s ls s'"
proof (induction ms arbitrary: s ls)
  case (Cons m ms)
  then show ?case by (fastforce intro: deque_run_front make_move_step split: option.splits)
qed (simp add: deque_run.start)

text \<open>A thief and the owner race for the only task, pushed at the last cursor before the wrap; the thief wins.\<close>

definition race :: "deque_move list" where
  "race = [CallPush 7, OwnerMove, OwnerMove, OwnerMove, OwnerMove, CallSteal 0, ThiefMove 0, ThiefMove 0, ThiefMove 0,
           CallPop, OwnerMove, OwnerMove, OwnerMove, OwnerMove, ThiefMove 0, OwnerMove, OwnerMove]"

definition race_labels :: "deque_label list" where
  "race_labels = [Silent, Silent, Silent, Silent, Pushed 7, Silent, Silent, Silent, Silent, Silent, Silent, Silent, Silent, Silent,
     TakenTop 7, Silent, Silent]"

lemma race_result:
  "\<exists>s. schedule race (idle_deque (-1) (replicate LLAM_NORM_QUEUE_CAP 0)) = Some (race_labels, s) \<and> sy_owner s = OwnerIdle"
proof -
  have "\<not> of_nat LLAM_NORM_QUEUE_CAP \<le> (0 :: u64)" by (simp add: LLAM_NORM_QUEUE_CAP_def)
  then show ?thesis by (simp add: race_def race_labels_def idle_deque_def distance_negative cl_index_less Let_def)
qed

theorem deque_linearizable_witness:
  "\<exists>ls s. deque_run (idle_deque (-1) (replicate LLAM_NORM_QUEUE_CAP 0)) ls s \<and> Pushed 7 \<in> set ls \<and> TakenTop 7 \<in> set ls \<and>
     deque_history ls [] = Some [] \<and> deque_contents (sy_deque s) = []"
proof -
  obtain s where s: "schedule race (idle_deque (-1) (replicate LLAM_NORM_QUEUE_CAP 0)) = Some (race_labels, s)" "sy_owner s = OwnerIdle"
    using race_result by blast
  note run = schedule_run [OF s(1)]
  have h: "deque_history race_labels [] = Some []" "pushes race_labels = 1" by (simp_all add: race_labels_def LLAM_NORM_QUEUE_CAP_def)
  have "Suc (pushes race_labels) < 2 ^ 64" unfolding h(2) by simp
  then obtain q where "deque_history race_labels [] = Some q" "deque_contents (sy_deque s) = q"
    using deque_linearizable [OF run] s(2) by auto
  moreover have "Pushed 7 \<in> set race_labels" "TakenTop 7 \<in> set race_labels" by (simp_all add: race_labels_def)
  ultimately show ?thesis using h(1) run by auto
qed

end
