(* ===== verification/Intrusive_Queue.thy ===== *)
theory Intrusive_Queue
  imports LLAM_Prelude
begin

text \<open>
  The intrusive queues of the scheduler (\<^verbatim>\<open>core/sched/queue_base.c\<close>): the singly linked wait queue of the
  synchronisation objects and the doubly linked run queue of tasks. Links live in the queued objects, so a queue is a
  header over a store of links; addresses are words and 0 is the null pointer. The theory shows that the pointer
  operations act on the lists of queued addresses as append, removal of the head, and removal of a given or of the
  first eligible element, and that they leave the links of everything not in the queue alone.
\<close>

section \<open>The wait queue\<close>

record wait_queue =
  wq_head :: u64
  wq_tail :: u64
  wq_depth :: u32

definition empty_wait_queue :: wait_queue where
  "empty_wait_queue = \<lparr>wq_head = 0, wq_tail = 0, wq_depth = 0\<rparr>"

type_synonym links = "u64 \<Rightarrow> u64"

definition llam_wait_queue_push_tail :: "wait_queue \<Rightarrow> u64 \<Rightarrow> links \<Rightarrow> wait_queue \<times> links" where
  "llam_wait_queue_push_tail queue node nxt =
     (let nxt = nxt(node := 0);
          (queue, nxt) = (if wq_tail queue \<noteq> 0 then (queue, nxt(wq_tail queue := node)) else (queue\<lparr>wq_head := node\<rparr>, nxt))
      in (queue\<lparr>wq_tail := node, wq_depth := wq_depth queue + 1\<rparr>, nxt))"

definition llam_wait_queue_pop_head :: "wait_queue \<Rightarrow> links \<Rightarrow> u64 \<times> wait_queue \<times> links" where
  "llam_wait_queue_pop_head queue nxt =
     (let node = wq_head queue in
      if node = 0 then (0, queue, nxt)
      else let queue = queue\<lparr>wq_head := nxt node\<rparr>;
               queue = (if wq_head queue = 0 then queue\<lparr>wq_tail := 0\<rparr> else queue)
           in (node, queue\<lparr>wq_depth := wq_depth queue - 1\<rparr>, nxt(node := 0)))"

text \<open>The search loop of the removal: the predecessor of the node, or nothing at the end of the list.\<close>

partial_function (option) wait_queue_find :: "links \<Rightarrow> u64 \<Rightarrow> u64 \<Rightarrow> u64 \<Rightarrow> u64 option option" where
  "wait_queue_find nxt node prv cur =
     (if cur = 0 then Some None
      else if cur = node then Some (Some prv)
      else wait_queue_find nxt node cur (nxt cur))"

definition llam_wait_queue_remove :: "wait_queue \<Rightarrow> u64 \<Rightarrow> links \<Rightarrow> (bool \<times> wait_queue \<times> links) option" where
  "llam_wait_queue_remove queue node nxt =
     (if node = 0 then Some (False, queue, nxt)
      else (case wait_queue_find nxt node 0 (wq_head queue) of
              None \<Rightarrow> None
            | Some None \<Rightarrow> Some (False, queue, nxt)
            | Some (Some prv) \<Rightarrow>
                let (queue, nxt) = (if prv \<noteq> 0 then (queue, nxt(prv := nxt node)) else (queue\<lparr>wq_head := nxt node\<rparr>, nxt));
                    queue = (if wq_tail queue = node then queue\<lparr>wq_tail := prv\<rparr> else queue)
                in Some (True, queue\<lparr>wq_depth := wq_depth queue - 1\<rparr>, nxt(node := 0))))"

section \<open>The run queue\<close>

record task_queue =
  tq_head :: u64
  tq_tail :: u64
  tq_depth :: u32

definition empty_task_queue :: task_queue where
  "empty_task_queue = \<lparr>tq_head = 0, tq_tail = 0, tq_depth = 0\<rparr>"

record task_links =
  queue_next :: links
  queue_prev :: links

definition llam_queue_push_tail :: "task_queue \<Rightarrow> u64 \<Rightarrow> task_links \<Rightarrow> task_queue \<times> task_links" where
  "llam_queue_push_tail queue task lk =
     (let lk = lk\<lparr>queue_next := (queue_next lk)(task := 0)\<rparr>;
          lk = lk\<lparr>queue_prev := (queue_prev lk)(task := tq_tail queue)\<rparr>;
          (queue, lk) = (if tq_tail queue \<noteq> 0 then (queue, lk\<lparr>queue_next := (queue_next lk)(tq_tail queue := task)\<rparr>)
                         else (queue\<lparr>tq_head := task\<rparr>, lk))
      in (queue\<lparr>tq_tail := task, tq_depth := tq_depth queue + 1\<rparr>, lk))"

text \<open>
  A task whose context is still being saved, or that is bound to another worker, stays queued: \<open>available\<close> is the test
  of these two conditions, which read the scheduler's state.
\<close>

partial_function (option) queue_seek :: "(u64 \<Rightarrow> bool) \<Rightarrow> links \<Rightarrow> u64 \<Rightarrow> u64 option" where
  "queue_seek available step task =
     (if task \<noteq> 0 \<and> \<not> available task then queue_seek available step (step task) else Some task)"

definition queue_unlink :: "task_queue \<Rightarrow> u64 \<Rightarrow> task_links \<Rightarrow> task_queue \<times> task_links" where
  "queue_unlink queue task lk =
     (let (queue, lk) = (if queue_prev lk task \<noteq> 0
            then (queue, lk\<lparr>queue_next := (queue_next lk)(queue_prev lk task := queue_next lk task)\<rparr>)
            else (queue\<lparr>tq_head := queue_next lk task\<rparr>, lk));
          (queue, lk) = (if queue_next lk task \<noteq> 0
            then (queue, lk\<lparr>queue_prev := (queue_prev lk)(queue_next lk task := queue_prev lk task)\<rparr>)
            else (queue\<lparr>tq_tail := queue_prev lk task\<rparr>, lk))
      in (queue\<lparr>tq_depth := tq_depth queue - 1\<rparr>,
          lk\<lparr>queue_next := (queue_next lk)(task := 0), queue_prev := (queue_prev lk)(task := 0)\<rparr>))"

definition llam_queue_pop_available ::
    "(u64 \<Rightarrow> bool) \<Rightarrow> task_queue \<Rightarrow> bool \<Rightarrow> task_links \<Rightarrow> (u64 \<times> task_queue \<times> task_links) option" where
  "llam_queue_pop_available available queue from_tail lk =
     (case queue_seek available (if from_tail then queue_prev lk else queue_next lk)
             (if from_tail then tq_tail queue else tq_head queue) of
        None \<Rightarrow> None
      | Some task \<Rightarrow>
          if task = 0 then Some (0, queue, lk)
          else (case queue_unlink queue task lk of (queue, lk) \<Rightarrow> Some (task, queue, lk)))"

definition llam_queue_pop_head :: "(u64 \<Rightarrow> bool) \<Rightarrow> task_queue \<Rightarrow> task_links \<Rightarrow> (u64 \<times> task_queue \<times> task_links) option" where
  "llam_queue_pop_head available queue lk = llam_queue_pop_available available queue False lk"

definition llam_queue_pop_tail :: "(u64 \<Rightarrow> bool) \<Rightarrow> task_queue \<Rightarrow> task_links \<Rightarrow> (u64 \<times> task_queue \<times> task_links) option" where
  "llam_queue_pop_tail available queue lk = llam_queue_pop_available available queue True lk"

section \<open>Chains of links\<close>

fun chain :: "links \<Rightarrow> u64 \<Rightarrow> u64 list \<Rightarrow> u64 \<Rightarrow> bool" where
  "chain nxt p [] q \<longleftrightarrow> p = q"
| "chain nxt p (x # xs) q \<longleftrightarrow> p = x \<and> x \<noteq> 0 \<and> chain nxt (nxt x) xs q"

lemma chain_append [simp]: "chain nxt p (xs @ ys) q \<longleftrightarrow> (\<exists>r. chain nxt p xs r \<and> chain nxt r ys q)"
  by (induction xs arbitrary: p) auto

lemma chain_frame [simp]: "a \<notin> set xs \<Longrightarrow> chain (nxt(a := b)) p xs q \<longleftrightarrow> chain nxt p xs q"
  by (induction xs arbitrary: p) auto

lemma chain_cong: "(\<And>x. x \<in> set xs \<Longrightarrow> nxt x = nxt' x) \<Longrightarrow> chain nxt p xs q = chain nxt' p xs q"
  by (induction xs arbitrary: p) auto

lemma chain_nonzero: "chain nxt p xs q \<Longrightarrow> 0 \<notin> set xs"
  by (induction xs arbitrary: p) auto

lemma chain_head: "chain nxt p xs 0 \<Longrightarrow> p = (if xs = [] then 0 else hd xs)"
  by (cases xs) auto

definition wait_list :: "links \<Rightarrow> wait_queue \<Rightarrow> u64 list \<Rightarrow> bool" where
  "wait_list nxt queue xs \<longleftrightarrow> chain nxt (wq_head queue) xs 0 \<and> distinct xs \<and>
     wq_tail queue = (if xs = [] then 0 else last xs) \<and> wq_depth queue = of_nat (length xs)"

lemma wait_list_push:
  assumes wf: "wait_list nxt queue xs" and node: "node \<noteq> 0" "node \<notin> set xs"
    and res: "llam_wait_queue_push_tail queue node nxt = (queue', nxt')"
  shows "wait_list nxt' queue' (xs @ [node])"
proof (cases xs rule: rev_cases)
  case Nil
  then show ?thesis using wf node res by (auto simp: wait_list_def llam_wait_queue_push_tail_def Let_def)
next
  case (snoc ys y)
  have q: "chain nxt (wq_head queue) ys y" "y \<noteq> 0" "y \<noteq> node" "y \<notin> set ys" "node \<notin> set ys" "wq_tail queue = y"
    using wf node snoc by (auto simp: wait_list_def)
  have "queue' = queue\<lparr>wq_tail := node, wq_depth := wq_depth queue + 1\<rparr>" "nxt' = nxt(node := 0, y := node)"
    using res q(2,6) by (auto simp: llam_wait_queue_push_tail_def Let_def)
  then show ?thesis using wf node q by (auto simp: wait_list_def snoc)
qed

lemma wait_list_pop:
  assumes wf: "wait_list nxt queue xs" and res: "llam_wait_queue_pop_head queue nxt = (node, queue', nxt')"
  shows "node = (if xs = [] then 0 else hd xs)" "wait_list nxt' queue' (tl xs)"
proof -
  show "node = (if xs = [] then 0 else hd xs)" using chain_head [of nxt "wq_head queue" xs] wf res
    by (auto simp: wait_list_def llam_wait_queue_pop_head_def Let_def split: if_splits)
  show "wait_list nxt' queue' (tl xs)"
  proof (cases xs)
    case Nil
    then show ?thesis using wf res by (auto simp: wait_list_def llam_wait_queue_pop_head_def)
  next
    case (Cons x ys)
    have c: "chain nxt (nxt x) ys 0" "x \<noteq> 0" "x \<notin> set ys" "wq_head queue = x" "distinct ys" using wf Cons by (auto simp: wait_list_def)
    have z: "nxt x = 0 \<longleftrightarrow> ys = []" using chain_head [OF c(1)] chain_nonzero [OF c(1)] by (cases ys) auto
    have "queue' = (queue\<lparr>wq_head := nxt x, wq_tail := (if ys = [] then 0 else wq_tail queue), wq_depth := wq_depth queue - 1\<rparr>)" "nxt' = nxt(x := 0)"
      using res c z by (auto simp: llam_wait_queue_pop_head_def Let_def)
    then show ?thesis using wf c by (auto simp: wait_list_def Cons)
  qed
qed

lemma chain_relink:
  assumes "chain nxt p as q" "as \<noteq> []" "distinct as"
  shows "chain (nxt(last as := r)) p as r"
proof (cases as rule: rev_cases)
  case (snoc bs b)
  then show ?thesis using assms by auto
qed (use assms in simp)

lemma find_absent: "chain nxt cur ys 0 \<Longrightarrow> node \<notin> set ys \<Longrightarrow> wait_queue_find nxt node prv cur = Some None"
  by (induction ys arbitrary: prv cur) (auto simp: wait_queue_find.simps)

lemma find_present:
  "chain nxt cur (as @ node # bs) 0 \<Longrightarrow> node \<notin> set as \<Longrightarrow>
     wait_queue_find nxt node prv cur = Some (Some (if as = [] then prv else last as))"
proof (induction as arbitrary: prv cur)
  case (Cons a as)
  then show ?case using Cons.IH [of "nxt a" a] by (subst wait_queue_find.simps) auto
qed (auto simp: wait_queue_find.simps)

lemma wait_list_unlink:
  assumes wf: "wait_list nxt queue (as @ node # bs)"
    and res: "llam_wait_queue_remove queue node nxt = Some (found, queue', nxt')"
  shows "found \<and> wait_list nxt' queue' (as @ bs)"
proof -
  have c: "chain nxt (wq_head queue) as node" "node \<noteq> 0" "chain nxt (nxt node) bs 0" "node \<notin> set as" "node \<notin> set bs"
      "distinct as" "distinct bs" "set as \<inter> set bs = {}"
    using wf by (auto simp: wait_list_def)
  have tl: "wq_tail queue = (if bs = [] then node else last bs)" "wq_depth queue = of_nat (Suc (length as + length bs))"
    using wf by (auto simp: wait_list_def)
  have nb: "last bs \<noteq> node" if "bs \<noteq> []" using that c(5) last_in_set by metis
  let ?p = "if as = [] then 0 else last as"
  have f: "wait_queue_find nxt node 0 (wq_head queue) = Some (Some ?p)" using find_present [of nxt "wq_head queue" as node bs 0] wf c(4) by (simp add: wait_list_def)
  have z: "as \<noteq> [] \<Longrightarrow> last as \<noteq> 0 \<and> last as \<noteq> node \<and> last as \<notin> set bs"
    using chain_nonzero [OF c(1)] c(4,8) last_in_set [of as] by (metis disjoint_iff)
  let ?nxt = "if as = [] then nxt else nxt(last as := nxt node)"
  have r: "found" "nxt' = ?nxt(node := 0)" "wq_head queue' = (if as = [] then nxt node else wq_head queue)"
      "wq_tail queue' = (if bs = [] then ?p else wq_tail queue)" "wq_depth queue' = wq_depth queue - 1"
    using res f c(2) z tl nb by (auto simp: llam_wait_queue_remove_def Let_def split: if_splits)
  have "chain nxt' (wq_head queue') as (nxt node)"
    using chain_relink [OF c(1) _ c(6), of "nxt node"] c(1,4) by (auto simp: r)
  moreover have "chain nxt' (nxt node) bs 0" using c(3,5) z by (auto simp: r)
  ultimately show ?thesis using r c tl by (auto simp: wait_list_def)
qed

text \<open>C33. Removing a given node from a wait queue ends on every well-formed queue; it reports whether the node was queued, takes
  exactly that node out and keeps the order of the others, and touches no link outside the queue.\<close>

theorem wait_queue_remove_correct:
  assumes wf: "wait_list nxt queue xs"
  shows "\<exists>queue' nxt'. llam_wait_queue_remove queue node nxt = Some (node \<in> set xs, queue', nxt') \<and>
     wait_list nxt' queue' (remove1 node xs) \<and> (\<forall>a. a \<notin> set xs \<longrightarrow> nxt' a = nxt a)"
proof (cases "node \<in> set xs")
  case True
  then obtain as bs where xs: "xs = as @ node # bs" "node \<notin> set as" by (meson split_list_first)
  have z: "node \<noteq> 0" using chain_nonzero [of nxt "wq_head queue" xs 0] wf True by (auto simp: wait_list_def)
  have f: "wait_queue_find nxt node 0 (wq_head queue) = Some (Some (if as = [] then 0 else last as))"
    using find_present [of nxt "wq_head queue" as node bs 0] wf xs by (simp add: wait_list_def)
  have "llam_wait_queue_remove queue node nxt \<noteq> None" using f z by (auto simp: llam_wait_queue_remove_def Let_def split: prod.split)
  then obtain found queue' nxt' where r: "llam_wait_queue_remove queue node nxt = Some (found, queue', nxt')" by (metis not_None_eq prod_cases3)
  have "found" "wait_list nxt' queue' (remove1 node xs)" using wait_list_unlink [OF wf [unfolded xs] r] xs by (auto simp: remove1_append)
  moreover have "nxt' a = nxt a" if "a \<notin> set xs" for a
  proof -
    have "as \<noteq> [] \<Longrightarrow> a \<noteq> last as" using that xs by auto
    then show ?thesis using r f z that xs by (auto simp: llam_wait_queue_remove_def Let_def split: if_splits)
  qed
  ultimately show ?thesis using r True by auto
next
  case False
  then show ?thesis using wf find_absent [of nxt "wq_head queue" xs node 0]
    by (auto simp: llam_wait_queue_remove_def wait_list_def remove1_idem)
qed

section \<open>Run queues as lists\<close>

definition task_list :: "task_links \<Rightarrow> task_queue \<Rightarrow> u64 list \<Rightarrow> bool" where
  "task_list lk queue xs \<longleftrightarrow> chain (queue_next lk) (tq_head queue) xs 0 \<and> chain (queue_prev lk) (tq_tail queue) (rev xs) 0 \<and>
     distinct xs \<and> tq_depth queue = of_nat (length xs)"

lemma task_list_empty: "task_list lk empty_task_queue []"
  by (simp add: task_list_def empty_task_queue_def)

lemma task_list_push:
  assumes wf: "task_list lk queue xs" and task: "task \<noteq> 0" "task \<notin> set xs"
    and res: "llam_queue_push_tail queue task lk = (queue', lk')"
  shows "task_list lk' queue' (xs @ [task])"
proof (cases xs rule: rev_cases)
  case Nil
  then show ?thesis using wf task res by (auto simp: task_list_def llam_queue_push_tail_def Let_def)
next
  case (snoc ys y)
  have q: "chain (queue_next lk) (tq_head queue) ys y" "y \<noteq> 0" "y \<noteq> task" "y \<notin> set ys" "task \<notin> set ys" "tq_tail queue = y"
    using wf task snoc by (auto simp: task_list_def)
  have "queue' = queue\<lparr>tq_tail := task, tq_depth := tq_depth queue + 1\<rparr>"
    "lk' = lk\<lparr>queue_next := (queue_next lk)(task := 0, y := task), queue_prev := (queue_prev lk)(task := y)\<rparr>"
    using res q(2,6) by (auto simp: llam_queue_push_tail_def Let_def)
  then show ?thesis using wf task q by (auto simp: task_list_def snoc)
qed

lemma queue_seek_find: "chain step cur ys 0 \<Longrightarrow> queue_seek available step cur = Some (case find available ys of None \<Rightarrow> 0 | Some t \<Rightarrow> t)"
  by (induction ys arbitrary: cur) (auto simp: queue_seek.simps)

lemma find_member: "find P ys = Some t \<Longrightarrow> t \<in> set ys"
  by (induction ys) (auto split: if_splits)

lemma task_list_unlink:
  assumes wf: "task_list lk queue (as @ t # bs)" and res: "queue_unlink queue t lk = (queue', lk')"
  shows "task_list lk' queue' (as @ bs)"
proof -
  have f: "chain (queue_next lk) (tq_head queue) as t" "t \<noteq> 0" "chain (queue_next lk) (queue_next lk t) bs 0"
    and b: "chain (queue_prev lk) (tq_tail queue) (rev bs) t" "chain (queue_prev lk) (queue_prev lk t) (rev as) 0"
    and d: "t \<notin> set as" "t \<notin> set bs" "distinct as" "distinct bs" "set as \<inter> set bs = {}"
    and n: "tq_depth queue = of_nat (Suc (length as + length bs))"
    using wf by (auto simp: task_list_def)
  let ?p = "queue_prev lk t" and ?n = "queue_next lk t"
  have p: "?p = (if as = [] then 0 else last as)" using chain_head [OF b(2)] by (auto simp: hd_rev)
  have q: "?n = (if bs = [] then 0 else hd bs)" using chain_head [OF f(3)] by auto
  have zp: "?p \<noteq> 0 \<longleftrightarrow> as \<noteq> []" using p chain_nonzero [OF f(1)] last_in_set [of as] by metis
  have zn: "?n \<noteq> 0 \<longleftrightarrow> bs \<noteq> []" using q chain_nonzero [OF f(3)] hd_in_set [of bs] by metis
  have tp: "?p \<noteq> t" using p f(2) d(1) last_in_set [of as] by metis
  have tn: "?n \<noteq> t" using q f(2) d(2) hd_in_set [of bs] by metis
  have r: "tq_depth queue' = tq_depth queue - 1" "tq_head queue' = (if as = [] then ?n else tq_head queue)"
      "tq_tail queue' = (if bs = [] then ?p else tq_tail queue)"
      "queue_next lk' = (if as = [] then queue_next lk else (queue_next lk)(?p := ?n))(t := 0)"
      "queue_prev lk' = (if bs = [] then queue_prev lk else (queue_prev lk)(?n := ?p))(t := 0)"
    using res zp zn tp tn by (auto simp: queue_unlink_def Let_def split: if_splits)
  have "chain (queue_next lk') (tq_head queue') as ?n"
    using chain_relink [OF f(1) _ d(3), of ?n] f(1) d(1) p by (auto simp: r)
  moreover have "chain (queue_next lk') ?n bs 0"
  proof -
    have "?p \<notin> set bs" if "as \<noteq> []" using that p d(5) last_in_set [of as] by (metis disjoint_iff)
    then show ?thesis using f(3) d(2) by (auto simp: r)
  qed
  moreover have "chain (queue_prev lk') (tq_tail queue') (rev bs) ?p"
    using chain_relink [OF b(1) _ , of ?p] b(1) d(2,4) q by (auto simp: r last_rev)
  moreover have "chain (queue_prev lk') ?p (rev as) 0"
  proof -
    have "?n \<notin> set as" if "bs \<noteq> []" using that q d(5) hd_in_set [of bs] by (metis disjoint_iff)
    then show ?thesis using b(2) d(1) by (auto simp: r)
  qed
  ultimately show ?thesis using r(1) n d by (auto simp: task_list_def)
qed

text \<open>C34. Taking from a run queue ends on every well-formed queue and yields the first task, from the chosen end, that is available;
  it is unlinked in both directions and the order of the others is kept. If no task is available nothing changes.\<close>

theorem queue_pop_available_correct:
  assumes wf: "task_list lk queue xs"
  shows "case find available (if from_tail then rev xs else xs) of
      None \<Rightarrow> llam_queue_pop_available available queue from_tail lk = Some (0, queue, lk)
    | Some t \<Rightarrow> \<exists>queue' lk'. llam_queue_pop_available available queue from_tail lk = Some (t, queue', lk') \<and>
        task_list lk' queue' (remove1 t xs)"
proof -
  let ?ys = "if from_tail then rev xs else xs"
  have c: "chain (if from_tail then queue_prev lk else queue_next lk) (if from_tail then tq_tail queue else tq_head queue) ?ys 0"
    using wf by (simp add: task_list_def)
  show ?thesis
  proof (cases "find available ?ys")
    case None
    then show ?thesis using queue_seek_find [OF c, of available] by (simp add: llam_queue_pop_available_def)
  next
    case (Some t)
    then have t: "t \<in> set xs" by (auto dest: find_member split: if_splits)
    then have z: "t \<noteq> 0" using wf chain_nonzero by (metis task_list_def)
    obtain as bs where xs: "xs = as @ t # bs" "t \<notin> set as" using t by (meson split_list_first)
    obtain queue' lk' where u: "queue_unlink queue t lk = (queue', lk')" by fastforce
    show ?thesis using Some queue_seek_find [OF c, of available] z u task_list_unlink [OF wf [unfolded xs(1)] u] xs
      by (auto simp: llam_queue_pop_available_def remove1_append)
  qed
qed

section \<open>Concrete queues\<close>

text \<open>Three nodes pushed onto an empty queue.\<close>

definition three_waiting :: "wait_queue \<times> links" where
  "three_waiting = fold (\<lambda>n (queue, nxt). llam_wait_queue_push_tail queue n nxt) [10, 20, 30] (empty_wait_queue, \<lambda>_. 0)"

lemma three_waiting_list: "wait_list (snd three_waiting) (fst three_waiting) [10, 20, 30]"
  by (simp add: three_waiting_def llam_wait_queue_push_tail_def empty_wait_queue_def wait_list_def)

theorem wait_queue_remove_correct_witness:
  "\<exists>queue' nxt'. llam_wait_queue_remove (fst three_waiting) 20 (snd three_waiting) = Some (True, queue', nxt') \<and>
     wait_list nxt' queue' [10, 30]"
  using wait_queue_remove_correct [OF three_waiting_list, of 20] by auto

definition three_queued :: "task_queue \<times> task_links" where
  "three_queued = fold (\<lambda>t (queue, lk). llam_queue_push_tail queue t lk) [10, 20, 30]
     (empty_task_queue, \<lparr>queue_next = \<lambda>_. 0, queue_prev = \<lambda>_. 0\<rparr>)"

lemma three_queued_list: "task_list (snd three_queued) (fst three_queued) [10, 20, 30]"
  by (simp add: three_queued_def llam_queue_push_tail_def empty_task_queue_def task_list_def)

theorem queue_pop_available_correct_witness:
  "\<exists>queue' lk'. llam_queue_pop_available (\<lambda>t. t \<noteq> 30) (fst three_queued) True (snd three_queued) = Some (20, queue', lk') \<and>
     task_list lk' queue' [10, 30]"
  using queue_pop_available_correct [OF three_queued_list, of "\<lambda>t. t \<noteq> 30" True] by simp

end
