(* ===== verification/Wait_Node.thy ===== *)
theory Wait_Node
  imports LLAM_Prelude
begin

text \<open>
  The wait-node protocol of \<^verbatim>\<open>core/sync/sync.c\<close>. A task that must wait publishes a node and then commits to parking
  with \<^verbatim>\<open>llam_wait_node_should_park\<close>; whoever satisfies the wait completes the node with \<^verbatim>\<open>llam_wait_node_prepare_wake\<close>
  and puts the task back on a run queue exactly if that function says so. The theory interleaves the atomic accesses of one waiter and
  any number of completions, weak compare-and-exchanges that fail without reason included, and shows that no wake-up is
  lost and that the task is never made runnable twice or while it still runs. The counters of popped waiters, which keep
  an object alive until its waiters have returned, are part of the same source file and are modelled with it.
\<close>

section \<open>Counters of popped waiters\<close>

text \<open>The value of a counter and the fatal error the runtime records, if any. The retried compare-and-exchange is one step here.\<close>

definition llam_sync_note_inflight_waiter :: "bool \<Rightarrow> u32 \<Rightarrow> u32 \<Rightarrow> unit result \<times> u32 \<times> errno option" where
  "llam_sync_note_inflight_waiter valid counter amount =
     (if amount = 0 then (Inr (), counter, None)
      else if \<not> valid then (Inl EINVAL, counter, Some EINVAL)
      else if UINT32_MAX - counter < amount then (Inl EOVERFLOW, counter, Some EOVERFLOW)
      else (Inr (), counter + amount, None))"

definition llam_sync_complete_inflight_waiter :: "bool \<Rightarrow> u32 \<Rightarrow> u32 \<Rightarrow> unit result \<times> u32 \<times> errno option" where
  "llam_sync_complete_inflight_waiter valid counter amount =
     (if amount = 0 then (Inr (), counter, None)
      else if \<not> valid then (Inl EINVAL, counter, Some EINVAL)
      else if amount \<le> counter then (Inr (), counter - amount, None)
      else (Inl EINVAL, counter, Some EINVAL))"

text \<open>A noted waiter can be completed again, and neither call wraps the counter.\<close>

lemma inflight_roundtrip:
  assumes "llam_sync_note_inflight_waiter True c n = (Inr (), c', f)"
  shows "unat c' = unat c + unat n" "llam_sync_complete_inflight_waiter True c' n = (Inr (), c, None)"
proof -
  have c: "c' = c + n" "unat c + unat n < 2 ^ 32"
  proof -
    have "n \<noteq> 0 \<Longrightarrow> n \<le> UINT32_MAX - c" using assms by (auto simp: llam_sync_note_inflight_waiter_def split: if_splits)
    moreover have "unat (UINT32_MAX - c) = unat UINT32_MAX - unat c" by (rule unat_sub) simp
    moreover have "unat UINT32_MAX = 2 ^ 32 - 1" by (simp add: unsigned_minus_1_eq_mask mask_eq_exp_minus_1)
    ultimately show "unat c + unat n < 2 ^ 32"
      using unsigned_less [of c, where ?'a = nat] by (cases "n = 0") (auto simp: word_le_nat_alt)
    show "c' = c + n" using assms by (auto simp: llam_sync_note_inflight_waiter_def split: if_splits)
  qed
  show u: "unat c' = unat c + unat n" unfolding c(1) using c(2) by (simp add: unat_word_ariths)
  show "llam_sync_complete_inflight_waiter True c' n = (Inr (), c, None)"
    using u c(1) by (auto simp: llam_sync_complete_inflight_waiter_def word_le_nat_alt)
qed

section \<open>The node\<close>

definition LLAM_WAIT_NODE_UNARMED :: u32 where "LLAM_WAIT_NODE_UNARMED = 0"
definition LLAM_WAIT_NODE_ARMED :: u32 where "LLAM_WAIT_NODE_ARMED = 1"
definition LLAM_WAIT_NODE_COMPLETED_INLINE :: u32 where "LLAM_WAIT_NODE_COMPLETED_INLINE = 2"
definition LLAM_WAIT_NODE_COMPLETED_QUEUED :: u32 where "LLAM_WAIT_NODE_COMPLETED_QUEUED = 3"

lemmas wake_states = LLAM_WAIT_NODE_UNARMED_def LLAM_WAIT_NODE_ARMED_def LLAM_WAIT_NODE_COMPLETED_INLINE_def
  LLAM_WAIT_NODE_COMPLETED_QUEUED_def

record wait_node =
  wn_task :: u64
  wn_value :: u64
  wn_select_state :: u64
  wn_error_code :: errno
  wn_scalar_value :: int
  wn_owner_shard :: u32
  wn_wake_armed :: u32
  wn_wake_completed :: u32
  wn_wake_queued :: u32
  wn_uninterruptible :: bool

definition llam_wait_node_reset :: "u32 \<Rightarrow> wait_node" where
  "llam_wait_node_reset owner_shard =
     \<lparr>wn_task = 0, wn_value = 0, wn_select_state = 0, wn_error_code = E_OK, wn_scalar_value = 0, wn_owner_shard = owner_shard,
      wn_wake_armed = 0, wn_wake_completed = 0, wn_wake_queued = 0, wn_uninterruptible = False\<rparr>"

text \<open>The functions run without interruption.\<close>

definition llam_wait_node_prepare_wake :: "wait_node \<Rightarrow> bool \<times> wait_node" where
  "llam_wait_node_prepare_wake node =
     (if wn_task node = 0 then (False, node)
      else if wn_wake_armed node = LLAM_WAIT_NODE_UNARMED
      then (False, node\<lparr>wn_wake_armed := LLAM_WAIT_NODE_COMPLETED_INLINE, wn_wake_completed := 1\<rparr>)
      else if wn_wake_armed node = LLAM_WAIT_NODE_ARMED
      then (True, node\<lparr>wn_wake_armed := LLAM_WAIT_NODE_COMPLETED_QUEUED, wn_wake_queued := 1, wn_wake_completed := 1\<rparr>)
      else (False, node))"

definition llam_wait_node_completed :: "wait_node \<Rightarrow> bool" where
  "llam_wait_node_completed node \<longleftrightarrow> wn_wake_completed node \<noteq> 0"

definition llam_wait_node_should_park :: "wait_node \<Rightarrow> bool \<times> wait_node" where
  "llam_wait_node_should_park node =
     (if wn_wake_armed node = LLAM_WAIT_NODE_UNARMED then (True, node\<lparr>wn_wake_armed := LLAM_WAIT_NODE_ARMED\<rparr>)
      else (wn_wake_armed node = LLAM_WAIT_NODE_COMPLETED_QUEUED \<or> wn_wake_queued node \<noteq> 0, node))"

section \<open>Atomic accesses\<close>

datatype waiter_pc =
    WaitSetup                \<comment> \<open>published, not yet committed to parking\<close>
  | WaitFailed u32           \<comment> \<open>the exchange failed and returned this state\<close>
  | WaitParked               \<comment> \<open>should park\<close>
  | WaitInline               \<comment> \<open>goes on without parking\<close>

datatype waker_pc =
    WakeIdle
  | WakeCall
  | WakeLoaded u32           \<comment> \<open>state read\<close>
  | WakeInline               \<comment> \<open>exchanged 0 for 2, completion not yet stored\<close>
  | WakeQueuing              \<comment> \<open>exchanged 1 for 3, nothing stored yet\<close>
  | WakeQueued               \<comment> \<open>queued flag stored, completion not yet stored\<close>
  | WakeDone bool            \<comment> \<open>returned; True asks the caller to make the task runnable\<close>

fun waiter_access :: "waiter_pc \<Rightarrow> wait_node \<Rightarrow> waiter_pc \<times> wait_node" where
  "waiter_access WaitSetup node =
     (if wn_wake_armed node = LLAM_WAIT_NODE_UNARMED then (WaitParked, node\<lparr>wn_wake_armed := LLAM_WAIT_NODE_ARMED\<rparr>)
      else (WaitFailed (wn_wake_armed node), node))"
| "waiter_access (WaitFailed state) node =
     (if state = LLAM_WAIT_NODE_COMPLETED_QUEUED \<or> wn_wake_queued node \<noteq> 0 then WaitParked else WaitInline, node)"
| "waiter_access WaitParked node = (WaitParked, node)"
| "waiter_access WaitInline node = (WaitInline, node)"

text \<open>
  \<open>spurious\<close> lets the weak compare-and-exchange fail although the state matches; either way the state is read again.
\<close>

fun waker_access :: "bool \<Rightarrow> waker_pc \<Rightarrow> wait_node \<Rightarrow> waker_pc \<times> wait_node" where
  "waker_access spurious WakeIdle node = (WakeIdle, node)"
| "waker_access spurious WakeCall node =
     (if wn_task node = 0 then WakeDone False else WakeLoaded (wn_wake_armed node), node)"
| "waker_access spurious (WakeLoaded state) node =
     (if state = LLAM_WAIT_NODE_UNARMED then
        if wn_wake_armed node = state \<and> \<not> spurious
        then (WakeInline, node\<lparr>wn_wake_armed := LLAM_WAIT_NODE_COMPLETED_INLINE\<rparr>)
        else (WakeLoaded (wn_wake_armed node), node)
      else if state = LLAM_WAIT_NODE_ARMED then
        if wn_wake_armed node = state \<and> \<not> spurious
        then (WakeQueuing, node\<lparr>wn_wake_armed := LLAM_WAIT_NODE_COMPLETED_QUEUED\<rparr>)
        else (WakeLoaded (wn_wake_armed node), node)
      else (WakeDone False, node))"
| "waker_access spurious WakeInline node = (WakeDone False, node\<lparr>wn_wake_completed := 1\<rparr>)"
| "waker_access spurious WakeQueuing node = (WakeQueued, node\<lparr>wn_wake_queued := 1\<rparr>)"
| "waker_access spurious WakeQueued node = (WakeDone True, node\<lparr>wn_wake_completed := 1\<rparr>)"
| "waker_access spurious (WakeDone b) node = (WakeDone b, node)"

record wake_system =
  ws_node :: wait_node
  ws_waiter :: waiter_pc
  ws_waker :: "nat \<Rightarrow> waker_pc"

inductive wake_step :: "wake_system \<Rightarrow> wake_system \<Rightarrow> bool" where
  call: "ws_waker s i = WakeIdle \<Longrightarrow> wake_step s (s\<lparr>ws_waker := (ws_waker s)(i := WakeCall)\<rparr>)"
| waiter: "waiter_access (ws_waiter s) (ws_node s) = (pc, node) \<Longrightarrow> wake_step s (s\<lparr>ws_waiter := pc, ws_node := node\<rparr>)"
| waker: "waker_access spurious (ws_waker s i) (ws_node s) = (pc, node) \<Longrightarrow>
    wake_step s (s\<lparr>ws_waker := (ws_waker s)(i := pc), ws_node := node\<rparr>)"

inductive_cases wake_stepE: "wake_step s s'"

text \<open>A node freshly reset and published by its task.\<close>

definition fresh_wait :: "u64 \<Rightarrow> u32 \<Rightarrow> wake_system" where
  "fresh_wait task shard = \<lparr>ws_node = (llam_wait_node_reset shard)\<lparr>wn_task := task\<rparr>, ws_waiter = WaitSetup, ws_waker = (\<lambda>_. WakeIdle)\<rparr>"

definition queues_task :: "waker_pc \<Rightarrow> bool" where
  "queues_task pc \<longleftrightarrow> pc = WakeQueuing \<or> pc = WakeQueued \<or> pc = WakeDone True"

definition queuers :: "(nat \<Rightarrow> waker_pc) \<Rightarrow> nat set" where
  "queuers f = {i. queues_task (f i)}"

text \<open>What the four states of the node mean for the waiter and for each waker.\<close>

definition waiter_ok :: "wait_node \<Rightarrow> waiter_pc \<Rightarrow> bool" where
  "waiter_ok node pc \<longleftrightarrow>
     (let a = wn_wake_armed node in
      wn_task node \<noteq> 0 \<and> a \<in> {0, 1, 2, 3} \<and> (a \<noteq> 3 \<longrightarrow> wn_wake_queued node = 0) \<and> (wn_wake_completed node \<noteq> 0 \<longrightarrow> a \<in> {2, 3}) \<and>
      (case pc of WaitSetup \<Rightarrow> a \<in> {0, 2} | WaitFailed st \<Rightarrow> st = 2 \<and> a = 2 | WaitParked \<Rightarrow> a \<in> {1, 3} | WaitInline \<Rightarrow> a = 2))"

definition waker_ok :: "u32 \<Rightarrow> waker_pc \<Rightarrow> bool" where
  "waker_ok a pc \<longleftrightarrow>
     (case pc of WakeDone b \<Rightarrow> a \<in> {2, 3} | WakeInline \<Rightarrow> a = 2
      | WakeLoaded st \<Rightarrow> st \<in> {0, 1, 2, 3} \<and> (st \<in> {2, 3} \<longrightarrow> a \<in> {2, 3}) | _ \<Rightarrow> True)"

definition wake_inv :: "wake_system \<Rightarrow> bool" where
  "wake_inv s \<longleftrightarrow> waiter_ok (ws_node s) (ws_waiter s) \<and> (\<forall>i. waker_ok (wn_wake_armed (ws_node s)) (ws_waker s i)) \<and>
     (if wn_wake_armed (ws_node s) = 3 then \<exists>i. queuers (ws_waker s) = {i} else queuers (ws_waker s) = {})"

lemma queuers_upd: "queuers (f(i := pc)) = (if queues_task pc then insert i (queuers f) else queuers f - {i})"
  by (auto simp: queuers_def)

lemma waker_ok_early: "waker_ok a pc \<Longrightarrow> a \<noteq> 2 \<Longrightarrow> a \<noteq> 3 \<Longrightarrow> waker_ok a' pc"
  by (cases pc) (auto simp: waker_ok_def)

lemma wake_inv_init: "task \<noteq> 0 \<Longrightarrow> wake_inv (fresh_wait task shard)"
  by (simp add: wake_inv_def waiter_ok_def waker_ok_def fresh_wait_def llam_wait_node_reset_def queuers_def queues_task_def Let_def)

lemma wake_inv_waiter:
  assumes inv: "wake_inv s" and step: "waiter_access (ws_waiter s) (ws_node s) = (pc, node)"
  shows "wake_inv (s\<lparr>ws_waiter := pc, ws_node := node\<rparr>)"
proof -
  have w: "waiter_ok node pc" and a: "wn_wake_armed node = wn_wake_armed (ws_node s) \<or> wn_wake_armed (ws_node s) = 0 \<and> wn_wake_armed node = 1"
    using inv step by (cases "ws_waiter s"; auto simp: wake_inv_def waiter_ok_def Let_def wake_states split: if_splits)+
  then show ?thesis using inv waker_ok_early [of 0 _ 1] by (auto simp: wake_inv_def)
qed

text \<open>A waker that leaves the node's state alone and does not change whether it queues the task.\<close>

lemma wake_inv_same:
  assumes "wake_inv s" "waiter_ok node (ws_waiter s)" "waker_ok (wn_wake_armed node) pc" "wn_wake_armed node = wn_wake_armed (ws_node s)"
    "queues_task pc = queues_task (ws_waker s i)"
  shows "wake_inv (s\<lparr>ws_waker := (ws_waker s)(i := pc), ws_node := node\<rparr>)"
proof -
  have "queuers ((ws_waker s)(i := pc)) = queuers (ws_waker s)" using assms(5) by (auto simp: queuers_def)
  then show ?thesis using assms by (auto simp: wake_inv_def)
qed

text \<open>The two exchanges, which only one waker can perform.\<close>

lemma wake_inv_exchange:
  assumes "wake_inv s" "wn_wake_armed (ws_node s) \<noteq> 2" "wn_wake_armed (ws_node s) \<noteq> 3" "waiter_ok node (ws_waiter s)"
    "waker_ok (wn_wake_armed node) pc" "wn_wake_armed node = 3 \<longleftrightarrow> queues_task pc"
  shows "wake_inv (s\<lparr>ws_waker := (ws_waker s)(i := pc), ws_node := node\<rparr>)"
proof -
  have "queuers (ws_waker s) = {}" using assms(1,3) by (simp add: wake_inv_def)
  then show ?thesis using assms waker_ok_early [of "wn_wake_armed (ws_node s)" _ "wn_wake_armed node"] by (auto simp: wake_inv_def queuers_upd)
qed

lemma wake_inv_waker:
  assumes inv: "wake_inv s" and step: "waker_access spurious (ws_waker s i) (ws_node s) = (pc, node)"
  shows "wake_inv (s\<lparr>ws_waker := (ws_waker s)(i := pc), ws_node := node\<rparr>)"
proof -
  have w: "waiter_ok (ws_node s) (ws_waiter s)" and k: "waker_ok (wn_wake_armed (ws_node s)) (ws_waker s i)" using inv by (auto simp: wake_inv_def)
  have three: "wn_wake_armed (ws_node s) = 3" if "queues_task (ws_waker s i)"
    using inv that by (auto simp: wake_inv_def queuers_def split: if_splits)
  note defs = waiter_ok_def waker_ok_def queues_task_def Let_def wake_states
  show ?thesis
  proof (cases "ws_waker s i")
    case (WakeLoaded st)
    show ?thesis
    proof (cases "(st = 0 \<or> st = 1) \<and> wn_wake_armed (ws_node s) = st \<and> \<not> spurious")
      case True
      then show ?thesis using step w WakeLoaded
        by (intro wake_inv_exchange [OF inv]) (auto simp: defs split: if_splits waiter_pc.splits)
    next
      case False
      have r: "pc = (if st = 0 \<or> st = 1 then WakeLoaded (wn_wake_armed (ws_node s)) else WakeDone False)" "node = ws_node s"
        using step WakeLoaded False by (auto simp: wake_states split: if_splits)
      have "waker_ok (wn_wake_armed node) pc" using k w WakeLoaded unfolding r by (auto simp: waker_ok_def waiter_ok_def Let_def)
      moreover have "queues_task pc = queues_task (ws_waker s i)" unfolding r WakeLoaded by (simp add: queues_task_def)
      ultimately show ?thesis using w r(2) by (intro wake_inv_same [OF inv]) simp_all
    qed
  next
    case WakeQueuing
    then show ?thesis using step w three by (intro wake_inv_same [OF inv]) (auto simp: defs split: waiter_pc.splits)
  next
    case WakeQueued
    then show ?thesis using step w three by (intro wake_inv_same [OF inv]) (auto simp: defs split: waiter_pc.splits)
  next
    case WakeInline
    then show ?thesis using step w k by (intro wake_inv_same [OF inv]) (auto simp: defs split: waiter_pc.splits)
  next
    case WakeIdle
    then show ?thesis using step w k by (intro wake_inv_same [OF inv]) auto
  next
    case WakeCall
    then show ?thesis using step w k by (intro wake_inv_same [OF inv]) (auto simp: defs)
  next
    case (WakeDone b)
    then show ?thesis using step w k by (intro wake_inv_same [OF inv]) auto
  qed
qed

lemma wake_inv_step: "wake_step s s' \<Longrightarrow> wake_inv s \<Longrightarrow> wake_inv s'"
proof (induction rule: wake_step.induct)
  case (call s i)
  then have "wake_inv (s\<lparr>ws_waker := (ws_waker s)(i := WakeCall), ws_node := ws_node s\<rparr>)"
    by (intro wake_inv_same) (auto simp: wake_inv_def waker_ok_def queues_task_def)
  moreover have "s\<lparr>ws_waker := (ws_waker s)(i := WakeCall), ws_node := ws_node s\<rparr> = s\<lparr>ws_waker := (ws_waker s)(i := WakeCall)\<rparr>"
    by (cases s) simp
  ultimately show ?case by (simp only:)
next
  case (waiter s pc node)
  then show ?case by (intro wake_inv_waiter)
next
  case (waker spurious s i pc node)
  then show ?case by (intro wake_inv_waker)
qed

lemma wake_inv_reachable: "wake_step\<^sup>*\<^sup>* (fresh_wait task shard) s \<Longrightarrow> task \<noteq> 0 \<Longrightarrow> wake_inv s"
  by (induction rule: rtranclp_induct) (auto intro: wake_inv_init wake_inv_step)

text \<open>C6. No wake-up is lost or doubled: under every interleaving of a waiter with any number of completions of its node, at most one
  completion asks for the task to be made runnable; if the waiter goes on without parking none does; and if the waiter parks, then as
  soon as any completion has returned, exactly one has asked for it or is about to.\<close>

theorem wake_exactly_once:
  assumes "wake_step\<^sup>*\<^sup>* (fresh_wait task shard) s" "task \<noteq> 0"
  shows "(\<forall>i j. queues_task (ws_waker s i) \<and> queues_task (ws_waker s j) \<longrightarrow> i = j) \<and>
     (ws_waiter s = WaitInline \<longrightarrow> (\<forall>i. \<not> queues_task (ws_waker s i)) \<and> wn_wake_armed (ws_node s) = LLAM_WAIT_NODE_COMPLETED_INLINE) \<and>
     (ws_waiter s = WaitParked \<and> (\<exists>i b. ws_waker s i = WakeDone b) \<longrightarrow> (\<exists>!i. queues_task (ws_waker s i)))"
proof -
  note inv = wake_inv_reachable [OF assms]
  let ?a = "wn_wake_armed (ws_node s)"
  have q: "?a = 3 \<Longrightarrow> \<exists>i. queuers (ws_waker s) = {i}" "?a \<noteq> 3 \<Longrightarrow> queuers (ws_waker s) = {}" using inv by (auto simp: wake_inv_def)
  have one: "\<exists>!i. queues_task (ws_waker s i)" if "?a = 3" using q(1) [OF that] by (auto simp: queuers_def set_eq_iff)
  have none: "\<not> queues_task (ws_waker s i)" if "?a \<noteq> 3" for i using q(2) [OF that] by (auto simp: queuers_def)
  have "i = j" if "queues_task (ws_waker s i)" "queues_task (ws_waker s j)" for i j using one none that by blast
  moreover have "?a = 2" if "ws_waiter s = WaitInline" using inv that by (auto simp: wake_inv_def waiter_ok_def Let_def)
  moreover have "?a = 3" if "ws_waiter s = WaitParked" "ws_waker s i = WakeDone b" for i b
  proof -
    have "waker_ok ?a (WakeDone b)" using inv that(2) by (metis wake_inv_def)
    then show ?thesis using inv that(1) by (auto simp: wake_inv_def waiter_ok_def waker_ok_def Let_def)
  qed
  ultimately show ?thesis using one none by (auto simp: wake_states)
qed

text \<open>A schedule: \<open>None\<close> moves the waiter, \<open>Some i\<close> the waker \<open>i\<close>.\<close>

fun wake_schedule :: "nat option list \<Rightarrow> wake_system \<Rightarrow> wake_system" where
  "wake_schedule [] s = s"
| "wake_schedule (None # ms) s =
     (case waiter_access (ws_waiter s) (ws_node s) of (pc, node) \<Rightarrow> wake_schedule ms (s\<lparr>ws_waiter := pc, ws_node := node\<rparr>))"
| "wake_schedule (Some i # ms) s =
     (if ws_waker s i = WakeIdle then wake_schedule ms (s\<lparr>ws_waker := (ws_waker s)(i := WakeCall)\<rparr>)
      else (case waker_access False (ws_waker s i) (ws_node s) of (pc, node) \<Rightarrow>
              wake_schedule ms (s\<lparr>ws_waker := (ws_waker s)(i := pc), ws_node := node\<rparr>)))"

lemma wake_schedule_reaches: "wake_step\<^sup>*\<^sup>* s (wake_schedule ms s)"
proof (induction ms s rule: wake_schedule.induct)
  case (2 ms s)
  then show ?case by (auto split: prod.split intro: converse_rtranclp_into_rtranclp wake_step.waiter)
next
  case (3 i ms s)
  then show ?case by (auto split: prod.split intro: converse_rtranclp_into_rtranclp wake_step.call wake_step.waker)
qed simp

text \<open>One completion finds the waiter committed to parking; a second one comes too late.\<close>

theorem wake_exactly_once_witness:
  "\<exists>s. wake_step\<^sup>*\<^sup>* (fresh_wait 9 1) s \<and> ws_waiter s = WaitParked \<and> ws_waker s 1 = WakeDone False \<and>
     (\<exists>!i. queues_task (ws_waker s i)) \<and> queues_task (ws_waker s 0)"
proof -
  let ?s = "wake_schedule [Some 0, None, Some 0, Some 0, Some 1, Some 0, Some 1, Some 0, Some 1] (fresh_wait 9 1)"
  have s: "ws_waiter ?s = WaitParked" "ws_waker ?s 0 = WakeDone True" "ws_waker ?s 1 = WakeDone False"
    by (simp_all add: fresh_wait_def llam_wait_node_reset_def wake_states)
  have r: "wake_step\<^sup>*\<^sup>* (fresh_wait 9 1) ?s" by (rule wake_schedule_reaches)
  have n: "(9 :: u64) \<noteq> 0" by simp
  have "\<exists>!i. queues_task (ws_waker ?s i)" using wake_exactly_once [OF r n] s(1,2) by blast
  then show ?thesis using r s by (intro exI [of _ ?s]) (simp add: queues_task_def)
qed

end
