(* ===== verification/Sync_Mutex.thy ===== *)
theory Sync_Mutex
  imports LLAM_Prelude
begin

text \<open>
  The runtime mutex (\<^verbatim>\<open>core/sync/mutex.c\<close>), with the part of \<^verbatim>\<open>core/time/timer.c\<close> that takes a timed-out or
  cancelled waiter off its queue. The owner word is read and exchanged without a lock; the queue of waiters is guarded by the mutex's
  internal lock. Each step of the model is one access to the owner word, or the accesses under the internal lock up to the
  next access of the owner word, so that attempts without the lock can fall between any two of them. Taking the
  internal lock is part of the first access made under it and releasing it part of the last. The theory shows mutual exclusion, that no waiter
  is forgotten, that ownership passes to the longest waiting task, and that donated priority is given back.
\<close>

section \<open>The mutex and its callers\<close>

text \<open>
  Tasks are addresses, 0 is no task. A task waits with its own node, so the queue is a list of tasks. \<open>mx_done\<close> is the completion of
  a node: nothing, or the error code with which its task was woken.
\<close>

datatype mutex_pc =
    Outside                    \<comment> \<open>not owning, between calls\<close>
  | Owning                     \<comment> \<open>owning, between calls\<close>
  | TryCall bool               \<comment> \<open>trylock; whether the caller owns the mutex\<close>
  | LockCall bool              \<comment> \<open>lock; whether the caller owns the mutex\<close>
  | LockFast                   \<comment> \<open>the exchange without the lock\<close>
  | LockSlow                   \<comment> \<open>to take the internal lock and try again\<close>
  | LockPush u64               \<comment> \<open>internal lock held, owner seen\<close>
  | LockWaiting                \<comment> \<open>queued; parked or setting up timers\<close>
  | LockQuit errno             \<comment> \<open>setting up failed; to leave the queue\<close>
  | UnlockCall bool            \<comment> \<open>unlock; whether the caller owns the mutex\<close>
  | UnlockPop                  \<comment> \<open>to take the internal lock and the first waiter\<close>
  | UnlockStore u64            \<comment> \<open>internal lock held, next owner or 0\<close>
  | UnlockRestore u64          \<comment> \<open>to give donated priority back\<close>
  | UnlockWake u64             \<comment> \<open>to wake the new owner\<close>

text \<open>A timer or a cancellation acting on a waiting task.\<close>

datatype resolver_pc = ResolverIdle | ResolverRemove u64 errno | ResolverWake u64 errno

record mutex_system =
  mx_owner :: u64
  mx_held :: "u64 option"
  mx_waiters :: "u64 list"
  mx_done :: "u64 \<Rightarrow> errno option"
  mx_class :: "u64 \<Rightarrow> u32"
  mx_base :: "u64 \<Rightarrow> u32"
  mx_pc :: "u64 \<Rightarrow> mutex_pc"
  mx_resolver :: "nat \<Rightarrow> resolver_pc"

definition llam_mutex_donate_priority :: "u64 \<Rightarrow> u64 \<Rightarrow> (u64 \<Rightarrow> u32) \<Rightarrow> (u64 \<Rightarrow> u32)" where
  "llam_mutex_donate_priority owner waiter cls =
     (if owner = 0 \<or> waiter = 0 \<or> owner = waiter then cls
      else if cls waiter < cls owner then cls(owner := cls waiter) else cls)"

text \<open>The result a step returns to its caller, if the call ends with it.\<close>

type_synonym mutex_ret = "unit result option"

definition trylock_access :: "u64 \<Rightarrow> bool \<Rightarrow> mutex_system \<Rightarrow> mutex_ret \<times> mutex_pc \<times> mutex_system" where
  "trylock_access t owning s =
     (if mx_owner s = 0 then (Some (Inr ()), Owning, s\<lparr>mx_owner := t\<rparr>)
      else (Some (Inl EBUSY), if owning then Owning else Outside, s))"

definition lock_check :: "u64 \<Rightarrow> bool \<Rightarrow> mutex_system \<Rightarrow> mutex_ret \<times> mutex_pc \<times> mutex_system" where
  "lock_check t owning s = (if mx_owner s = t then (Some (Inl EDEADLK), if owning then Owning else Outside, s) else (None, LockFast, s))"

text \<open>
  The fast exchange; when it fails the call may end at once, because its deadline has passed or no node can be had.
\<close>

definition lock_fast :: "u64 \<Rightarrow> errno option \<Rightarrow> mutex_system \<Rightarrow> mutex_ret \<times> mutex_pc \<times> mutex_system" where
  "lock_fast t refused s =
     (if mx_owner s = 0 then (Some (Inr ()), Owning, s\<lparr>mx_owner := t\<rparr>)
      else (case refused of Some e \<Rightarrow> (Some (Inl e), Outside, s) | None \<Rightarrow> (None, LockSlow, s)))"

definition lock_slow :: "u64 \<Rightarrow> mutex_system \<Rightarrow> mutex_ret \<times> mutex_pc \<times> mutex_system" where
  "lock_slow t s =
     (if mx_owner s = 0 then (Some (Inr ()), Owning, s\<lparr>mx_owner := t\<rparr>)
      else (None, LockPush (mx_owner s), s\<lparr>mx_held := Some t\<rparr>))"

definition lock_push :: "u64 \<Rightarrow> u64 \<Rightarrow> mutex_system \<Rightarrow> mutex_ret \<times> mutex_pc \<times> mutex_system" where
  "lock_push t expected s =
     (None, LockWaiting, s\<lparr>mx_class := llam_mutex_donate_priority expected t (mx_class s), mx_waiters := mx_waiters s @ [t],
        mx_held := None\<rparr>)"

text \<open>A failed set-up leaves the queue, unless ownership was passed on meanwhile.\<close>

definition lock_quit :: "u64 \<Rightarrow> errno \<Rightarrow> mutex_system \<Rightarrow> mutex_ret \<times> mutex_pc \<times> mutex_system" where
  "lock_quit t e s =
     (if t \<in> set (mx_waiters s) then (Some (Inl e), Outside, s\<lparr>mx_waiters := remove1 t (mx_waiters s)\<rparr>)
      else (None, LockWaiting, s))"

definition lock_resume :: "u64 \<Rightarrow> mutex_system \<Rightarrow> mutex_ret \<times> mutex_pc \<times> mutex_system" where
  "lock_resume t s =
     (case mx_done s t of
        None \<Rightarrow> (None, LockWaiting, s)
      | Some rc \<Rightarrow> let s = s\<lparr>mx_done := (mx_done s)(t := None)\<rparr> in
          if rc = E_OK then (Some (Inr ()), Owning, s) else (Some (Inl rc), Outside, s))"

definition unlock_check :: "u64 \<Rightarrow> mutex_system \<Rightarrow> mutex_ret \<times> mutex_pc \<times> mutex_system" where
  "unlock_check t s = (if mx_owner s \<noteq> t then (Some (Inl EPERM), Outside, s) else (None, UnlockPop, s))"

definition unlock_pop :: "u64 \<Rightarrow> mutex_system \<Rightarrow> mutex_ret \<times> mutex_pc \<times> mutex_system" where
  "unlock_pop t s =
     (case mx_waiters s of
        [] \<Rightarrow> (None, UnlockStore 0, s\<lparr>mx_held := Some t\<rparr>)
      | n # ns \<Rightarrow> (None, UnlockStore n, s\<lparr>mx_waiters := ns, mx_held := Some t\<rparr>))"

definition unlock_store :: "u64 \<Rightarrow> mutex_system \<Rightarrow> mutex_ret \<times> mutex_pc \<times> mutex_system" where
  "unlock_store n s = (None, UnlockRestore n, s\<lparr>mx_owner := n, mx_held := None\<rparr>)"

definition unlock_restore :: "u64 \<Rightarrow> u64 \<Rightarrow> mutex_system \<Rightarrow> mutex_ret \<times> mutex_pc \<times> mutex_system" where
  "unlock_restore t n s =
     (let s = s\<lparr>mx_class := (mx_class s)(t := mx_base s t)\<rparr> in
      if n = 0 then (Some (Inr ()), Outside, s) else (None, UnlockWake n, s))"

definition unlock_wake :: "u64 \<Rightarrow> mutex_system \<Rightarrow> mutex_ret \<times> mutex_pc \<times> mutex_system" where
  "unlock_wake n s = (Some (Inr ()), Outside, s\<lparr>mx_done := (mx_done s)(n := Some E_OK)\<rparr>)"

text \<open>One access of a task. \<open>refused\<close> is what the fast path may end with.\<close>

fun mutex_access :: "errno option \<Rightarrow> u64 \<Rightarrow> mutex_pc \<Rightarrow> mutex_system \<Rightarrow> mutex_ret \<times> mutex_pc \<times> mutex_system" where
  "mutex_access refused t Outside s = (None, Outside, s)"
| "mutex_access refused t Owning s = (None, Owning, s)"
| "mutex_access refused t (TryCall owning) s = trylock_access t owning s"
| "mutex_access refused t (LockCall owning) s = lock_check t owning s"
| "mutex_access refused t LockFast s = lock_fast t refused s"
| "mutex_access refused t LockSlow s = lock_slow t s"
| "mutex_access refused t (LockPush expected) s = lock_push t expected s"
| "mutex_access refused t LockWaiting s = lock_resume t s"
| "mutex_access refused t (LockQuit e) s = lock_quit t e s"
| "mutex_access refused t (UnlockCall owning) s = unlock_check t s"
| "mutex_access refused t UnlockPop s = unlock_pop t s"
| "mutex_access refused t (UnlockStore n) s = unlock_store n s"
| "mutex_access refused t (UnlockRestore n) s = unlock_restore t n s"
| "mutex_access refused t (UnlockWake n) s = unlock_wake n s"

text \<open>Which accesses begin by taking the internal lock.\<close>

definition takes_lock :: "mutex_pc \<Rightarrow> bool" where
  "takes_lock pc \<longleftrightarrow> (case pc of LockSlow \<Rightarrow> True | LockQuit _ \<Rightarrow> True | UnlockPop \<Rightarrow> True | _ \<Rightarrow> False)"

text \<open>A timer or cancellation: removal under the internal lock, then the wake.\<close>

fun resolver_access :: "resolver_pc \<Rightarrow> mutex_system \<Rightarrow> resolver_pc \<times> mutex_system" where
  "resolver_access ResolverIdle s = (ResolverIdle, s)"
| "resolver_access (ResolverRemove t e) s =
     (if t \<in> set (mx_waiters s) then (ResolverWake t e, s\<lparr>mx_waiters := remove1 t (mx_waiters s)\<rparr>) else (ResolverIdle, s))"
| "resolver_access (ResolverWake t e) s = (ResolverIdle, s\<lparr>mx_done := (mx_done s)(t := Some e)\<rparr>)"

inductive mutex_step :: "mutex_system \<Rightarrow> mutex_system \<Rightarrow> bool" where
  call: "t \<noteq> 0 \<Longrightarrow> mx_pc s t = (if owning then Owning else Outside) \<Longrightarrow> pc \<in> {TryCall owning, LockCall owning, UnlockCall owning} \<Longrightarrow>
    mutex_step s (s\<lparr>mx_pc := (mx_pc s)(t := pc)\<rparr>)"
| quit: "mx_pc s t = LockWaiting \<Longrightarrow> mx_done s t = None \<Longrightarrow> mutex_step s (s\<lparr>mx_pc := (mx_pc s)(t := LockQuit e)\<rparr>)"
| task: "takes_lock (mx_pc s t) \<longrightarrow> mx_held s = None \<Longrightarrow> mutex_access refused t (mx_pc s t) s = (r, pc, s') \<Longrightarrow>
    mutex_step s (s'\<lparr>mx_pc := (mx_pc s)(t := pc)\<rparr>)"
| arm: "mx_resolver s j = ResolverIdle \<Longrightarrow> e \<noteq> E_OK \<Longrightarrow> mutex_step s (s\<lparr>mx_resolver := (mx_resolver s)(j := ResolverRemove t e)\<rparr>)"
| resolve: "(\<exists>t e. mx_resolver s j = ResolverRemove t e) \<longrightarrow> mx_held s = None \<Longrightarrow> resolver_access (mx_resolver s j) s = (pc, s') \<Longrightarrow>
    mutex_step s (s'\<lparr>mx_resolver := (mx_resolver s)(j := pc)\<rparr>)"

text \<open>A mutex nobody uses.\<close>

definition free_mutex :: "(u64 \<Rightarrow> u32) \<Rightarrow> mutex_system" where
  "free_mutex base = \<lparr>mx_owner = 0, mx_held = None, mx_waiters = [], mx_done = (\<lambda>_. None), mx_class = base, mx_base = base,
     mx_pc = (\<lambda>_. Outside), mx_resolver = (\<lambda>_. ResolverIdle)\<rparr>"

section \<open>The invariant\<close>

definition owns :: "mutex_pc \<Rightarrow> bool" where
  "owns pc \<longleftrightarrow> (case pc of Owning \<Rightarrow> True | TryCall b \<Rightarrow> b | LockCall b \<Rightarrow> b | UnlockCall b \<Rightarrow> b | UnlockPop \<Rightarrow> True | UnlockStore _ \<Rightarrow> True | _ \<Rightarrow> False)"

definition waits :: "mutex_pc \<Rightarrow> bool" where
  "waits pc \<longleftrightarrow> (case pc of LockWaiting \<Rightarrow> True | LockQuit _ \<Rightarrow> True | _ \<Rightarrow> False)"

text \<open>Who is about to complete the node of a task: the unlocking owner that popped it, or the timer that removed it.\<close>

definition bears :: "mutex_pc \<Rightarrow> u64 \<Rightarrow> bool" where
  "bears pc n \<longleftrightarrow> n \<noteq> 0 \<and> pc \<in> {UnlockStore n, UnlockRestore n, UnlockWake n}"

definition passed :: "mutex_pc \<Rightarrow> u64 \<Rightarrow> bool" where
  "passed pc n \<longleftrightarrow> n \<noteq> 0 \<and> pc \<in> {UnlockRestore n, UnlockWake n}"

definition bearers :: "(u64 \<Rightarrow> mutex_pc) \<Rightarrow> (nat \<Rightarrow> resolver_pc) \<Rightarrow> u64 \<Rightarrow> (u64 + nat) set" where
  "bearers f r n = Inl ` {u. bears (f u) n} \<union> Inr ` {j. \<exists>e. r j = ResolverWake n e}"

text \<open>A node is unused, queued, about to be completed by exactly one bearer, or completed.\<close>

definition phase_ok :: "bool \<Rightarrow> bool \<Rightarrow> errno option \<Rightarrow> (u64 + nat) set \<Rightarrow> bool" where
  "phase_ok waiting queued rc bs \<longleftrightarrow>
     (if waiting \<and> \<not> queued then if rc = None then \<exists>a. bs = {a} else bs = {} else rc = None \<and> bs = {} \<and> (queued \<longrightarrow> waiting))"

text \<open>A waiting task that has been made the owner.\<close>

definition given :: "(u64 \<Rightarrow> mutex_pc) \<Rightarrow> (u64 \<Rightarrow> errno option) \<Rightarrow> u64 \<Rightarrow> bool" where
  "given f d n \<longleftrightarrow> waits (f n) \<and> (d n = Some E_OK \<or> (\<exists>u. passed (f u) n))"

definition nodes_ok :: "mutex_system \<Rightarrow> bool" where
  "nodes_ok s \<longleftrightarrow> (\<forall>n. phase_ok (waits (mx_pc s n)) (n \<in> set (mx_waiters s)) (mx_done s n) (bearers (mx_pc s) (mx_resolver s) n)) \<and>
     distinct (mx_waiters s) \<and>
     (\<forall>j t e. mx_resolver s j = ResolverRemove t e \<or> mx_resolver s j = ResolverWake t e \<longrightarrow> e \<noteq> E_OK)"

definition owner_ok :: "mutex_system \<Rightarrow> bool" where
  "owner_ok s \<longleftrightarrow> (\<forall>n. n \<noteq> 0 \<longrightarrow> (mx_owner s = n \<longleftrightarrow> owns (mx_pc s n) \<or> given (mx_pc s) (mx_done s) n)) \<and> mx_pc s 0 = Outside \<and>
     (mx_waiters s \<noteq> [] \<longrightarrow> mx_owner s \<noteq> 0)"

definition lock_ok :: "mutex_system \<Rightarrow> bool" where
  "lock_ok s \<longleftrightarrow> (\<forall>t. mx_held s = Some t \<longleftrightarrow> (\<exists>x. mx_pc s t = LockPush x \<or> mx_pc s t = UnlockStore x)) \<and>
     (\<forall>t x. mx_pc s t = LockPush x \<longrightarrow> mx_owner s = x \<and> x \<noteq> 0 \<and> x \<noteq> t) \<and>
     (\<forall>t. mx_pc s t = UnlockStore 0 \<longrightarrow> mx_waiters s = []) \<and> (\<forall>t. mx_pc s t \<noteq> UnlockWake 0)"

definition class_ok :: "mutex_system \<Rightarrow> bool" where
  "class_ok s \<longleftrightarrow> (\<forall>t. t \<noteq> 0 \<and> t \<noteq> mx_owner s \<and> (\<forall>n. mx_pc s t \<noteq> UnlockRestore n) \<longrightarrow> mx_class s t = mx_base s t)"

definition mutex_inv :: "mutex_system \<Rightarrow> bool" where
  "mutex_inv s \<longleftrightarrow> nodes_ok s \<and> owner_ok s \<and> lock_ok s \<and> class_ok s"

lemma mutex_invD: "mutex_inv s \<Longrightarrow> nodes_ok s" "mutex_inv s \<Longrightarrow> owner_ok s" "mutex_inv s \<Longrightarrow> lock_ok s" "mutex_inv s \<Longrightarrow> class_ok s"
  by (simp_all add: mutex_inv_def)

lemma nodes_okI:
  "(\<And>n. phase_ok (waits (mx_pc s n)) (n \<in> set (mx_waiters s)) (mx_done s n) (bearers (mx_pc s) (mx_resolver s) n)) \<Longrightarrow>
   distinct (mx_waiters s) \<Longrightarrow> (\<And>j t e. mx_resolver s j = ResolverRemove t e \<or> mx_resolver s j = ResolverWake t e \<Longrightarrow> e \<noteq> E_OK) \<Longrightarrow> nodes_ok s"
  by (auto simp: nodes_ok_def)

lemma nodes_okD:
  "nodes_ok s \<Longrightarrow> phase_ok (waits (mx_pc s n)) (n \<in> set (mx_waiters s)) (mx_done s n) (bearers (mx_pc s) (mx_resolver s) n)"
  by (simp add: nodes_ok_def)

lemma bearers_task: "bearers (f(t := pc)) r n = (if bears pc n then insert (Inl t) (bearers f r n) else bearers f r n - {Inl t})"
  by (auto simp: bearers_def)

lemma bearers_resolver:
  "bearers f (r(j := pc)) n = (if \<exists>e. pc = ResolverWake n e then insert (Inr j) (bearers f r n) else bearers f r n - {Inr j})"
  by (auto simp: bearers_def)

lemma bearers_same: "(\<And>n. bears pc n = bears (f t) n) \<Longrightarrow> bearers (f(t := pc)) r = bearers f r"
  by (auto simp: bearers_def fun_eq_iff)

lemma bearers_free: "(\<And>n. \<not> bears (f t) n) \<Longrightarrow> Inl t \<notin> bearers f r n"
  by (auto simp: bearers_def)

lemma given_same: "waits pc = waits (f t) \<Longrightarrow> (\<And>n. passed pc n = passed (f t) n) \<Longrightarrow> given (f(t := pc)) d = given f d"
proof
  fix n
  assume "waits pc = waits (f t)" "\<And>n. passed pc n = passed (f t) n"
  moreover from this(2) have "(\<exists>u. passed ((f(t := pc)) u) n) = (\<exists>u. passed (f u) n)" by (metis fun_upd_apply)
  ultimately show "given (f(t := pc)) d n = given f d n" by (simp add: given_def)
qed

lemma given_left:
  assumes "\<not> waits pc" "\<And>n. \<not> passed pc n" "\<And>n. \<not> passed (f t) n" "\<And>n. n \<noteq> t \<Longrightarrow> d' n = d n"
  shows "given (f(t := pc)) d' n = (n \<noteq> t \<and> given f d n)"
proof -
  have "(\<exists>u. passed ((f(t := pc)) u) n) = (\<exists>u. passed (f u) n)" using assms(2,3) by (metis fun_upd_apply)
  then show ?thesis using assms(1,4) by (auto simp: given_def)
qed

lemma phase_bearer: "phase_ok w q rc bs \<Longrightarrow> a \<in> bs \<Longrightarrow> w \<and> \<not> q \<and> rc = None \<and> bs = {a}"
  by (auto simp: phase_ok_def split: if_splits)

lemma phase_not_waiting: "phase_ok False q rc bs \<longleftrightarrow> \<not> q \<and> rc = None \<and> bs = {}"
  by (auto simp: phase_ok_def)

lemma mutex_inv_free: "mutex_inv (free_mutex base)"
  by (simp add: mutex_inv_def nodes_ok_def owner_ok_def lock_ok_def class_ok_def given_def free_mutex_def phase_ok_def waits_def owns_def
      bearers_def bears_def passed_def)

text \<open>
  A step of a task that touches neither the queue nor the completions nor the owner, between two places that mean the same for
  the others.
\<close>

lemma inv_move:
  assumes inv: "mutex_inv s" and t: "t \<noteq> 0" and same: "owns pc = owns (mx_pc s t)" "waits pc = waits (mx_pc s t)"
    and b: "\<And>n. bears pc n = bears (mx_pc s t) n" and p: "\<And>n. passed pc n = passed (mx_pc s t) n"
    and "\<And>x. pc \<noteq> LockPush x" "\<And>x. pc \<noteq> UnlockStore x" "\<And>x. mx_pc s t \<noteq> LockPush x" "\<And>x. mx_pc s t \<noteq> UnlockStore x"
    and "\<And>x. pc \<noteq> UnlockRestore x" "\<And>x. mx_pc s t \<noteq> UnlockRestore x" "\<And>x. pc \<noteq> UnlockWake x"
  shows "mutex_inv (s\<lparr>mx_pc := (mx_pc s)(t := pc)\<rparr>)"
proof -
  let ?s = "s\<lparr>mx_pc := (mx_pc s)(t := pc)\<rparr>"
  note b = bearers_same [of pc "mx_pc s" t, OF b] and g = given_same [of pc "mx_pc s" t, OF same(2) p]
  have "nodes_ok ?s" using mutex_invD(1) [OF inv] b same(2) by (auto simp: nodes_ok_def)
  moreover have "owner_ok ?s" using mutex_invD(2) [OF inv] g same(1) t by (auto simp: owner_ok_def)
  moreover have "lock_ok ?s" using mutex_invD(3) [OF inv] assms(7-10,13) by (auto simp: lock_ok_def)
  moreover have "class_ok ?s" using mutex_invD(4) [OF inv] assms(11,12) by (auto simp: class_ok_def)
  ultimately show ?thesis by (simp add: mutex_inv_def)
qed

text \<open>The exchange of a free owner word.\<close>

lemma inv_acquire:
  assumes inv: "mutex_inv s" and t: "t \<noteq> 0" and free: "mx_owner s = 0" and pc: "mx_pc s t \<in> {TryCall b, LockFast, LockSlow}"
  shows "mutex_inv (s\<lparr>mx_owner := t, mx_pc := (mx_pc s)(t := Owning)\<rparr>)"
proof -
  let ?s = "s\<lparr>mx_owner := t, mx_pc := (mx_pc s)(t := Owning)\<rparr>"
  have w: "\<not> waits (mx_pc s t)" "\<And>n. bears Owning n = bears (mx_pc s t) n" "\<And>n. passed Owning n = passed (mx_pc s t) n"
    using pc by (auto simp: waits_def bears_def passed_def)
  have wo: "waits Owning = waits (mx_pc s t)" using w(1) by (simp add: waits_def)
  note be = bearers_same [of Owning "mx_pc s" t, OF w(2)] and g = given_same [of Owning "mx_pc s" t, OF wo w(3)]
  have none: "n \<noteq> 0 \<Longrightarrow> \<not> owns (mx_pc s n) \<and> \<not> given (mx_pc s) (mx_done s) n" for n
    using mutex_invD(2) [OF inv] free by (auto simp: owner_ok_def)
  have "nodes_ok ?s" using mutex_invD(1) [OF inv] be wo by (auto simp: nodes_ok_def)
  moreover have "owner_ok ?s" using mutex_invD(2) [OF inv] none g t free by (auto simp: owner_ok_def owns_def [of Owning])
  moreover have "lock_ok ?s" using mutex_invD(3) [OF inv] free pc by (auto simp: lock_ok_def)
  moreover have "class_ok ?s" using mutex_invD(4) [OF inv] free pc by (auto simp: class_ok_def)
  ultimately show ?thesis by (simp add: mutex_inv_def)
qed

lemma inv_slow:
  assumes inv: "mutex_inv s" and t: "t \<noteq> 0" and busy: "mx_owner s \<noteq> 0" and pc: "mx_pc s t = LockSlow" and lock: "mx_held s = None"
  shows "mutex_inv (s\<lparr>mx_held := Some t, mx_pc := (mx_pc s)(t := LockPush (mx_owner s))\<rparr>)"
proof -
  let ?pc = "LockPush (mx_owner s)" and ?s = "s\<lparr>mx_held := Some t, mx_pc := (mx_pc s)(t := LockPush (mx_owner s))\<rparr>"
  have w: "waits ?pc = waits (mx_pc s t)" "\<And>n. bears ?pc n = bears (mx_pc s t) n" "\<And>n. passed ?pc n = passed (mx_pc s t) n" "\<not> owns (mx_pc s t)" "\<not> owns ?pc"
    using pc by (auto simp: waits_def bears_def passed_def owns_def)
  note be = bearers_same [of ?pc "mx_pc s" t, OF w(2)] and g = given_same [of ?pc "mx_pc s" t, OF w(1,3)]
  have ne: "mx_owner s \<noteq> t" using mutex_invD(2) [OF inv] t w(4) pc by (auto simp: owner_ok_def given_def waits_def)
  have "nodes_ok ?s" using mutex_invD(1) [OF inv] be w(1) by (auto simp: nodes_ok_def)
  moreover have "owner_ok ?s" using mutex_invD(2) [OF inv] g t w(4,5) by (auto simp: owner_ok_def)
  moreover have "lock_ok ?s" using mutex_invD(3) [OF inv] lock ne busy by (auto simp: lock_ok_def)
  moreover have "class_ok ?s" using mutex_invD(4) [OF inv] pc by (auto simp: class_ok_def)
  ultimately show ?thesis by (simp add: mutex_inv_def)
qed

lemma inv_push:
  assumes inv: "mutex_inv s" and t: "t \<noteq> 0" and pc: "mx_pc s t = LockPush x"
  shows "mutex_inv (s\<lparr>mx_class := llam_mutex_donate_priority x t (mx_class s), mx_waiters := mx_waiters s @ [t], mx_held := None,
     mx_pc := (mx_pc s)(t := LockWaiting)\<rparr>)" (is "mutex_inv ?s")
proof -
  have w: "\<not> waits (mx_pc s t)" "\<And>n. bears LockWaiting n = bears (mx_pc s t) n" "\<not> owns (mx_pc s t)" "\<not> owns LockWaiting" "waits LockWaiting"
      "\<And>u n. passed (((mx_pc s)(t := LockWaiting)) u) n = passed (mx_pc s u) n"
    using pc by (auto simp: waits_def bears_def passed_def owns_def)
  note be = bearers_same [of LockWaiting "mx_pc s" t, OF w(2)]
  have ph: "\<And>n. phase_ok (waits (mx_pc s n)) (n \<in> set (mx_waiters s)) (mx_done s n) (bearers (mx_pc s) (mx_resolver s) n)"
    using mutex_invD(1) [OF inv] by (simp add: nodes_ok_def)
  have t0: "t \<notin> set (mx_waiters s)" "mx_done s t = None" "bearers (mx_pc s) (mx_resolver s) t = {}"
    using ph [of t] w(1) by (auto simp: phase_not_waiting)
  have x: "mx_owner s = x" "x \<noteq> 0" "x \<noteq> t" using mutex_invD(3) [OF inv] pc by (auto simp: lock_ok_def)
  have np: "\<not> passed (mx_pc s u) t" for u using t0(3) by (auto simp: bearers_def passed_def bears_def)
  have "nodes_ok ?s"
  proof (rule nodes_okI)
    show "phase_ok (waits (mx_pc ?s n)) (n \<in> set (mx_waiters ?s)) (mx_done ?s n) (bearers (mx_pc ?s) (mx_resolver ?s) n)" for n
      using ph [of n] be t0 w(5) by (cases "n = t") (simp_all add: phase_ok_def)
  qed (use mutex_invD(1) [OF inv] t0(1) in \<open>auto simp: nodes_ok_def\<close>)
  moreover have "owner_ok ?s" using mutex_invD(2) [OF inv] t w(3,4,6) x np t0(2) by (auto simp: owner_ok_def given_def)
  moreover have "lock_ok ?s"
  proof -
    have h: "mx_held s = Some t" using mutex_invD(3) [OF inv] pc by (auto simp: lock_ok_def)
    then have "u = t" if "mx_pc s u = LockPush y \<or> mx_pc s u = UnlockStore y" for u y
      using mutex_invD(3) [OF inv] that by (metis lock_ok_def option.inject)
    then show ?thesis using mutex_invD(3) [OF inv] by (auto simp: lock_ok_def)
  qed
  moreover have "class_ok ?s" using mutex_invD(4) [OF inv] pc x by (auto simp: class_ok_def llam_mutex_donate_priority_def)
  ultimately show ?thesis by (simp add: mutex_inv_def)
qed

lemma not_passed: "bearers f r n = {} \<Longrightarrow> \<not> passed (f u) n"
  by (auto simp: bearers_def passed_def bears_def)

lemma inv_resume:
  assumes inv: "mutex_inv s" and t: "t \<noteq> 0" and pc: "mx_pc s t = LockWaiting" and rc: "mx_done s t = Some rc"
  shows "mutex_inv (s\<lparr>mx_done := (mx_done s)(t := None), mx_pc := (mx_pc s)(t := if rc = E_OK then Owning else Outside)\<rparr>)"
proof -
  define q where "q = (if rc = E_OK then Owning else Outside)"
  let ?pc = q and ?s = "s\<lparr>mx_done := (mx_done s)(t := None), mx_pc := (mx_pc s)(t := q)\<rparr>"
  have w: "waits (mx_pc s t)" "\<not> waits ?pc" "\<And>n. bears ?pc n = bears (mx_pc s t) n" "\<And>n. \<not> passed ?pc n" "\<And>n. \<not> passed (mx_pc s t) n"
      "owns ?pc \<longleftrightarrow> rc = E_OK" "\<not> owns (mx_pc s t)"
    using pc by (auto simp: waits_def bears_def passed_def owns_def q_def)
  note be = bearers_same [of ?pc "mx_pc s" t, OF w(3)]
  note ph = nodes_okD [OF mutex_invD(1) [OF inv]]
  have t0: "t \<notin> set (mx_waiters s)" "bearers (mx_pc s) (mx_resolver s) t = {}" using ph [of t] w(1) rc by (auto simp: phase_ok_def split: if_splits)
  note np = not_passed [OF t0(2)]
  have g: "given ((mx_pc s)(t := ?pc)) ((mx_done s)(t := None)) n = (n \<noteq> t \<and> given (mx_pc s) (mx_done s) n)" for n
    by (rule given_left [of _ "mx_pc s" t, OF w(2,4,5)]) simp
  have gt: "given (mx_pc s) (mx_done s) t \<longleftrightarrow> rc = E_OK" using w(1) rc np by (auto simp: given_def)
  have "nodes_ok ?s"
  proof (rule nodes_okI)
    show "phase_ok (waits (mx_pc ?s n)) (n \<in> set (mx_waiters ?s)) (mx_done ?s n) (bearers (mx_pc ?s) (mx_resolver ?s) n)" for n
      using ph [of n] be t0 w(2) by (cases "n = t") (simp_all add: phase_ok_def)
  qed (use mutex_invD(1) [OF inv] in \<open>auto simp: nodes_ok_def\<close>)
  moreover have "owner_ok ?s" using mutex_invD(2) [OF inv] t w(6,7) gt by (simp add: owner_ok_def g)
  moreover have "lock_ok ?s" using mutex_invD(3) [OF inv] pc by (auto simp: lock_ok_def q_def)
  moreover have "class_ok ?s" using mutex_invD(4) [OF inv] pc by (auto simp: class_ok_def)
  ultimately show ?thesis by (simp add: mutex_inv_def q_def)
qed

lemma inv_quit:
  assumes inv: "mutex_inv s" and t: "t \<noteq> 0" and pc: "mx_pc s t = LockQuit e" and q: "t \<in> set (mx_waiters s)"
  shows "mutex_inv (s\<lparr>mx_waiters := remove1 t (mx_waiters s), mx_pc := (mx_pc s)(t := Outside)\<rparr>)" (is "mutex_inv ?s")
proof -
  have w: "waits (mx_pc s t)" "\<not> waits Outside" "\<And>n. bears Outside n = bears (mx_pc s t) n" "\<And>n. \<not> passed Outside n" "\<And>n. \<not> passed (mx_pc s t) n"
      "\<not> owns Outside" "\<not> owns (mx_pc s t)"
    using pc by (auto simp: waits_def bears_def passed_def owns_def)
  note be = bearers_same [of Outside "mx_pc s" t, OF w(3)]
  note ph = nodes_okD [OF mutex_invD(1) [OF inv]]
  have d: "distinct (mx_waiters s)" using mutex_invD(1) [OF inv] by (simp add: nodes_ok_def)
  have t0: "mx_done s t = None" "bearers (mx_pc s) (mx_resolver s) t = {}" using ph [of t] q by (auto simp: phase_ok_def)
  note np = not_passed [OF t0(2)]
  have g: "given ((mx_pc s)(t := Outside)) (mx_done s) n = (n \<noteq> t \<and> given (mx_pc s) (mx_done s) n)" for n
    by (rule given_left [of _ "mx_pc s" t, OF w(2,4,5)]) simp
  have gt: "\<not> given (mx_pc s) (mx_done s) t" using t0 np by (auto simp: given_def)
  have "nodes_ok ?s"
  proof (rule nodes_okI)
    show "phase_ok (waits (mx_pc ?s n)) (n \<in> set (mx_waiters ?s)) (mx_done ?s n) (bearers (mx_pc ?s) (mx_resolver ?s) n)" for n
      using ph [of n] be t0 w(2) d by (cases "n = t") (simp_all add: phase_ok_def)
  qed (use mutex_invD(1) [OF inv] in \<open>auto simp: nodes_ok_def\<close>)
  moreover have "owner_ok ?s" using mutex_invD(2) [OF inv] t w(6,7) g gt by (auto simp: owner_ok_def)
  moreover have "lock_ok ?s" using mutex_invD(3) [OF inv] pc by (auto simp: lock_ok_def)
  moreover have "class_ok ?s" using mutex_invD(4) [OF inv] pc by (auto simp: class_ok_def)
  ultimately show ?thesis by (simp add: mutex_inv_def)
qed

lemma inv_pop_none:
  assumes inv: "mutex_inv s" and t: "t \<noteq> 0" and pc: "mx_pc s t = UnlockPop" and ws: "mx_waiters s = []" and lock: "mx_held s = None"
  shows "mutex_inv (s\<lparr>mx_held := Some t, mx_pc := (mx_pc s)(t := UnlockStore 0)\<rparr>)" (is "mutex_inv ?s")
proof -
  have w: "waits (UnlockStore 0) = waits (mx_pc s t)" "\<And>n. bears (UnlockStore 0) n = bears (mx_pc s t) n" "\<And>n. passed (UnlockStore 0) n = passed (mx_pc s t) n"
      "owns (UnlockStore 0) = owns (mx_pc s t)"
    using pc by (auto simp: waits_def bears_def passed_def owns_def)
  note be = bearers_same [of "UnlockStore 0" "mx_pc s" t, OF w(2)] and g = given_same [of "UnlockStore 0" "mx_pc s" t, OF w(1,3)]
  have "nodes_ok ?s" using mutex_invD(1) [OF inv] be w(1) by (auto simp: nodes_ok_def)
  moreover have "owner_ok ?s" using mutex_invD(2) [OF inv] g t w(4) by (auto simp: owner_ok_def)
  moreover have "lock_ok ?s" using mutex_invD(3) [OF inv] lock ws by (auto simp: lock_ok_def)
  moreover have "class_ok ?s" using mutex_invD(4) [OF inv] pc by (auto simp: class_ok_def)
  ultimately show ?thesis by (simp add: mutex_inv_def)
qed

lemma inv_pop_some:
  assumes inv: "mutex_inv s" and t: "t \<noteq> 0" and pc: "mx_pc s t = UnlockPop" and ws: "mx_waiters s = n # ns" and lock: "mx_held s = None"
  shows "mutex_inv (s\<lparr>mx_waiters := ns, mx_held := Some t, mx_pc := (mx_pc s)(t := UnlockStore n)\<rparr>)" (is "mutex_inv ?s")
proof -
  let ?pc = "UnlockStore n"
  note ph = nodes_okD [OF mutex_invD(1) [OF inv]]
  have d: "distinct (n # ns)" using mutex_invD(1) [OF inv] ws by (simp add: nodes_ok_def)
  have n0: "waits (mx_pc s n)" "mx_done s n = None" "bearers (mx_pc s) (mx_resolver s) n = {}" using ph [of n] ws by (auto simp: phase_ok_def)
  have nz: "n \<noteq> 0" "n \<noteq> t" using n0(1) mutex_invD(2) [OF inv] pc by (auto simp: owner_ok_def waits_def)
  have w: "waits ?pc = waits (mx_pc s t)" "\<And>m. passed ?pc m = passed (mx_pc s t) m" "owns ?pc = owns (mx_pc s t)"
      "\<And>m. bears ?pc m \<longleftrightarrow> m = n" "Inl t \<notin> bearers (mx_pc s) (mx_resolver s) m" for m
    using pc nz(1) by (auto simp: waits_def bears_def passed_def owns_def bearers_def)
  note g = given_same [of ?pc "mx_pc s" t, OF w(1,2)]
  have ot: "mx_owner s = t" using mutex_invD(2) [OF inv] t pc by (auto simp: owner_ok_def owns_def)
  have "nodes_ok ?s"
  proof (rule nodes_okI)
    show "phase_ok (waits (mx_pc ?s m)) (m \<in> set (mx_waiters ?s)) (mx_done ?s m) (bearers (mx_pc ?s) (mx_resolver ?s) m)" for m
    proof (cases "m = n")
      case True
      then show ?thesis using n0 nz d by (auto simp: phase_ok_def bearers_task w(4))
    next
      case False
      have "waits (mx_pc ?s m) = waits (mx_pc s m)" using w(1) by auto
      then show ?thesis using ph [of m] ws False w(5) [of m] by (simp add: bearers_task w(4))
    qed
  qed (use mutex_invD(1) [OF inv] d in \<open>auto simp: nodes_ok_def\<close>)
  moreover have "owner_ok ?s" using mutex_invD(2) [OF inv] g t w(3) ot by (auto simp: owner_ok_def)
  moreover have "lock_ok ?s" using mutex_invD(3) [OF inv] lock nz by (auto simp: lock_ok_def)
  moreover have "class_ok ?s" using mutex_invD(4) [OF inv] pc by (auto simp: class_ok_def)
  ultimately show ?thesis by (simp add: mutex_inv_def)
qed

lemma inv_store:
  assumes inv: "mutex_inv s" and t: "t \<noteq> 0" and pc: "mx_pc s t = UnlockStore n"
  shows "mutex_inv (s\<lparr>mx_owner := n, mx_held := None, mx_pc := (mx_pc s)(t := UnlockRestore n)\<rparr>)" (is "mutex_inv ?s")
proof -
  let ?pc = "UnlockRestore n"
  note ph = nodes_okD [OF mutex_invD(1) [OF inv]]
  have w: "waits ?pc = waits (mx_pc s t)" "\<And>m. bears ?pc m = bears (mx_pc s t) m" "owns (mx_pc s t)" "\<not> owns ?pc" "\<not> waits (mx_pc s t)"
      "\<And>m. \<not> passed (mx_pc s t) m" "\<And>m. passed ?pc m \<longleftrightarrow> m = n \<and> n \<noteq> 0"
    using pc by (auto simp: waits_def bears_def passed_def owns_def)
  note be = bearers_same [of ?pc "mx_pc s" t, OF w(2)]
  have ot: "mx_owner s = t" using mutex_invD(2) [OF inv] t w(3) by (auto simp: owner_ok_def)
  have others: "m \<noteq> 0 \<Longrightarrow> m \<noteq> t \<Longrightarrow> \<not> owns (mx_pc s m) \<and> \<not> given (mx_pc s) (mx_done s) m" for m
    using mutex_invD(2) [OF inv] ot by (auto simp: owner_ok_def)
  have nw: "waits (mx_pc s n)" "n \<noteq> t" if "n \<noteq> 0"
  proof -
    have "Inl t \<in> bearers (mx_pc s) (mx_resolver s) n" using pc that by (auto simp: bearers_def bears_def)
    from phase_bearer [OF ph this] show "waits (mx_pc s n)" by simp
    then show "n \<noteq> t" using w(5) by auto
  qed
  have g: "given (mx_pc ?s) (mx_done ?s) m = (m \<noteq> 0 \<and> m = n)" if "m \<noteq> 0" for m
  proof (cases "m = n")
    case True
    have "passed (mx_pc ?s t) n" using that True w(7) by simp
    then show ?thesis using nw that True by (auto simp: given_def)
  next
    case False
    have "(\<exists>u. passed (mx_pc ?s u) m) = (\<exists>u. passed (mx_pc s u) m)" using w(6,7) False by (auto simp: fun_upd_def) metis
    then have "given (mx_pc ?s) (mx_done ?s) m \<longleftrightarrow> given (mx_pc s) (mx_done s) m \<and> m \<noteq> t" using w(1,5) by (auto simp: given_def)
    then show ?thesis using others [OF that] False by auto
  qed
  have free: "mx_waiters s = []" if "n = 0" using mutex_invD(3) [OF inv] pc that by (auto simp: lock_ok_def)
  have "nodes_ok ?s" using mutex_invD(1) [OF inv] be w(1) by (auto simp: nodes_ok_def)
  moreover have "owner_ok ?s" using mutex_invD(2) [OF inv] t w(4) g others nw free by (auto simp: owner_ok_def)
  moreover have "lock_ok ?s"
  proof -
    have "mx_held s = Some t" using mutex_invD(3) [OF inv] pc by (auto simp: lock_ok_def)
    then have "u = t" if "mx_pc s u = LockPush y \<or> mx_pc s u = UnlockStore y" for u y
      using mutex_invD(3) [OF inv] that by (metis lock_ok_def option.inject)
    then show ?thesis using mutex_invD(3) [OF inv] by (auto simp: lock_ok_def)
  qed
  moreover have "class_ok ?s" using mutex_invD(4) [OF inv] ot by (auto simp: class_ok_def)
  ultimately show ?thesis by (simp add: mutex_inv_def)
qed

lemma inv_restore:
  assumes inv: "mutex_inv s" and t: "t \<noteq> 0" and pc: "mx_pc s t = UnlockRestore n"
  shows "mutex_inv (s\<lparr>mx_class := (mx_class s)(t := mx_base s t), mx_pc := (mx_pc s)(t := if n = 0 then Outside else UnlockWake n)\<rparr>)"
proof -
  define q where "q = (if n = 0 then Outside else UnlockWake n)"
  let ?pc = q and ?s = "s\<lparr>mx_class := (mx_class s)(t := mx_base s t), mx_pc := (mx_pc s)(t := q)\<rparr>"
  have w: "waits ?pc = waits (mx_pc s t)" "\<And>m. bears ?pc m = bears (mx_pc s t) m" "\<And>m. passed ?pc m = passed (mx_pc s t) m"
      "\<not> owns (mx_pc s t)" "\<not> owns ?pc"
    using pc by (auto simp: waits_def bears_def passed_def owns_def q_def)
  note be = bearers_same [of ?pc "mx_pc s" t, OF w(2)] and g = given_same [of ?pc "mx_pc s" t, OF w(1,3)]
  have "nodes_ok ?s" using mutex_invD(1) [OF inv] be w(1) by (auto simp: nodes_ok_def)
  moreover have "owner_ok ?s" using mutex_invD(2) [OF inv] g t w(4,5) by (auto simp: owner_ok_def)
  moreover have "lock_ok ?s" using mutex_invD(3) [OF inv] pc by (auto simp: lock_ok_def q_def)
  moreover have "class_ok ?s" using mutex_invD(4) [OF inv] by (auto simp: class_ok_def)
  ultimately show ?thesis by (simp add: mutex_inv_def q_def)
qed

text \<open>Completing a node: the bearer gives it up and its task will find the result.\<close>

lemma inv_complete:
  assumes inv: "mutex_inv s" and b: "a \<in> bearers (mx_pc s) (mx_resolver s) n" and be: "\<And>m. bearers f r m = bearers (mx_pc s) (mx_resolver s) m - {a}"
    and same: "\<And>m. waits (f m) = waits (mx_pc s m)" "\<And>m. owns (f m) = owns (mx_pc s m)" "f 0 = Outside"
    and p: "\<And>m. m \<noteq> n \<Longrightarrow> (\<exists>u. passed (f u) m) = (\<exists>u. passed (mx_pc s u) m)"
    and g: "(rc = E_OK) = (\<exists>u. passed (mx_pc s u) n)"
    and lk: "\<And>u x. f u = LockPush x \<longleftrightarrow> mx_pc s u = LockPush x" "\<And>u x. f u = UnlockStore x \<longleftrightarrow> mx_pc s u = UnlockStore x"
      "\<And>u x. f u = UnlockWake x \<Longrightarrow> mx_pc s u = UnlockWake x" "\<And>u x. f u = UnlockRestore x \<longleftrightarrow> mx_pc s u = UnlockRestore x"
    and res: "\<And>j t e. r j = ResolverRemove t e \<or> r j = ResolverWake t e \<Longrightarrow> e \<noteq> E_OK"
  shows "mutex_inv (s\<lparr>mx_done := (mx_done s)(n := Some rc), mx_pc := f, mx_resolver := r\<rparr>)" (is "mutex_inv ?s")
proof -
  note ph = nodes_okD [OF mutex_invD(1) [OF inv]]
  have n0: "waits (mx_pc s n)" "n \<notin> set (mx_waiters s)" "mx_done s n = None" "bearers (mx_pc s) (mx_resolver s) n = {a}"
    using phase_bearer [OF ph b] by auto
  have "bearers f r n = {}" using be [of n] n0(4) by simp
  note np = not_passed [OF this]
  have gv: "given f ((mx_done s)(n := Some rc)) m = given (mx_pc s) (mx_done s) m" for m
  proof (cases "m = n")
    case True
    then show ?thesis using np same(1) n0(1,3) g by (auto simp: given_def)
  next
    case False
    then show ?thesis using p [OF False] same(1) by (simp add: given_def)
  qed
  have sub: "a \<notin> bearers (mx_pc s) (mx_resolver s) m" if "m \<noteq> n" for m using b that by (auto simp: bearers_def bears_def)
  have "nodes_ok ?s"
  proof (rule nodes_okI)
    show "phase_ok (waits (mx_pc ?s m)) (m \<in> set (mx_waiters ?s)) (mx_done ?s m) (bearers (mx_pc ?s) (mx_resolver ?s) m)" for m
      using ph [of m] n0 be [of m] same(1) [of m] sub [of m] by (cases "m = n") (simp_all add: phase_ok_def)
    show "distinct (mx_waiters ?s)" using mutex_invD(1) [OF inv] by (simp add: nodes_ok_def)
    show "e \<noteq> E_OK" if "mx_resolver ?s j = ResolverRemove t e \<or> mx_resolver ?s j = ResolverWake t e" for j t e
      using that res by simp
  qed
  moreover have "owner_ok ?s" using mutex_invD(2) [OF inv] gv same(2,3) by (auto simp: owner_ok_def)
  moreover have "f u \<noteq> UnlockWake 0" for u using mutex_invD(3) [OF inv] lk(3) unfolding lock_ok_def by blast
  then have "lock_ok ?s" using mutex_invD(3) [OF inv] by (simp add: lock_ok_def lk(1,2))
  moreover have "class_ok ?s" using mutex_invD(4) [OF inv] lk(4) by (auto simp: class_ok_def)
  ultimately show ?thesis by (simp add: mutex_inv_def)
qed

lemma inv_wake:
  assumes inv: "mutex_inv s" and t: "t \<noteq> 0" and pc: "mx_pc s t = UnlockWake n"
  shows "mutex_inv (s\<lparr>mx_done := (mx_done s)(n := Some E_OK), mx_pc := (mx_pc s)(t := Outside)\<rparr>)"
proof -
  have n: "n \<noteq> 0" using mutex_invD(3) [OF inv] pc by (auto simp: lock_ok_def)
  have "mutex_inv (s\<lparr>mx_done := (mx_done s)(n := Some E_OK), mx_pc := (mx_pc s)(t := Outside), mx_resolver := mx_resolver s\<rparr>)"
  proof (rule inv_complete [OF inv, where a = "Inl t"])
    show "Inl t \<in> bearers (mx_pc s) (mx_resolver s) n" using pc n by (simp add: bearers_def bears_def image_iff)
    show "bearers ((mx_pc s)(t := Outside)) (mx_resolver s) m = bearers (mx_pc s) (mx_resolver s) m - {Inl t}" for m
      by (simp add: bearers_task bears_def)
    show "(\<exists>u. passed (((mx_pc s)(t := Outside)) u) m) = (\<exists>u. passed (mx_pc s u) m)" if "m \<noteq> n" for m
    proof -
      have "\<not> passed Outside m" "\<not> passed (mx_pc s t) m" using pc that by (simp_all add: passed_def)
      then show ?thesis by (metis fun_upd_apply)
    qed
    show "(E_OK = E_OK) = (\<exists>u. passed (mx_pc s u) n)" using pc n by (auto simp: passed_def)
    show "((mx_pc s)(t := Outside)) 0 = Outside" using mutex_invD(2) [OF inv] by (simp add: owner_ok_def)
    show "e \<noteq> E_OK" if "mx_resolver s j = ResolverRemove t e \<or> mx_resolver s j = ResolverWake t e" for j t e
      using that mutex_invD(1) [OF inv] by (auto simp: nodes_ok_def)
  qed (use pc in \<open>auto simp: waits_def owns_def split: if_splits\<close>)
  then show ?thesis by simp
qed

lemma inv_resolver_wake:
  assumes inv: "mutex_inv s" and pc: "mx_resolver s j = ResolverWake n e"
  shows "mutex_inv (s\<lparr>mx_done := (mx_done s)(n := Some e), mx_resolver := (mx_resolver s)(j := ResolverIdle)\<rparr>)"
proof -
  have b: "Inr j \<in> bearers (mx_pc s) (mx_resolver s) n" using pc by (simp add: bearers_def image_iff)
  have e: "e \<noteq> E_OK" using mutex_invD(1) [OF inv] pc by (auto simp: nodes_ok_def)
  have "bearers (mx_pc s) (mx_resolver s) n = {Inr j}" using phase_bearer [OF nodes_okD [OF mutex_invD(1) [OF inv]] b] by simp
  then have np: "\<not> passed (mx_pc s u) n" for u by (auto simp: bearers_def bears_def passed_def image_iff)
  have "mutex_inv (s\<lparr>mx_done := (mx_done s)(n := Some e), mx_pc := mx_pc s, mx_resolver := (mx_resolver s)(j := ResolverIdle)\<rparr>)"
  proof (rule inv_complete [OF inv b])
    show "bearers (mx_pc s) ((mx_resolver s)(j := ResolverIdle)) m = bearers (mx_pc s) (mx_resolver s) m - {Inr j}" for m
      by (simp add: bearers_resolver)
    show "(e = E_OK) = (\<exists>u. passed (mx_pc s u) n)" using e np by simp
    show "mx_pc s 0 = Outside" using mutex_invD(2) [OF inv] by (simp add: owner_ok_def)
    show "e' \<noteq> E_OK" if "((mx_resolver s)(j := ResolverIdle)) i = ResolverRemove t e' \<or> ((mx_resolver s)(j := ResolverIdle)) i = ResolverWake t e'" for i t e'
      using that mutex_invD(1) [OF inv] by (auto simp: nodes_ok_def split: if_splits)
  qed simp_all
  then show ?thesis by simp
qed

text \<open>A timer that takes a waiter off the queue becomes the bearer of its completion.\<close>

lemma inv_resolver_remove:
  assumes inv: "mutex_inv s" and pc: "mx_resolver s j = ResolverRemove n e" and q: "n \<in> set (mx_waiters s)"
  shows "mutex_inv (s\<lparr>mx_waiters := remove1 n (mx_waiters s), mx_resolver := (mx_resolver s)(j := ResolverWake n e)\<rparr>)" (is "mutex_inv ?s")
proof -
  note ph = nodes_okD [OF mutex_invD(1) [OF inv]]
  have d: "distinct (mx_waiters s)" and e: "e \<noteq> E_OK" using mutex_invD(1) [OF inv] pc by (auto simp: nodes_ok_def)
  have n0: "waits (mx_pc s n)" "mx_done s n = None" "bearers (mx_pc s) (mx_resolver s) n = {}" using ph [of n] q by (auto simp: phase_ok_def)
  have nb: "Inr j \<notin> bearers (mx_pc s) (mx_resolver s) m" for m using pc by (auto simp: bearers_def)
  have "nodes_ok ?s"
  proof (rule nodes_okI)
    show "phase_ok (waits (mx_pc ?s m)) (m \<in> set (mx_waiters ?s)) (mx_done ?s m) (bearers (mx_pc ?s) (mx_resolver ?s) m)" for m
      using ph [of m] n0 nb [of m] d q by (cases "m = n") (simp_all add: phase_ok_def bearers_resolver)
    show "distinct (mx_waiters ?s)" using d by simp
    show "e' \<noteq> E_OK" if "mx_resolver ?s i = ResolverRemove t e' \<or> mx_resolver ?s i = ResolverWake t e'" for i t e'
      using that e mutex_invD(1) [OF inv] by (auto simp: nodes_ok_def split: if_splits)
  qed
  moreover have "owner_ok ?s" using mutex_invD(2) [OF inv] q by (auto simp: owner_ok_def)
  moreover have "lock_ok ?s" using mutex_invD(3) [OF inv] by (auto simp: lock_ok_def)
  moreover have "class_ok ?s" using mutex_invD(4) [OF inv] by (auto simp: class_ok_def)
  ultimately show ?thesis by (simp add: mutex_inv_def)
qed

lemma inv_resolver_idle:
  assumes inv: "mutex_inv s" and pc: "\<And>n e. mx_resolver s j \<noteq> ResolverWake n e" "\<And>n e. pc \<noteq> ResolverWake n e" and e: "\<And>n. pc \<noteq> ResolverRemove n E_OK"
  shows "mutex_inv (s\<lparr>mx_resolver := (mx_resolver s)(j := pc)\<rparr>)" (is "mutex_inv ?s")
proof -
  have be: "bearers (mx_pc s) ((mx_resolver s)(j := pc)) n = bearers (mx_pc s) (mx_resolver s) n" for n
  proof -
    have "Inr j \<notin> bearers (mx_pc s) (mx_resolver s) n" using pc(1) by (auto simp: bearers_def)
    then show ?thesis using pc(2) by (simp add: bearers_resolver)
  qed
  have "nodes_ok ?s"
  proof (rule nodes_okI)
    show "phase_ok (waits (mx_pc ?s m)) (m \<in> set (mx_waiters ?s)) (mx_done ?s m) (bearers (mx_pc ?s) (mx_resolver ?s) m)" for m
      using nodes_okD [OF mutex_invD(1) [OF inv]] be by simp
    show "distinct (mx_waiters ?s)" using mutex_invD(1) [OF inv] by (simp add: nodes_ok_def)
    show "e' \<noteq> E_OK" if "mx_resolver ?s i = ResolverRemove t e' \<or> mx_resolver ?s i = ResolverWake t e'" for i t e'
    proof (cases "i = j")
      case True
      then show ?thesis using that pc(2) e by auto
    next
      case False
      then show ?thesis using that mutex_invD(1) [OF inv] unfolding nodes_ok_def by simp blast
    qed
  qed
  moreover have "owner_ok ?s" using mutex_invD(2) [OF inv] by (simp add: owner_ok_def)
  moreover have "lock_ok ?s" using mutex_invD(3) [OF inv] by (simp add: lock_ok_def)
  moreover have "class_ok ?s" using mutex_invD(4) [OF inv] by (simp add: class_ok_def)
  ultimately show ?thesis by (simp add: mutex_inv_def)
qed

text \<open>Every access of a task keeps the invariant.\<close>

lemma inv_check:
  assumes "mutex_inv s" "t \<noteq> 0" "mx_pc s t = LockCall b \<or> mx_pc s t = TryCall b \<or> mx_pc s t = UnlockCall b"
    "pc \<in> {Outside, Owning, LockFast, UnlockPop}" "owns pc = b"
  shows "mutex_inv (s\<lparr>mx_pc := (mx_pc s)(t := pc)\<rparr>)"
  by (rule inv_move [OF assms(1,2)]) (use assms(3-5) in \<open>auto simp: owns_def waits_def bears_def passed_def\<close>)

lemma caller_owns:
  assumes "mutex_inv s" "t \<noteq> 0" "\<not> waits (mx_pc s t)"
  shows "mx_owner s = t \<longleftrightarrow> owns (mx_pc s t)"
  using mutex_invD(2) [OF assms(1)] assms(2,3) by (auto simp: owner_ok_def given_def)

lemma mutex_inv_access:
  assumes inv: "mutex_inv s" and t: "t \<noteq> 0" and lock: "takes_lock (mx_pc s t) \<longrightarrow> mx_held s = None"
    and acc: "mutex_access refused t (mx_pc s t) s = (r, pc, s')"
  shows "mutex_inv (s'\<lparr>mx_pc := (mx_pc s)(t := pc)\<rparr>)"
proof (cases "mx_pc s t")
  case (TryCall b)
  then show ?thesis using acc inv_acquire [OF inv t, of b] inv_check [OF inv t, of b pc]
    by (cases "mx_owner s = 0"; cases b) (auto simp: trylock_access_def owns_def)
next
  case (LockCall b)
  then have "mx_owner s = t \<longleftrightarrow> b" using caller_owns [OF inv t] by (simp add: owns_def waits_def)
  then show ?thesis using acc LockCall inv_check [OF inv t, of b pc] by (auto simp: lock_check_def owns_def split: if_splits)
next
  case (UnlockCall b)
  then have "mx_owner s = t \<longleftrightarrow> b" using caller_owns [OF inv t] by (simp add: owns_def waits_def)
  then show ?thesis using acc UnlockCall inv_check [OF inv t, of b pc] by (auto simp: unlock_check_def owns_def split: if_splits)
next
  case LockFast
  have "mutex_inv (s\<lparr>mx_pc := (mx_pc s)(t := q)\<rparr>)" if "q \<in> {Outside, LockSlow}" for q
    by (rule inv_move [OF inv t]) (use that LockFast in \<open>auto simp: owns_def waits_def bears_def passed_def\<close>)
  then show ?thesis using LockFast acc inv_acquire [OF inv t, of b] by (auto simp: lock_fast_def split: if_splits option.splits)
next
  case LockSlow
  then show ?thesis using acc lock inv_acquire [OF inv t] inv_slow [OF inv t]
    by (auto simp: lock_slow_def takes_lock_def split: if_splits)
next
  case (LockPush x)
  then show ?thesis using acc inv_push [OF inv t LockPush] by (auto simp: lock_push_def)
next
  case LockWaiting
  then show ?thesis using acc inv inv_resume [OF inv t LockWaiting] by (auto simp: lock_resume_def Let_def fun_upd_idem split: if_splits option.splits)
next
  case (LockQuit e)
  have "mutex_inv (s\<lparr>mx_pc := (mx_pc s)(t := LockWaiting)\<rparr>)"
    by (rule inv_move [OF inv t]) (use LockQuit in \<open>auto simp: owns_def waits_def bears_def passed_def\<close>)
  then show ?thesis using LockQuit acc inv_quit [OF inv t LockQuit] by (auto simp: lock_quit_def split: if_splits)
next
  case UnlockPop
  then show ?thesis using acc lock inv_pop_none [OF inv t UnlockPop] inv_pop_some [OF inv t UnlockPop]
    by (auto simp: unlock_pop_def takes_lock_def split: list.splits)
next
  case (UnlockStore n)
  then show ?thesis using acc inv_store [OF inv t UnlockStore] by (auto simp: unlock_store_def)
next
  case (UnlockRestore n)
  then show ?thesis using acc inv_restore [OF inv t UnlockRestore] by (auto simp: unlock_restore_def Let_def split: if_splits)
next
  case (UnlockWake n)
  then show ?thesis using acc inv_wake [OF inv t UnlockWake] by (auto simp: unlock_wake_def)
qed (use acc inv in \<open>auto simp: fun_upd_idem\<close>)

lemma mutex_inv_step: "mutex_step s s' \<Longrightarrow> mutex_inv s \<Longrightarrow> mutex_inv s'"
proof (induction rule: mutex_step.induct)
  case (call t s owning pc)
  then show ?case by (intro inv_move) (auto simp: owns_def waits_def bears_def passed_def)
next
  case (quit s t e)
  then have "t \<noteq> 0" by (auto simp: mutex_inv_def owner_ok_def)
  with quit show ?case by (intro inv_move) (auto simp: owns_def waits_def bears_def passed_def)
next
  case (task s t refused r pc s')
  show ?case
  proof (cases "t = 0")
    case True
    then have "mx_pc s t = Outside" using mutex_invD(2) [OF task.prems] by (simp add: owner_ok_def)
    then show ?thesis using task by (auto simp: fun_upd_idem)
  qed (rule mutex_inv_access [OF task.prems _ task.hyps])
next
  case (arm s j e t)
  then show ?case by (intro inv_resolver_idle) auto
next
  case (resolve s j pc s')
  then show ?case
    by (cases "mx_resolver s j") (auto simp: fun_upd_idem split: if_splits intro: inv_resolver_wake inv_resolver_remove inv_resolver_idle)
qed

lemma mutex_inv_reachable: "mutex_step\<^sup>*\<^sup>* (free_mutex base) s \<Longrightarrow> mutex_inv s"
  by (induction rule: rtranclp_induct) (auto intro: mutex_inv_free mutex_inv_step)

section \<open>What holds in every interleaving\<close>

text \<open>A schedule names who moves next; carrying it out is a run.\<close>

datatype mutex_move = CallMutex u64 mutex_pc | FailSetup u64 errno | TaskMove u64 "errno option" | ArmResolver nat u64 errno | ResolverMove nat

fun move_mutex :: "mutex_move \<Rightarrow> mutex_system \<Rightarrow> mutex_system option" where
  "move_mutex (CallMutex t pc) s =
     (if t \<noteq> 0 \<and> (mx_pc s t = Outside \<and> pc \<in> {TryCall False, LockCall False, UnlockCall False} \<or>
        mx_pc s t = Owning \<and> pc \<in> {TryCall True, LockCall True, UnlockCall True})
      then Some (s\<lparr>mx_pc := (mx_pc s)(t := pc)\<rparr>) else None)"
| "move_mutex (FailSetup t e) s =
     (if mx_pc s t = LockWaiting \<and> mx_done s t = None then Some (s\<lparr>mx_pc := (mx_pc s)(t := LockQuit e)\<rparr>) else None)"
| "move_mutex (TaskMove t refused) s =
     (if takes_lock (mx_pc s t) \<and> mx_held s \<noteq> None then None
      else case mutex_access refused t (mx_pc s t) s of (_, pc, s') \<Rightarrow> Some (s'\<lparr>mx_pc := (mx_pc s)(t := pc)\<rparr>))"
| "move_mutex (ArmResolver j t e) s =
     (if mx_resolver s j = ResolverIdle \<and> e \<noteq> E_OK then Some (s\<lparr>mx_resolver := (mx_resolver s)(j := ResolverRemove t e)\<rparr>) else None)"
| "move_mutex (ResolverMove j) s =
     (if mx_held s \<noteq> None then None
      else case resolver_access (mx_resolver s j) s of (pc, s') \<Rightarrow> Some (s'\<lparr>mx_resolver := (mx_resolver s)(j := pc)\<rparr>))"

fun mutex_schedule :: "mutex_move list \<Rightarrow> mutex_system \<Rightarrow> mutex_system option" where
  "mutex_schedule [] s = Some s"
| "mutex_schedule (m # ms) s = (case move_mutex m s of None \<Rightarrow> None | Some s1 \<Rightarrow> mutex_schedule ms s1)"

lemma mutex_move_step: "move_mutex m s = Some s' \<Longrightarrow> mutex_step s s'"
proof (cases m)
  case (CallMutex t pc)
  assume "move_mutex m s = Some s'"
  with CallMutex show ?thesis
    using mutex_step.call [of t s False pc] mutex_step.call [of t s True pc] by (auto split: if_splits)
next
  case (TaskMove t refused)
  assume "move_mutex m s = Some s'"
  with TaskMove show ?thesis by (auto split: prod.splits if_splits intro: mutex_step.task)
next
  case (ResolverMove j)
  assume "move_mutex m s = Some s'"
  with ResolverMove show ?thesis by (auto split: prod.splits if_splits intro: mutex_step.resolve)
qed (auto split: if_splits intro: mutex_step.quit mutex_step.arm)

lemma mutex_schedule_run: "mutex_schedule ms s = Some s' \<Longrightarrow> mutex_step\<^sup>*\<^sup>* s s'"
  by (induction ms arbitrary: s) (auto split: option.splits intro: mutex_move_step converse_rtranclp_into_rtranclp)

text \<open>
  C4. Mutual exclusion. However lock, trylock and unlock calls, timeouts, cancellations and failed set-ups of any number of tasks
  interleave, at most one task is past its lock and before the store that gives the mutex away; the owner word names it, and
  while it owns the mutex an attempt by anyone else to take the free owner word is refused.
\<close>

theorem mutex_exclusion:
  assumes "mutex_step\<^sup>*\<^sup>* (free_mutex base) s" and "owns (mx_pc s t)"
  shows "mx_owner s = t \<and> (\<forall>u. owns (mx_pc s u) \<longrightarrow> u = t) \<and>
    (\<forall>u b. trylock_access u b s = (Some (Inl EBUSY), if b then Owning else Outside, s)) \<and>
    (\<forall>u r. fst (snd (lock_fast u r s)) \<noteq> Owning) \<and> (\<forall>u. fst (snd (lock_slow u s)) \<noteq> Owning)"
proof -
  note inv = mutex_inv_reachable [OF assms(1)]
  have own: "mx_owner s = u" "u \<noteq> 0" if "owns (mx_pc s u)" for u
  proof -
    show u: "u \<noteq> 0" using mutex_invD(2) [OF inv] that by (auto simp: owner_ok_def owns_def)
    show "mx_owner s = u" using mutex_invD(2) [OF inv] that u by (auto simp: owner_ok_def)
  qed
  from own [OF assms(2)] have t: "mx_owner s = t" "t \<noteq> 0" .
  have "\<forall>u. owns (mx_pc s u) \<longrightarrow> u = t" using own(1) t(1) by blast
  then show ?thesis using t by (simp add: trylock_access_def lock_fast_def lock_slow_def split: option.splits)
qed

text \<open>Task 2 waits, task 3 times out, task 1 hands over to task 2 while task 4 tries to barge in.\<close>

definition handover :: "mutex_move list" where
  "handover = [CallMutex 1 (LockCall False), TaskMove 1 None, TaskMove 1 None,
     CallMutex 2 (LockCall False), TaskMove 2 None, TaskMove 2 None, TaskMove 2 None, TaskMove 2 None,
     CallMutex 3 (LockCall False), TaskMove 3 None, TaskMove 3 None, TaskMove 3 None, TaskMove 3 None,
     ArmResolver 0 3 ETIMEDOUT, ResolverMove 0, CallMutex 4 (LockCall False), TaskMove 4 None,
     CallMutex 1 (UnlockCall True), TaskMove 1 None, TaskMove 1 None, TaskMove 4 (Some ETIMEDOUT), TaskMove 1 None, ResolverMove 0, TaskMove 3 None,
     TaskMove 1 None, TaskMove 1 None, TaskMove 2 None]"

lemma handover_result:
  "\<exists>s. mutex_schedule handover (free_mutex (\<lambda>t. of_nat (9 - unat t))) = Some s \<and> map (mx_pc s) [1, 2, 3, 4] = [Outside, Owning, Outside, Outside] \<and> mx_owner s = 2"
  by (simp add: handover_def free_mutex_def lock_check_def lock_fast_def lock_slow_def lock_push_def lock_resume_def unlock_check_def
      unlock_pop_def unlock_store_def unlock_restore_def unlock_wake_def takes_lock_def Let_def)

theorem mutex_exclusion_witness:
  "\<exists>s. mutex_step\<^sup>*\<^sup>* (free_mutex (\<lambda>t. of_nat (9 - unat t))) s \<and> mx_owner s = 2 \<and> trylock_access 5 False s = (Some (Inl EBUSY), Outside, s)"
proof -
  obtain s where s: "mutex_schedule handover (free_mutex (\<lambda>t. of_nat (9 - unat t))) = Some s" "mx_pc s 2 = Owning"
    using handover_result by auto
  have "owns (mx_pc s 2)" using s(2) by (simp add: owns_def)
  from mutex_exclusion [OF mutex_schedule_run [OF s(1)] this] mutex_schedule_run [OF s(1)] show ?thesis by auto
qed

text \<open>
  C5. No waiter is forgotten and no priority kept. A task waiting for the mutex is in its queue, or has its completion, or there is
  exactly one unlocking task or timer that is about to complete it. A queue of waiters always has an owner that will hand over, so
  nobody waits on a free mutex. A task that neither owns the mutex nor is giving it back has its own priority class again.
\<close>

theorem mutex_waiters_served:
  assumes "mutex_step\<^sup>*\<^sup>* (free_mutex base) s" and "t \<noteq> 0"
  shows "(waits (mx_pc s t) \<longrightarrow> t \<in> set (mx_waiters s) \<or> mx_done s t \<noteq> None \<or> (\<exists>!a. a \<in> bearers (mx_pc s) (mx_resolver s) t)) \<and>
    (mx_waiters s \<noteq> [] \<longrightarrow> (\<exists>u. u \<noteq> 0 \<and> mx_owner s = u \<and> (owns (mx_pc s u) \<or> given (mx_pc s) (mx_done s) u))) \<and>
    (mx_pc s t = Outside \<longrightarrow> mx_class s t = mx_base s t \<and> t \<notin> set (mx_waiters s) \<and> mx_owner s \<noteq> t)"
proof -
  note inv = mutex_inv_reachable [OF assms(1)]
  note ph = nodes_okD [OF mutex_invD(1) [OF inv], of t]
  have "waits (mx_pc s t) \<longrightarrow> t \<in> set (mx_waiters s) \<or> mx_done s t \<noteq> None \<or> (\<exists>!a. a \<in> bearers (mx_pc s) (mx_resolver s) t)"
    using ph by (auto simp: phase_ok_def split: if_splits)
  moreover have "mx_waiters s \<noteq> [] \<longrightarrow> (\<exists>u. u \<noteq> 0 \<and> mx_owner s = u \<and> (owns (mx_pc s u) \<or> given (mx_pc s) (mx_done s) u))"
    using mutex_invD(2) [OF inv] unfolding owner_ok_def by blast
  moreover have "mx_pc s t = Outside \<longrightarrow> mx_class s t = mx_base s t \<and> t \<notin> set (mx_waiters s) \<and> mx_owner s \<noteq> t"
  proof
    assume o: "mx_pc s t = Outside"
    then have "mx_owner s \<noteq> t" using caller_owns [OF inv assms(2)] by (simp add: waits_def owns_def)
    moreover have "t \<notin> set (mx_waiters s)" using ph o by (simp add: phase_ok_def waits_def split: if_splits)
    ultimately show "mx_class s t = mx_base s t \<and> t \<notin> set (mx_waiters s) \<and> mx_owner s \<noteq> t"
      using mutex_invD(4) [OF inv] assms(2) o by (simp add: class_ok_def)
  qed
  ultimately show ?thesis by blast
qed

text \<open>After the hand-over the old owner has lost the priority that the waiters had lent to it.\<close>

theorem mutex_waiters_served_witness:
  "\<exists>s. mutex_step\<^sup>*\<^sup>* (free_mutex (\<lambda>t. of_nat (9 - unat t))) s \<and> mx_owner s = 2 \<and> mx_pc s 1 = Outside \<and> mx_class s 1 = mx_base s 1"
proof -
  obtain s where s: "mutex_schedule handover (free_mutex (\<lambda>t. of_nat (9 - unat t))) = Some s" "mx_pc s 1 = Outside" "mx_owner s = 2"
    using handover_result by auto
  from mutex_waiters_served [OF mutex_schedule_run [OF s(1)], of 1] mutex_schedule_run [OF s(1)] s show ?thesis by auto
qed

end
