(* ===== verification/Channel_Buffer.thy ===== *)
theory Channel_Buffer
  imports LLAM_Prelude
begin

text \<open>
  The channel object: its ring of pointers and its creation (\<^verbatim>\<open>core/sync/channel_lifecycle.c\<close>, the
  reset of \<^verbatim>\<open>core/sync/channel_cache.c\<close>, the ring accesses that \<^verbatim>\<open>core/sync/channel.c\<close> and the select code repeat).
  The ring has a power-of-two number of slots and may be larger than the capacity; a channel of capacity one uses slot 0 and
  leaves the cursors alone. The theory shows that creation gives an empty channel for every capacity that fits and that the ring
  is a bounded first-in first-out queue.
\<close>

section \<open>The channel\<close>

text \<open>
  A task waits on a channel with one node, or on several channels with the nodes of one select. A node is named by its task and,
  in a select, by the index of its operation. The waiter queues are lists (theory \<open>Intrusive_Queue\<close>).
\<close>

datatype waiter = PlainNode u64 | SelectNode u64 nat

fun waiter_task :: "waiter \<Rightarrow> u64" where
  "waiter_task (PlainNode t) = t"
| "waiter_task (SelectNode t i) = t"

record channel =
  ch_buffer :: "u64 list"
  ch_capacity :: u64
  ch_ring_capacity :: u64
  ch_mask :: u64
  ch_head :: u64
  ch_tail :: u64
  ch_count :: u64
  ch_inflight :: u32
  ch_closed :: bool
  ch_send_waiters :: "waiter list"
  ch_recv_waiters :: "waiter list"

text \<open>Storing at the tail and taking from the head.\<close>

definition buffer_put :: "u64 \<Rightarrow> channel \<Rightarrow> channel" where
  "buffer_put value ch =
     (let ch = (if ch_capacity ch = 1 then ch\<lparr>ch_buffer := (ch_buffer ch)[0 := value]\<rparr>
                else ch\<lparr>ch_buffer := (ch_buffer ch)[unat (ch_tail ch) := value], ch_tail := (ch_tail ch + 1) AND ch_mask ch\<rparr>)
      in ch\<lparr>ch_count := ch_count ch + 1\<rparr>)"

definition buffer_take :: "channel \<Rightarrow> u64 \<times> channel" where
  "buffer_take ch =
     (let (value, ch) = (if ch_capacity ch = 1 then (ch_buffer ch ! 0, ch)
                         else (ch_buffer ch ! unat (ch_head ch), ch\<lparr>ch_head := (ch_head ch + 1) AND ch_mask ch\<rparr>))
      in (value, ch\<lparr>ch_count := ch_count ch - 1\<rparr>))"

section \<open>Creation\<close>

text \<open>The doubling loop, with fuel for the 64 values a word can double through.\<close>

fun round_loop :: "nat \<Rightarrow> u64 \<Rightarrow> u64 \<Rightarrow> u64 option" where
  "round_loop 0 rounded capacity = None"
| "round_loop (Suc fuel) rounded capacity =
     (if rounded < capacity then if UINT64_MAX div 2 < rounded then Some 0 else round_loop fuel (push_bit 1 rounded) capacity
      else Some rounded)"

definition llam_channel_round_capacity :: "u64 \<Rightarrow> u64 option" where
  "llam_channel_round_capacity capacity =
     (if capacity = 0 then Some 0 else if UINT64_MAX div 2 + 1 < capacity then Some 0 else round_loop 64 1 capacity)"

text \<open>Taking a cached channel of capacity one into use again.\<close>

definition llam_channel_reset_for_reuse :: "channel \<Rightarrow> channel" where
  "llam_channel_reset_for_reuse ch =
     ch\<lparr>ch_buffer := (if 0 < ch_ring_capacity ch then replicate (unat (ch_ring_capacity ch)) 0 else ch_buffer ch),
        ch_mask := (if 0 < ch_ring_capacity ch then ch_ring_capacity ch - 1 else 0),
        ch_head := 0, ch_tail := 0, ch_count := 0, ch_inflight := 0, ch_closed := False, ch_send_waiters := [], ch_recv_waiters := []\<rparr>"

text \<open>
  What creation meets: the check of the owner, a cached channel that could be registered, the two allocations, the
  result of initialising the lock, and the registration.
\<close>

record create_answers =
  ca_owner :: "unit result"
  ca_cached :: "channel option"
  ca_object :: bool
  ca_buffer :: bool
  ca_lock :: errno
  ca_register :: "unit result"

definition llam_channel_create_owned :: "create_answers \<Rightarrow> u64 \<Rightarrow> channel result" where
  "llam_channel_create_owned answers capacity =
     (case ca_owner answers of Inl e \<Rightarrow> Inl e | Inr _ \<Rightarrow>
      if capacity = 0 then Inl EINVAL
      else case llam_channel_round_capacity capacity of None \<Rightarrow> Inl UNDEFINED | Some ring_capacity \<Rightarrow>
      if ring_capacity = 0 then Inl ENOMEM
      else if UINT64_MAX div 8 < ring_capacity then Inl ENOMEM
      else if capacity = 1 \<and> ca_cached answers \<noteq> None then Inr (llam_channel_reset_for_reuse (the (ca_cached answers)))
      else if \<not> ca_object answers \<or> \<not> ca_buffer answers then Inl ENOMEM
      else if ca_lock answers \<noteq> E_OK then Inl (ca_lock answers)
      else case ca_register answers of Inl e \<Rightarrow> Inl e | Inr _ \<Rightarrow>
        Inr \<lparr>ch_buffer = replicate (unat ring_capacity) 0, ch_capacity = capacity, ch_ring_capacity = ring_capacity,
             ch_mask = ring_capacity - 1, ch_head = 0, ch_tail = 0, ch_count = 0, ch_inflight = 0, ch_closed = False,
             ch_send_waiters = [], ch_recv_waiters = []\<rparr>)"

section \<open>The ring is a bounded queue\<close>

definition contents :: "channel \<Rightarrow> u64 list" where
  "contents ch = window (ch_buffer ch) (unat (ch_ring_capacity ch)) (unat (ch_head ch)) (unat (ch_count ch))"

definition ring_ok :: "channel \<Rightarrow> bool" where
  "ring_ok ch \<longleftrightarrow> (\<exists>k < 64. ch_mask ch = mask k \<and> unat (ch_ring_capacity ch) = 2 ^ k \<and> length (ch_buffer ch) = 2 ^ k \<and>
     unat (ch_capacity ch) \<le> 2 ^ k \<and> (ch_capacity ch = 1 \<longrightarrow> k = 0) \<and> unat (ch_head ch) < 2 ^ k \<and>
     unat (ch_tail ch) = (unat (ch_head ch) + unat (ch_count ch)) mod 2 ^ k) \<and> 0 < ch_capacity ch \<and> ch_count ch \<le> ch_capacity ch"

lemma length_contents [simp]: "length (contents ch) = unat (ch_count ch)"
  by (simp add: contents_def)

lemma cursor_next:
  fixes c :: u64
  assumes "unat c < 2 ^ k" "k < 64"
  shows "unat ((c + 1) AND mask k) = Suc (unat c) mod 2 ^ k"
proof -
  have "(2 :: nat) ^ k \<le> 2 ^ 63" using assms(2) by (intro power_increasing) auto
  then have "c \<noteq> - 1" using assms(1) by (auto simp: unsigned_minus_1_eq_mask mask_eq_exp_minus_1)
  then have "unat (c + 1) = Suc (unat c)" by (rule unat_Suc_no_wrap)
  then show ?thesis by (simp only: unat_and_mask_mod)
qed

lemma buffer_put_fields [simp]:
  "ch_capacity (buffer_put v ch) = ch_capacity ch" "ch_closed (buffer_put v ch) = ch_closed ch"
  "ch_send_waiters (buffer_put v ch) = ch_send_waiters ch" "ch_recv_waiters (buffer_put v ch) = ch_recv_waiters ch"
  "ch_count (buffer_put v ch) = ch_count ch + 1" "ch_inflight (buffer_put v ch) = ch_inflight ch"
  by (simp_all add: buffer_put_def Let_def)

lemma buffer_take_fields [simp]:
  "ch_capacity (snd (buffer_take ch)) = ch_capacity ch" "ch_closed (snd (buffer_take ch)) = ch_closed ch"
  "ch_send_waiters (snd (buffer_take ch)) = ch_send_waiters ch" "ch_recv_waiters (snd (buffer_take ch)) = ch_recv_waiters ch"
  "ch_count (snd (buffer_take ch)) = ch_count ch - 1" "ch_inflight (snd (buffer_take ch)) = ch_inflight ch"
  by (simp_all add: buffer_take_def Let_def split_beta)

lemma put_ring:
  assumes "ring_ok ch" "ch_count ch < ch_capacity ch"
  shows "ring_ok (buffer_put v ch)" "contents (buffer_put v ch) = contents ch @ [v]"
proof -
  from assms(1) obtain k where k: "k < 64" "ch_mask ch = mask k" "unat (ch_ring_capacity ch) = 2 ^ k" "length (ch_buffer ch) = 2 ^ k"
      "unat (ch_capacity ch) \<le> 2 ^ k" "ch_capacity ch = 1 \<longrightarrow> k = 0" "unat (ch_head ch) < 2 ^ k"
      "unat (ch_tail ch) = (unat (ch_head ch) + unat (ch_count ch)) mod 2 ^ k" "0 < ch_capacity ch"
    unfolding ring_ok_def by auto
  have c: "unat (ch_count ch + 1) = Suc (unat (ch_count ch))" by (rule unat_Suc_less [OF assms(2)])
  have le: "ch_count ch + 1 \<le> ch_capacity ch" using assms(2) c by (simp add: word_le_nat_alt word_less_nat_alt)
  have room: "unat (ch_count ch) < 2 ^ k" using assms(2) k(5) by (simp add: word_less_nat_alt)
  have t: "unat (ch_tail ch) < 2 ^ k" using k(8) by simp
  have nt: "unat ((ch_tail ch + 1) AND mask k) = (unat (ch_head ch) + unat (ch_count ch + 1)) mod 2 ^ k"
    unfolding cursor_next [OF t k(1)] c k(8) by (simp add: mod_simps)
  show "ring_ok (buffer_put v ch)"
  proof (cases "ch_capacity ch = 1")
    case True
    with k show ?thesis using le by (auto simp: ring_ok_def buffer_put_def)
  next
    case False
    with k show ?thesis using le nt unfolding ring_ok_def by (intro conjI exI [of _ k]) (auto simp: buffer_put_def)
  qed
  have "contents (buffer_put v ch) = window ((ch_buffer ch)[(unat (ch_head ch) + unat (ch_count ch)) mod 2 ^ k := v]) (2 ^ k) (unat (ch_head ch)) (Suc (unat (ch_count ch)))"
    using k c by (cases "ch_capacity ch = 1") (simp_all add: contents_def buffer_put_def)
  also have "\<dots> = contents ch @ [v]" unfolding contents_def k(3) by (rule window_push [OF room k(4)])
  finally show "contents (buffer_put v ch) = contents ch @ [v]" .
qed

lemma take_ring:
  assumes "ring_ok ch" "0 < ch_count ch" "buffer_take ch = (v, ch')"
  shows "ring_ok ch'" "contents ch = v # contents ch'"
proof -
  from assms(1) obtain k where k: "k < 64" "ch_mask ch = mask k" "unat (ch_ring_capacity ch) = 2 ^ k" "length (ch_buffer ch) = 2 ^ k"
      "unat (ch_capacity ch) \<le> 2 ^ k" "ch_capacity ch = 1 \<longrightarrow> k = 0" "unat (ch_head ch) < 2 ^ k"
      "unat (ch_tail ch) = (unat (ch_head ch) + unat (ch_count ch)) mod 2 ^ k" "0 < ch_capacity ch" "ch_count ch \<le> ch_capacity ch"
    unfolding ring_ok_def by auto
  have c: "unat (ch_count ch) = Suc (unat (ch_count ch - 1))"
    using assms(2) by (simp add: unat_minus_one word_greater_zero_iff) (metis One_nat_def Suc_pred unat_gt_0)
  have le: "ch_count ch - 1 \<le> ch_capacity ch" using k(10) c by (simp add: word_le_nat_alt)
  have nh: "unat ((ch_head ch + 1) AND mask k) = Suc (unat (ch_head ch)) mod 2 ^ k" by (rule cursor_next [OF k(7,1)])
  have nt: "unat (ch_tail ch) = (unat ((ch_head ch + 1) AND mask k) + unat (ch_count ch - 1)) mod 2 ^ k"
    unfolding nh k(8) c by (simp add: mod_simps)
  show "ring_ok ch'"
  proof (cases "ch_capacity ch = 1")
    case True
    with k assms(3) show ?thesis using le by (auto simp: ring_ok_def buffer_take_def)
  next
    case False
    with assms(3) have ch': "ch' = ch\<lparr>ch_head := (ch_head ch + 1) AND mask k, ch_count := ch_count ch - 1\<rparr>"
      using k(2) by (auto simp: buffer_take_def)
    have "unat ((ch_head ch + 1) AND mask k) < 2 ^ k" unfolding nh by simp
    with False k show ?thesis using le nt unfolding ring_ok_def ch' by (intro conjI exI [of _ k]) auto
  qed
  have "contents ch = ch_buffer ch ! (unat (ch_head ch) mod 2 ^ k) # window (ch_buffer ch) (2 ^ k) (Suc (unat (ch_head ch))) (unat (ch_count ch - 1))"
    unfolding contents_def k(3) c by (rule window_Suc)
  also have "window (ch_buffer ch) (2 ^ k) (Suc (unat (ch_head ch))) (unat (ch_count ch - 1)) = contents ch'"
  proof (cases "ch_capacity ch = 1")
    case True
    with k assms(3) show ?thesis by (auto simp: contents_def buffer_take_def window_def)
  next
    case False
    with assms(3) show ?thesis using k(2,3) nh by (auto simp: contents_def buffer_take_def window_mod)
  qed
  also have "ch_buffer ch ! (unat (ch_head ch) mod 2 ^ k) = v"
    using assms(3) k by (cases "ch_capacity ch = 1") (auto simp: buffer_take_def)
  finally show "contents ch = v # contents ch'" .
qed

section \<open>What creation gives\<close>

lemma unat_half: "unat (UINT64_MAX div 2 :: u64) = 2 ^ 63 - 1"
  by (simp add: unat_div unsigned_minus_1_eq_mask mask_eq_exp_minus_1)

lemma unat_eighth: "unat (UINT64_MAX div 8 :: u64) = 2 ^ 61 - 1"
  by (simp add: unat_div unsigned_minus_1_eq_mask mask_eq_exp_minus_1)

lemma unat_pow2:
  assumes "k < 64"
  shows "unat (2 ^ k :: u64) = 2 ^ k"
proof -
  have "unat (of_nat (2 ^ k) :: u64) = 2 ^ k" using assms by (simp add: unsigned_of_nat take_bit_nat_eq_self del: of_nat_power)
  then show ?thesis by simp
qed

lemma unat_limit: "unat (UINT64_MAX div 2 + 1 :: u64) = 2 ^ 63"
proof -
  have "UINT64_MAX div 2 < (- 1 :: u64)" unfolding word_less_nat_alt unat_half by (simp add: unsigned_minus_1_eq_mask mask_eq_exp_minus_1)
  then have "unat (UINT64_MAX div 2 + 1 :: u64) = Suc (unat (UINT64_MAX div 2 :: u64))" by (rule unat_Suc_less)
  then show ?thesis unfolding unat_half by simp
qed

text \<open>The loop stops at the smallest power of two that is not below the capacity.\<close>

lemma round_loop_least:
  assumes "i + fuel = 64" "i < 64" "unat capacity \<le> 2 ^ 63" "i = 0 \<or> 2 ^ (i - 1) < unat capacity"
  shows "\<exists>k < 64. round_loop fuel (2 ^ i) capacity = Some (2 ^ k) \<and> unat capacity \<le> 2 ^ k \<and> (k = 0 \<or> 2 ^ (k - 1) < unat capacity)"
  using assms
proof (induction fuel arbitrary: i)
  case (Suc fuel)
  note i = unat_pow2 [OF Suc.prems(2)]
  show ?case
  proof (cases "(2 :: u64) ^ i < capacity")
    case True
    then have c: "2 ^ i < unat capacity" using i by (simp add: word_less_nat_alt)
    have i63: "i < 63"
    proof (rule ccontr)
      assume "\<not> i < 63"
      then have "i = 63" using Suc.prems(2) by simp
      then show False using c Suc.prems(3) by simp
    qed
    have le: "\<not> UINT64_MAX div 2 < (2 :: u64) ^ i"
    proof -
      have "(2 :: nat) ^ i \<le> 2 ^ 62" using i63 by (intro power_increasing) auto
      then show ?thesis unfolding word_less_nat_alt unat_half i by simp
    qed
    have "push_bit 1 ((2 :: u64) ^ i) = 2 ^ Suc i" by (simp add: push_bit_eq_mult)
    then have step: "round_loop (Suc fuel) (2 ^ i) capacity = round_loop fuel (2 ^ Suc i) capacity" using True le by (simp add: mult.commute)
    show ?thesis unfolding step by (rule Suc.IH) (use Suc.prems c i63 in auto)
  next
    case False
    then have "unat capacity \<le> 2 ^ i" using i by (simp add: word_less_nat_alt)
    then show ?thesis using False Suc.prems(2,4) by (intro exI [of _ i]) simp
  qed
qed simp

lemma round_capacity_least:
  assumes "0 < capacity" "unat capacity \<le> 2 ^ 63"
  shows "\<exists>k < 64. llam_channel_round_capacity capacity = Some (2 ^ k) \<and> unat capacity \<le> 2 ^ k \<and> (k = 0 \<or> 2 ^ (k - 1) < unat capacity)"
proof -
  have "llam_channel_round_capacity capacity = round_loop 64 1 capacity"
    using assms unat_limit by (auto simp: llam_channel_round_capacity_def word_less_nat_alt)
  then show ?thesis using round_loop_least [of 0 64 capacity] assms(2) by simp
qed

lemma round_capacity_refused: "2 ^ 63 < unat capacity \<Longrightarrow> llam_channel_round_capacity capacity = Some 0"
  using unat_limit by (auto simp: llam_channel_round_capacity_def word_less_nat_alt)

definition empty_channel :: "channel \<Rightarrow> bool" where
  "empty_channel ch \<longleftrightarrow> ring_ok ch \<and> contents ch = [] \<and> \<not> ch_closed ch \<and> ch_send_waiters ch = [] \<and> ch_recv_waiters ch = []"

lemma reset_empty:
  assumes "ring_ok ch"
  shows "empty_channel (llam_channel_reset_for_reuse ch)" "ch_capacity (llam_channel_reset_for_reuse ch) = ch_capacity ch"
proof -
  from assms obtain k where k: "k < 64" "ch_mask ch = mask k" "unat (ch_ring_capacity ch) = 2 ^ k"
      "unat (ch_capacity ch) \<le> 2 ^ k" "ch_capacity ch = 1 \<longrightarrow> k = 0" "0 < ch_capacity ch"
    unfolding ring_ok_def by auto
  have "ch_ring_capacity ch = 2 ^ k" using k(1,3) by (simp add: word_unat_eq_iff unat_pow2)
  then have "ch_ring_capacity ch - 1 = mask k" by (simp add: mask_eq_exp_minus_1)
  moreover have "0 < ch_ring_capacity ch" using k(3) by (simp add: unat_gt_0 [symmetric] word_greater_zero_iff del: unat_gt_0)
  ultimately show "empty_channel (llam_channel_reset_for_reuse ch)"
    using k by (auto simp: empty_channel_def ring_ok_def contents_def llam_channel_reset_for_reuse_def intro!: exI [of _ k])
qed (simp add: llam_channel_reset_for_reuse_def)

lemma create_new:
  assumes "llam_channel_round_capacity capacity = Some (2 ^ k)" "k < 61" "0 < capacity" "unat capacity \<le> 2 ^ k" "k = 0 \<or> 2 ^ (k - 1) < unat capacity"
    and "ca_owner answers = Inr ()" "ca_cached answers = None \<or> capacity \<noteq> 1" "ca_object answers" "ca_buffer answers" "ca_lock answers = E_OK" "ca_register answers = Inr ()"
  shows "\<exists>ch. llam_channel_create_owned answers capacity = Inr ch \<and> empty_channel ch \<and> ch_capacity ch = capacity"
proof -
  have k: "unat (2 ^ k :: u64) = 2 ^ k" by (rule unat_pow2) (use assms(2) in simp)
  have k1: "capacity = 1 \<longrightarrow> k = 0"
  proof
    assume "capacity = 1"
    then have "k = 0 \<or> (2 :: nat) ^ (k - 1) < 1" using assms(5) by simp
    then show "k = 0" by simp
  qed
  have "(2 :: nat) ^ k \<le> 2 ^ 60" using assms(2) by (intro power_increasing) auto
  then have lt: "(UINT64_MAX div 8 < (2 :: u64) ^ k) = False" unfolding word_less_nat_alt unat_eighth k by simp
  have ne: "((2 :: u64) ^ k = 0) = False" using k by (metis power_not_zero unat_0 zero_neq_numeral)
  have cs: "(capacity = 0) = False" "(capacity = 1 \<and> ca_cached answers \<noteq> None) = False" using assms(3,7) by auto
  have made: "llam_channel_create_owned answers capacity =
      Inr \<lparr>ch_buffer = replicate (unat (2 ^ k :: u64)) 0, ch_capacity = capacity, ch_ring_capacity = 2 ^ k, ch_mask = mask k,
           ch_head = 0, ch_tail = 0, ch_count = 0, ch_inflight = 0, ch_closed = False, ch_send_waiters = [], ch_recv_waiters = []\<rparr>" (is "_ = Inr ?ch")
    unfolding llam_channel_create_owned_def assms(1,6,10,11) mask_eq_exp_minus_1
    by (simp only: sum.case option.case cs ne lt assms(8,9) if_False if_True simp_thms)
  have "ring_ok ?ch" unfolding ring_ok_def using assms(2-4) k k1 by (intro conjI exI [of _ k]) simp_all
  then have "empty_channel ?ch" by (simp add: empty_channel_def contents_def)
  then show ?thesis using made by simp
qed

text \<open>
  C35. Creating a channel. A capacity of zero is refused with \<open>EINVAL\<close> and one above \<open>2 ^ 60\<close> with \<open>ENOMEM\<close>; every
  other capacity gives, when memory, the lock and the registry allow it, an open and empty channel of exactly that capacity whose ring is the
  smallest power of two that holds it. A channel of capacity one may also come from the cache and is then just as empty.
\<close>

theorem channel_create_correct:
  assumes "ca_owner answers = Inr ()" "ca_object answers" "ca_buffer answers" "ca_lock answers = E_OK" "ca_register answers = Inr ()"
    and cached: "\<And>ch. ca_cached answers = Some ch \<Longrightarrow> ring_ok ch \<and> ch_capacity ch = 1"
  shows "if capacity = 0 then llam_channel_create_owned answers capacity = Inl EINVAL
    else if 2 ^ 60 < unat capacity then llam_channel_create_owned answers capacity = Inl ENOMEM
    else \<exists>ch. llam_channel_create_owned answers capacity = Inr ch \<and> empty_channel ch \<and> ch_capacity ch = capacity"
proof (cases "capacity = 0")
  case True
  then show ?thesis using assms(1) by (simp add: llam_channel_create_owned_def)
next
  case pos: False
  show ?thesis
  proof (cases "2 ^ 63 < unat capacity")
    case True
    then show ?thesis using pos assms(1) round_capacity_refused [OF True] by (simp add: llam_channel_create_owned_def)
  next
    case False
    then obtain k where k: "k < 64" "llam_channel_round_capacity capacity = Some (2 ^ k)" "unat capacity \<le> 2 ^ k" "k = 0 \<or> 2 ^ (k - 1) < unat capacity"
      using round_capacity_least [of capacity] pos by (auto simp: word_greater_zero_iff)
    show ?thesis
    proof (cases "k < 61")
      case True
      have "(2 :: nat) ^ k \<le> 2 ^ 60" using True by (intro power_increasing) auto
      then have small: "unat capacity \<le> 2 ^ 60" using k(3) by simp
      show ?thesis
      proof (cases "ca_cached answers = None \<or> capacity \<noteq> 1")
        case new: True
        have "0 < capacity" using pos by (simp add: word_greater_zero_iff)
        from create_new [OF k(2) True this k(3,4) assms(1) new assms(2-5)] show ?thesis using pos small by simp
      next
        case False
        then obtain ch where ch: "ca_cached answers = Some ch" "capacity = 1" by auto
        then have "k = 0" using k(4) by (cases "k = 0") auto
        then have "llam_channel_create_owned answers capacity = Inr (llam_channel_reset_for_reuse ch)"
          using ch assms(1) k(2) unat_eighth by (simp add: llam_channel_create_owned_def word_less_nat_alt)
        then show ?thesis using reset_empty [of ch] cached [OF ch(1)] ch(2) small by simp
      qed
    next
      case False
      then have "(2 :: nat) ^ 60 \<le> 2 ^ (k - 1)" by (intro power_increasing) auto
      then have big: "2 ^ 60 < unat capacity" using k(4) False by auto
      have "(2 :: nat) ^ 61 \<le> 2 ^ k" using False by (intro power_increasing) auto
      then have "UINT64_MAX div 8 < (2 :: u64) ^ k" unfolding word_less_nat_alt unat_eighth unat_pow2 [OF k(1)] by simp
      then have "llam_channel_create_owned answers capacity = Inl ENOMEM" using pos assms(1) k(2) by (simp add: llam_channel_create_owned_def)
      then show ?thesis using pos big by simp
    qed
  qed
qed

definition no_cache :: create_answers where
  "no_cache = \<lparr>ca_owner = Inr (), ca_cached = None, ca_object = True, ca_buffer = True, ca_lock = E_OK, ca_register = Inr ()\<rparr>"

theorem channel_create_correct_witness:
  "(\<exists>ch. llam_channel_create_owned no_cache 5 = Inr ch \<and> empty_channel ch \<and> ch_capacity ch = 5) \<and>
   llam_channel_create_owned no_cache (- 1) = Inl ENOMEM"
  using channel_create_correct [of no_cache 5] channel_create_correct [of no_cache "- 1"]
  by (simp add: no_cache_def unsigned_minus_1_eq_mask mask_eq_exp_minus_1)

end
