(* ===== verification/Sync_Channel.thy ===== *)
theory Sync_Channel
  imports Wait_Node Channel_Buffer
begin

text \<open>
  The operations of channels and of select (\<^verbatim>\<open>core/sync/channel.c\<close>, \<^verbatim>\<open>channel_fast.c\<close>, \<^verbatim>\<open>channel_select.c\<close>,
  \<^verbatim>\<open>channel_select_fast.c\<close>), each as the function its locked section computes on the channels, the wait nodes and the select states.
  Besides its result an operation returns the transfers it made. How the operations of many tasks interleave, and what then holds, is the subject of
  theory \<open>Channel_System\<close>; here the operations are shown to agree with one another: the buffered fast path with the general send.
\<close>

section \<open>State\<close>

datatype select_kind = SelectRecv | SelectSend

record select_op =
  so_kind :: select_kind
  so_channel :: u64
  so_value :: u64

datatype select_phase = SelectPending | SelectArmed | SelectCompleting | SelectInline | SelectQueued

record select_state =
  ss_selected :: "nat option"
  ss_value :: u64
  ss_error :: errno
  ss_completed :: select_phase
  ss_wake_queued :: bool

text \<open>Where a task is in a call. The scanning places carry the index the scan starts at and the number of operations already tried.\<close>

datatype channel_pc =
    ChIdle
  | SendWaiting u64 u64            \<comment> \<open>queued on a channel with a value\<close>
  | SendLeaving u64 u64 errno      \<comment> \<open>setting up the wait failed; to leave the queue\<close>
  | RecvWaiting u64
  | RecvLeaving u64 errno
  | SelectProbe nat nat            \<comment> \<open>first scan, without help from peers\<close>
  | SelectPair                     \<comment> \<open>to lock both channels of a select of two\<close>
  | SelectScan nat nat             \<comment> \<open>scan that may take from and give to waiting peers\<close>
  | SelectPeer nat nat             \<comment> \<open>to try the operation as a call of its own\<close>
  | SelectEnter nat                \<comment> \<open>to lock all channels and queue the nodes\<close>
  | SelectSetup                    \<comment> \<open>queued, wait not yet published\<close>
  | SelectTracked                  \<comment> \<open>wait published, timers being set up\<close>
  | SelectLeaving errno            \<comment> \<open>setting up failed; to leave the queues\<close>
  | SelectLeft errno               \<comment> \<open>left the queues; to look whether a peer was faster\<close>
  | SelectReady                    \<comment> \<open>to commit to parking\<close>
  | SelectParked
  | SelectFinishing                \<comment> \<open>completed; to leave the queues and return\<close>

text \<open>A timer or cancellation that claimed a select's completion: whether the task had committed to parking.\<close>

datatype abort_pc = AbortIdle | AbortCleanup errno bool | AbortPublish errno bool

record channel_system =
  cs_channel :: "u64 \<Rightarrow> channel"
  cs_node :: "waiter \<Rightarrow> wait_node"
  cs_select :: "u64 \<Rightarrow> select_state"
  cs_ops :: "u64 \<Rightarrow> select_op list"
  cs_deadline :: "u64 \<Rightarrow> u64"
  cs_shard :: "u64 \<Rightarrow> u32"
  cs_parked :: "u64 \<Rightarrow> bool"
  cs_woken :: "u64 \<Rightarrow> bool"
  cs_pc :: "u64 \<Rightarrow> channel_pc"
  cs_abort :: "u64 \<Rightarrow> abort_pc"

definition at_channel :: "u64 \<Rightarrow> (channel \<Rightarrow> channel) \<Rightarrow> channel_system \<Rightarrow> channel_system" where
  "at_channel c f s = s\<lparr>cs_channel := (cs_channel s)(c := f (cs_channel s c))\<rparr>"

definition at_pc :: "u64 \<Rightarrow> channel_pc \<Rightarrow> channel_system \<Rightarrow> channel_system" where
  "at_pc t pc s = s\<lparr>cs_pc := (cs_pc s)(t := pc)\<rparr>"

fun waiters :: "select_kind \<Rightarrow> channel \<Rightarrow> waiter list" where
  "waiters SelectRecv ch = ch_recv_waiters ch"
| "waiters SelectSend ch = ch_send_waiters ch"

fun set_waiters :: "select_kind \<Rightarrow> waiter list \<Rightarrow> channel \<Rightarrow> channel" where
  "set_waiters SelectRecv ns ch = ch\<lparr>ch_recv_waiters := ns\<rparr>"
| "set_waiters SelectSend ns ch = ch\<lparr>ch_send_waiters := ns\<rparr>"

text \<open>A value that a task put into or took out of a channel.\<close>

datatype transfer = Transfer u64 select_kind u64 u64   \<comment> \<open>task, direction, channel, value\<close>

section \<open>Completing waiters\<close>

definition llam_channel_select_begin_completion :: "select_state \<Rightarrow> bool option \<times> select_state" where
  "llam_channel_select_begin_completion st =
     (if ss_completed st \<noteq> SelectPending \<and> ss_completed st \<noteq> SelectArmed then (None, st)
      else (Some (ss_completed st = SelectArmed), st\<lparr>ss_completed := SelectCompleting\<rparr>))"

datatype completion = CompletionLost | CompletionInline | CompletionQueued

definition llam_channel_select_complete_node :: "waiter \<Rightarrow> u64 \<Rightarrow> errno \<Rightarrow> channel_system \<Rightarrow> completion \<times> channel_system" where
  "llam_channel_select_complete_node node value error_code s =
     (case node of
        PlainNode t \<Rightarrow> (CompletionLost, s)
      | SelectNode t i \<Rightarrow>
         (case llam_channel_select_begin_completion (cs_select s t) of
            (None, st) \<Rightarrow> (CompletionLost, s)
          | (Some armed, st) \<Rightarrow>
             (let should_queue = (armed \<and> cs_parked s t);
                  st = st\<lparr>ss_selected := Some i, ss_value := value, ss_error := error_code,
                          ss_wake_queued := (ss_wake_queued st \<or> should_queue),
                          ss_completed := (if should_queue then SelectQueued else SelectInline)\<rparr>
              in (if should_queue then CompletionQueued else CompletionInline,
                  s\<lparr>cs_select := (cs_select s)(t := st),
                    cs_node := (cs_node s)(node := (cs_node s node)\<lparr>wn_value := value, wn_error_code := error_code\<rparr>)\<rparr>))))"

definition llam_channel_select_node_should_wake :: "u64 \<Rightarrow> channel_system \<Rightarrow> bool" where
  "llam_channel_select_node_should_wake t s \<longleftrightarrow>
     ss_completed (cs_select s t) = SelectQueued \<and> ss_wake_queued (cs_select s t) \<and> cs_parked s t"

text \<open>Waking the task of a completed node; the protocol for a plain node is that of theory \<open>Wait_Node\<close>.\<close>

definition llam_wake_wait_node :: "waiter \<Rightarrow> channel_system \<Rightarrow> channel_system" where
  "llam_wake_wait_node node s =
     (case node of
        PlainNode t \<Rightarrow> s\<lparr>cs_woken := (cs_woken s)(t := True)\<rparr>
      | SelectNode t i \<Rightarrow> if llam_channel_select_node_should_wake t s then s\<lparr>cs_woken := (cs_woken s)(t := True)\<rparr> else s)"

definition llam_channel_waiter_popped :: "u64 \<Rightarrow> waiter \<Rightarrow> channel_system \<Rightarrow> channel_system" where
  "llam_channel_waiter_popped c node s =
     (let s = (case node of PlainNode t \<Rightarrow> s\<lparr>cs_node := (cs_node s)(node := (cs_node s node)\<lparr>wn_scalar_value := 1\<rparr>)\<rparr> | SelectNode t i \<Rightarrow> s)
      in at_channel c (\<lambda>ch. ch\<lparr>ch_inflight := fst (snd (llam_sync_note_inflight_waiter True (ch_inflight ch) 1))\<rparr>) s)"

definition llam_channel_waiter_consumed :: "u64 \<Rightarrow> channel_system \<Rightarrow> channel_system" where
  "llam_channel_waiter_consumed c =
     at_channel c (\<lambda>ch. ch\<lparr>ch_inflight := fst (snd (llam_sync_complete_inflight_waiter True (ch_inflight ch) 1))\<rparr>)"

text \<open>
  Popping until a waiter is found that no other channel has completed. A receiver is given the value; a sender
  gives the one in its node.
\<close>

fun pop_live :: "select_kind \<Rightarrow> u64 \<Rightarrow> u64 option \<Rightarrow> waiter list \<Rightarrow> channel_system \<Rightarrow> (waiter \<times> u64 \<times> bool) option \<times> channel_system" where
  "pop_live kind c given [] s = (None, s)"
| "pop_live kind c given (node # rest) s =
     (let s = at_channel c (set_waiters kind rest) s;
          value = (case given of Some v \<Rightarrow> v | None \<Rightarrow> wn_value (cs_node s node))
      in case node of
           SelectNode t i \<Rightarrow>
             (case llam_channel_select_complete_node node value E_OK s of
                (CompletionLost, s) \<Rightarrow> pop_live kind c given rest s
              | (completion, s) \<Rightarrow> (Some (node, value, completion = CompletionQueued), llam_channel_waiter_popped c node s))
         | PlainNode t \<Rightarrow>
             (Some (node, value, True),
              llam_channel_waiter_popped c node
                (s\<lparr>cs_node := (cs_node s)(node := (cs_node s node)\<lparr>wn_value := value, wn_error_code := E_OK\<rparr>)\<rparr>)))"

definition llam_channel_pop_live_receiver :: "u64 \<Rightarrow> u64 \<Rightarrow> channel_system \<Rightarrow> (waiter \<times> u64 \<times> bool) option \<times> channel_system" where
  "llam_channel_pop_live_receiver c value s = pop_live SelectRecv c (Some value) (ch_recv_waiters (cs_channel s c)) s"

definition llam_channel_pop_live_sender :: "u64 \<Rightarrow> channel_system \<Rightarrow> (waiter \<times> u64 \<times> bool) option \<times> channel_system" where
  "llam_channel_pop_live_sender c s = pop_live SelectSend c None (ch_send_waiters (cs_channel s c)) s"

text \<open>Taking every waiter off a queue with an error; the second component lists those to wake.\<close>

fun detach_all :: "select_kind \<Rightarrow> u64 \<Rightarrow> errno \<Rightarrow> waiter list \<Rightarrow> channel_system \<Rightarrow> waiter list \<times> channel_system" where
  "detach_all kind c e [] s = ([], s)"
| "detach_all kind c e (node # rest) s =
     (let s = at_channel c (set_waiters kind rest) s in
      case node of
        SelectNode t i \<Rightarrow>
          (case llam_channel_select_complete_node node 0 e s of
             (CompletionLost, s) \<Rightarrow> detach_all kind c e rest s
           | (completion, s) \<Rightarrow>
               (let (wake, s) = detach_all kind c e rest (llam_channel_waiter_popped c node s)
                in (if completion = CompletionQueued then node # wake else wake, s)))
      | PlainNode t \<Rightarrow>
          (let s = s\<lparr>cs_node := (cs_node s)(node := (cs_node s node)\<lparr>wn_error_code := e\<rparr>)\<rparr>;
               (wake, s) = detach_all kind c e rest (llam_channel_waiter_popped c node s)
           in (node # wake, s)))"

definition llam_channel_detach_all_waiters_locked :: "select_kind \<Rightarrow> u64 \<Rightarrow> errno \<Rightarrow> channel_system \<Rightarrow> waiter list \<times> channel_system" where
  "llam_channel_detach_all_waiters_locked kind c e s = detach_all kind c e (waiters kind (cs_channel s c)) s"

definition llam_channel_wake_detached_waiters :: "waiter list \<Rightarrow> channel_system \<Rightarrow> channel_system" where
  "llam_channel_wake_detached_waiters nodes s = fold llam_wake_wait_node nodes s"

section \<open>Send and receive\<close>

text \<open>
  The locked section that \<^verbatim>\<open>llam_channel_send_impl\<close> and \<^verbatim>\<open>llam_channel_try_send\<close> share: a waiting receiver is served
  first, then the buffer is used.
\<close>

datatype send_outcome = SendClosed | SendHanded waiter bool | SendBuffered | SendFull

definition send_locked :: "u64 \<Rightarrow> u64 \<Rightarrow> channel_system \<Rightarrow> send_outcome \<times> channel_system" where
  "send_locked c value s =
     (if ch_closed (cs_channel s c) then (SendClosed, s)
      else case llam_channel_pop_live_receiver c value s of
        (Some (receiver, _, wake), s) \<Rightarrow> (SendHanded receiver wake, s)
      | (None, s) \<Rightarrow>
          if ch_count (cs_channel s c) < ch_capacity (cs_channel s c) then (SendBuffered, at_channel c (buffer_put value) s)
          else (SendFull, s))"

fun send_transfers :: "u64 \<Rightarrow> u64 \<Rightarrow> u64 \<Rightarrow> send_outcome \<Rightarrow> transfer list" where
  "send_transfers t c value (SendHanded node wake) = [Transfer t SelectSend c value, Transfer (waiter_task node) SelectRecv c value]"
| "send_transfers t c value SendBuffered = [Transfer t SelectSend c value]"
| "send_transfers t c value _ = []"

definition wake_if :: "bool \<Rightarrow> waiter \<Rightarrow> channel_system \<Rightarrow> channel_system" where
  "wake_if wake node s = (if wake then llam_wake_wait_node node s else s)"

definition llam_channel_try_send :: "u64 \<Rightarrow> u64 \<Rightarrow> u64 \<Rightarrow> channel_system \<Rightarrow> transfer list \<times> unit result \<times> channel_system" where
  "llam_channel_try_send t c value s =
     (case send_locked c value s of (outcome, s) \<Rightarrow>
        (send_transfers t c value outcome,
         (case outcome of SendClosed \<Rightarrow> (Inl EPIPE, s) | SendHanded node wake \<Rightarrow> (Inr (), wake_if wake node s)
            | SendBuffered \<Rightarrow> (Inr (), s) | SendFull \<Rightarrow> (Inl EAGAIN, s))))"

datatype fast_result = FastFallback | FastDone | FastError errno

definition llam_channel_try_send_buffered_fast :: "u64 \<Rightarrow> u64 \<Rightarrow> channel_system \<Rightarrow> fast_result \<times> channel_system" where
  "llam_channel_try_send_buffered_fast c value s =
     (let ch = cs_channel s c in
      if ch_closed ch then (FastError EPIPE, s)
      else if ch_recv_waiters ch \<noteq> [] \<or> ch_capacity ch \<le> ch_count ch then (FastFallback, s)
      else (FastDone, at_channel c (buffer_put value) s))"

text \<open>A node queued on a channel by a task that has to wait; a task with a cancellation token starts out cancelled.\<close>

definition plain_node :: "u64 \<Rightarrow> u64 \<Rightarrow> bool \<Rightarrow> channel_system \<Rightarrow> wait_node" where
  "plain_node t value cancellable s =
     (llam_wait_node_reset (cs_shard s t))\<lparr>wn_task := t, wn_value := value, wn_error_code := (if cancellable then ECANCELED else E_OK)\<rparr>"

definition push_waiter :: "select_kind \<Rightarrow> u64 \<Rightarrow> waiter \<Rightarrow> wait_node \<Rightarrow> channel_system \<Rightarrow> channel_system" where
  "push_waiter kind c node content s =
     at_channel c (\<lambda>ch. set_waiters kind (waiters kind ch @ [node]) ch) (s\<lparr>cs_node := (cs_node s)(node := content)\<rparr>)"

text \<open>
  Sending up to the point where the task waits. Without a deadline the buffered fast path comes first and, where it does not
  apply, hands its lock on. The result is absent when the task has to wait. \<open>we_deadline\<close> is whether the call has a deadline, \<open>we_request\<close> whether the task has a
  request deadline that is merged into it, \<open>we_passed\<close> whether the deadline that results has passed, \<open>we_node_ok\<close> whether a node could be had, \<open>we_prepare\<close> whether the
  task waits for nothing else (used by select).
\<close>

record wait_env =
  we_deadline :: bool
  we_request :: bool
  we_passed :: bool
  we_node_ok :: bool
  we_cancellable :: bool
  we_prepare :: bool

definition send_slow :: "wait_env \<Rightarrow> u64 \<Rightarrow> u64 \<Rightarrow> u64 \<Rightarrow> channel_system \<Rightarrow> transfer list \<times> unit result option \<times> channel_system" where
  "send_slow env t c value s =
     (case send_locked c value s of (outcome, s) \<Rightarrow>
        (send_transfers t c value outcome,
         (case outcome of
            SendClosed \<Rightarrow> (Some (Inl EPIPE), s)
          | SendHanded node wake \<Rightarrow> (Some (Inr ()), wake_if wake node s)
          | SendBuffered \<Rightarrow> (Some (Inr ()), s)
          | SendFull \<Rightarrow>
              if (we_deadline env \<or> we_request env) \<and> we_passed env then (Some (Inl ETIMEDOUT), s)
              else if \<not> we_node_ok env then (Some (Inl ENOMEM), s)
              else (None, at_pc t (SendWaiting c value)
                (push_waiter SelectSend c (PlainNode t) (plain_node t value (we_cancellable env) s) (s\<lparr>cs_woken := (cs_woken s)(t := False)\<rparr>))))))"

definition llam_channel_send_impl :: "wait_env \<Rightarrow> u64 \<Rightarrow> u64 \<Rightarrow> u64 \<Rightarrow> channel_system \<Rightarrow> transfer list \<times> unit result option \<times> channel_system" where
  "llam_channel_send_impl env t c value s =
     (if we_deadline env then send_slow env t c value s
      else case llam_channel_try_send_buffered_fast c value s of
        (FastDone, s) \<Rightarrow> ([Transfer t SelectSend c value], Some (Inr ()), s)
      | (FastError e, s) \<Rightarrow> ([], Some (Inl e), s)
      | (FastFallback, s) \<Rightarrow> send_slow env t c value s)"

text \<open>The locked section of receiving: the buffer first, refilled by a waiting sender; else a waiting sender directly.\<close>

datatype recv_outcome = RecvBuffered u64 "(waiter \<times> u64 \<times> bool) option" | RecvDirect waiter u64 bool | RecvClosed | RecvEmpty

definition recv_locked :: "u64 \<Rightarrow> channel_system \<Rightarrow> recv_outcome \<times> channel_system" where
  "recv_locked c s =
     (if 0 < ch_count (cs_channel s c)
      then let (value, ch) = buffer_take (cs_channel s c) in
        (case llam_channel_pop_live_sender c (at_channel c (\<lambda>_. ch) s) of
           (Some (sender, refill, wake), s) \<Rightarrow> (RecvBuffered value (Some (sender, refill, wake)), at_channel c (buffer_put refill) s)
         | (None, s) \<Rightarrow> (RecvBuffered value None, s))
      else case llam_channel_pop_live_sender c s of
        (Some (sender, value, wake), s) \<Rightarrow> (RecvDirect sender value wake, s)
      | (None, s) \<Rightarrow> if ch_closed (cs_channel s c) then (RecvClosed, s) else (RecvEmpty, s))"

fun recv_transfers :: "u64 \<Rightarrow> u64 \<Rightarrow> recv_outcome \<Rightarrow> transfer list" where
  "recv_transfers t c (RecvBuffered value None) = [Transfer t SelectRecv c value]"
| "recv_transfers t c (RecvBuffered value (Some (node, refill, wake))) =
     [Transfer t SelectRecv c value, Transfer (waiter_task node) SelectSend c refill]"
| "recv_transfers t c (RecvDirect node value wake) = [Transfer (waiter_task node) SelectSend c value, Transfer t SelectRecv c value]"
| "recv_transfers t c _ = []"

fun recv_wake :: "recv_outcome \<Rightarrow> channel_system \<Rightarrow> channel_system" where
  "recv_wake (RecvBuffered value (Some (node, refill, wake))) s = wake_if wake node s"
| "recv_wake (RecvDirect node value wake) s = wake_if wake node s"
| "recv_wake _ s = s"

definition llam_channel_recv_result_impl :: "wait_env \<Rightarrow> u64 \<Rightarrow> u64 \<Rightarrow> channel_system \<Rightarrow> transfer list \<times> u64 result option \<times> channel_system" where
  "llam_channel_recv_result_impl env t c s =
     (case recv_locked c s of (outcome, s) \<Rightarrow>
        (recv_transfers t c outcome,
         (let s = recv_wake outcome s in
          case outcome of
            RecvBuffered value _ \<Rightarrow> (Some (Inr value), s)
          | RecvDirect _ value _ \<Rightarrow> (Some (Inr value), s)
          | RecvClosed \<Rightarrow> (Some (Inl EPIPE), s)
          | RecvEmpty \<Rightarrow>
              if (we_deadline env \<or> we_request env) \<and> we_passed env then (Some (Inl ETIMEDOUT), s)
              else if \<not> we_node_ok env then (Some (Inl ENOMEM), s)
              else (None, at_pc t (RecvWaiting c)
                (push_waiter SelectRecv c (PlainNode t) (plain_node t 0 (we_cancellable env) s) (s\<lparr>cs_woken := (cs_woken s)(t := False)\<rparr>))))))"

text \<open>Receiving without waiting. When the runtime of the channel is gone only the buffer is drained.\<close>

definition llam_channel_try_recv_result :: "bool \<Rightarrow> u64 \<Rightarrow> u64 \<Rightarrow> channel_system \<Rightarrow> transfer list \<times> u64 result \<times> channel_system" where
  "llam_channel_try_recv_result owner_live t c s =
     (if \<not> owner_live
      then if 0 < ch_count (cs_channel s c)
           then let (value, ch) = buffer_take (cs_channel s c) in ([Transfer t SelectRecv c value], Inr value, at_channel c (\<lambda>_. ch) s)
           else if ch_closed (cs_channel s c) then ([], Inl EPIPE, s) else ([], Inl ENOTSUP, s)
      else case recv_locked c s of (outcome, s) \<Rightarrow>
        (recv_transfers t c outcome,
         (case outcome of RecvBuffered value _ \<Rightarrow> Inr value | RecvDirect _ value _ \<Rightarrow> Inr value | RecvClosed \<Rightarrow> Inl EPIPE | RecvEmpty \<Rightarrow> Inl EAGAIN),
         recv_wake outcome s))"

text \<open>Closing; \<open>pin\<close> is the result of pinning the runtime, asked only when there is somebody to wake.\<close>

definition llam_channel_close :: "unit result \<Rightarrow> u64 \<Rightarrow> channel_system \<Rightarrow> unit result \<times> channel_system" where
  "llam_channel_close pin c s =
     (if ch_closed (cs_channel s c) then (Inr (), s)
      else case (if ch_send_waiters (cs_channel s c) \<noteq> [] \<or> ch_recv_waiters (cs_channel s c) \<noteq> [] then pin else Inr ()) of
        Inl e \<Rightarrow> (Inl e, s)
      | Inr _ \<Rightarrow>
          (let s = at_channel c (\<lambda>ch. ch\<lparr>ch_closed := True\<rparr>) s;
               (send_wake, s) = llam_channel_detach_all_waiters_locked SelectSend c EPIPE s;
               (recv_wake, s) = llam_channel_detach_all_waiters_locked SelectRecv c EPIPE s
           in (Inr (), llam_channel_wake_detached_waiters recv_wake (llam_channel_wake_detached_waiters send_wake s))))"

text \<open>
  The rest of a waiting send or receive: a failed set-up leaves the queue unless the node has been taken off it already; a woken
  task reads the result from its node.
\<close>

definition leave_queue :: "select_kind \<Rightarrow> u64 \<Rightarrow> u64 \<Rightarrow> channel_system \<Rightarrow> bool \<times> channel_system" where
  "leave_queue kind c t s =
     (PlainNode t \<in> set (waiters kind (cs_channel s c)),
      at_channel c (\<lambda>ch. set_waiters kind (remove1 (PlainNode t) (waiters kind ch)) ch) s)"

definition finish_wait :: "u64 \<Rightarrow> u64 \<Rightarrow> channel_system \<Rightarrow> u64 result \<times> channel_system" where
  "finish_wait t c s =
     (let node = cs_node s (PlainNode t);
          s = (if wn_scalar_value node \<noteq> 0 then llam_channel_waiter_consumed c s else s)
      in (if wn_error_code node \<noteq> E_OK then Inl (wn_error_code node) else Inr (wn_value node), at_pc t ChIdle s))"

text \<open>A timer or a cancellation takes a plain waiter off its queue and wakes it.\<close>

definition resolve_wait :: "select_kind \<Rightarrow> u64 \<Rightarrow> u64 \<Rightarrow> errno \<Rightarrow> channel_system \<Rightarrow> channel_system" where
  "resolve_wait kind c t e s =
     (let (removed, s) = leave_queue kind c t s in
      if removed
      then llam_wake_wait_node (PlainNode t) (s\<lparr>cs_node := (cs_node s)(PlainNode t := (cs_node s (PlainNode t))\<lparr>wn_error_code := e\<rparr>)\<rparr>)
      else s)"

section \<open>Select\<close>

definition LLAM_CHANNEL_SELECT_INLINE_OPS :: nat where "LLAM_CHANNEL_SELECT_INLINE_OPS = 8"
definition LLAM_CHANNEL_SELECT_MAX_OPS :: nat where "LLAM_CHANNEL_SELECT_MAX_OPS = 4096"

text \<open>An earlier request deadline of the task replaces the deadline of the call; 0 is none.\<close>

definition llam_task_merge_wait_deadline :: "u64 \<Rightarrow> bool \<Rightarrow> u64 \<Rightarrow> bool \<times> u64" where
  "llam_task_merge_wait_deadline budget has_deadline deadline_ns =
     (if budget \<noteq> 0 \<and> (\<not> has_deadline \<or> budget < deadline_ns) then (True, budget) else (has_deadline, deadline_ns))"

definition select_deadline :: "u64 \<Rightarrow> u64 \<Rightarrow> u64" where
  "select_deadline budget deadline_ns = snd (llam_task_merge_wait_deadline budget (deadline_ns \<noteq> 0) deadline_ns)"

text \<open>One operation under its channel's lock, when no peer is waiting.\<close>

datatype try_result = TryNotReady | TrySelected errno u64 | TryFallback

definition llam_channel_select_try_one_locked :: "select_op \<Rightarrow> channel_system \<Rightarrow> try_result \<times> channel_system" where
  "llam_channel_select_try_one_locked op s =
     (let c = so_channel op; ch = cs_channel s c in
      case so_kind op of
        SelectRecv \<Rightarrow>
          if 0 < ch_count ch
          then if ch_send_waiters ch \<noteq> [] then (TryFallback, s)
               else let (value, ch) = buffer_take ch in (TrySelected E_OK value, at_channel c (\<lambda>_. ch) s)
          else if ch_send_waiters ch \<noteq> [] then (TryFallback, s)
          else if ch_closed ch then (TrySelected EPIPE 0, s)
          else (TryNotReady, s)
      | SelectSend \<Rightarrow>
          if ch_closed ch then (TrySelected EPIPE 0, s)
          else if ch_recv_waiters ch \<noteq> [] then (TryFallback, s)
          else if ch_count ch < ch_capacity ch then (TrySelected E_OK (so_value op), at_channel c (buffer_put (so_value op)) s)
          else (TryNotReady, s))"

fun try_transfers :: "u64 \<Rightarrow> select_op \<Rightarrow> try_result \<Rightarrow> transfer list" where
  "try_transfers t op (TrySelected e value) = (if e = E_OK then [Transfer t (so_kind op) (so_channel op) value] else [])"
| "try_transfers t op _ = []"

text \<open>The operation as a public call; what it reports decides whether it is selected.\<close>

definition llam_channel_select_try_one :: "u64 \<Rightarrow> select_op \<Rightarrow> channel_system \<Rightarrow> transfer list \<times> try_result result \<times> channel_system" where
  "llam_channel_select_try_one t op s =
     (let (transfers, rc, s) =
        (case so_kind op of
           SelectRecv \<Rightarrow> llam_channel_try_recv_result True t (so_channel op) s
         | SelectSend \<Rightarrow> (case llam_channel_try_send t (so_channel op) (so_value op) s of
             (transfers, rc, s) \<Rightarrow> (transfers, map_sum id (\<lambda>_. so_value op) rc, s)))
      in (transfers,
          (case rc of
             Inr value \<Rightarrow> Inr (TrySelected E_OK value)
           | Inl e \<Rightarrow> if e = EAGAIN \<or> e = ETIMEDOUT then Inr TryNotReady
                     else if e = EPIPE \<or> e = ECANCELED then Inr (TrySelected e 0) else Inl e), s))"

definition llam_channel_select_op_may_run_locked :: "select_op \<Rightarrow> channel_system \<Rightarrow> bool" where
  "llam_channel_select_op_may_run_locked op s =
     (let ch = cs_channel s (so_channel op) in
      case so_kind op of
        SelectRecv \<Rightarrow> 0 < ch_count ch \<or> ch_send_waiters ch \<noteq> [] \<or> ch_closed ch
      | SelectSend \<Rightarrow> ch_closed ch \<or> ch_recv_waiters ch \<noteq> [] \<or> ch_count ch < ch_capacity ch)"

definition llam_channel_select_any_ready_locked :: "select_op list \<Rightarrow> channel_system \<Rightarrow> bool" where
  "llam_channel_select_any_ready_locked ops s \<longleftrightarrow> (\<exists>op \<in> set ops. llam_channel_select_op_may_run_locked op s)"

definition select_node :: "u64 \<Rightarrow> nat \<Rightarrow> select_op \<Rightarrow> channel_system \<Rightarrow> wait_node" where
  "select_node t i op s =
     (llam_wait_node_reset (cs_shard s t))\<lparr>wn_task := t, wn_select_state := t, wn_scalar_value := int i, wn_value := so_value op\<rparr>"

text \<open>Queueing one node per operation and starting a fresh completion.\<close>

definition llam_channel_select_enqueue_nodes_locked :: "u64 \<Rightarrow> channel_system \<Rightarrow> channel_system" where
  "llam_channel_select_enqueue_nodes_locked t s =
     fold (\<lambda>(i, op) s. push_waiter (so_kind op) (so_channel op) (SelectNode t i) (select_node t i op s) s) (enumerate 0 (cs_ops s t))
       (s\<lparr>cs_select := (cs_select s)(t := \<lparr>ss_selected = None, ss_value = 0, ss_error = E_OK, ss_completed = SelectPending, ss_wake_queued = False\<rparr>),
          cs_woken := (cs_woken s)(t := False)\<rparr>)"

definition llam_channel_select_cleanup_nodes :: "u64 \<Rightarrow> channel_system \<Rightarrow> channel_system" where
  "llam_channel_select_cleanup_nodes t s =
     fold (\<lambda>(i, op). at_channel (so_channel op) (\<lambda>ch. set_waiters (so_kind op) (remove1 (SelectNode t i) (waiters (so_kind op) ch)) ch))
       (enumerate 0 (cs_ops s t)) s"

text \<open>Committing to parking, and what the completion word then says.\<close>

definition llam_channel_select_arm_wait :: "select_state \<Rightarrow> select_phase \<times> select_state" where
  "llam_channel_select_arm_wait st =
     (if ss_completed st = SelectPending then (SelectArmed, st\<lparr>ss_completed := SelectArmed\<rparr>) else (ss_completed st, st))"

text \<open>The result of a select: the index, the error of the operation and the value received.\<close>

definition llam_channel_select_finish :: "select_op list \<Rightarrow> select_state \<Rightarrow> (nat \<times> errno \<times> u64) result" where
  "llam_channel_select_finish ops st =
     (case ss_selected st of
        None \<Rightarrow> Inl (if ss_error st \<noteq> E_OK then ss_error st else ECANCELED)
      | Some i \<Rightarrow> Inr (i, ss_error st, if ss_error st = E_OK then ss_value st else 0))"

text \<open>A timer or cancellation: claim the completion, take the nodes off the queues, publish the error.\<close>

definition abort_claim :: "u64 \<Rightarrow> errno \<Rightarrow> channel_system \<Rightarrow> channel_system" where
  "abort_claim t e s =
     (case llam_channel_select_begin_completion (cs_select s t) of
        (None, st) \<Rightarrow> s
      | (Some armed, st) \<Rightarrow>
          s\<lparr>cs_select := (cs_select s)(t := st\<lparr>ss_selected := None, ss_value := 0, ss_error := e\<rparr>),
            cs_abort := (cs_abort s)(t := AbortCleanup e armed)\<rparr>)"

definition abort_publish :: "u64 \<Rightarrow> bool \<Rightarrow> channel_system \<Rightarrow> channel_system" where
  "abort_publish t armed s =
     (let should_queue = (armed \<and> cs_parked s t); st = cs_select s t in
      s\<lparr>cs_select := (cs_select s)(t := st\<lparr>ss_wake_queued := (ss_wake_queued st \<or> should_queue),
           ss_completed := (if should_queue then SelectQueued else SelectInline)\<rparr>),
        cs_woken := (if should_queue then (cs_woken s)(t := True) else cs_woken s),
        cs_abort := (cs_abort s)(t := AbortIdle)\<rparr>)"

section \<open>The fast path\<close>

text \<open>Where the buffered fast path applies it does what the general path would do.\<close>

lemma send_fast_same: "llam_channel_send_impl env t c value s = send_slow env t c value s"
  by (auto simp: llam_channel_send_impl_def llam_channel_try_send_buffered_fast_def send_slow_def send_locked_def
      llam_channel_pop_live_receiver_def Let_def not_le)

end
