(* ===== verification/Channel_System.thy ===== *)
theory Channel_System
  imports Sync_Channel
begin

text \<open>
  Channels and selects used by any number of tasks at once. All of a channel's state is read and written under the channel's lock, so
  each locked section of theory \<open>Sync_Channel\<close> is one step; a select that locks several channels is one step on all of them.
  What is shared without a lock is the completion word of a select, which the peers on its channels, a timer, a cancellation and the selecting
  task itself race for; every access to it is a step of its own or part of the locked section that makes it. The wake-up that follows a locked section counts
  to its step: until it arrives the task it is for can only wait, since its node is off the queue or its select completed.
  The theory shows that every interleaving is a legal history of bounded first-in first-out channels, that each call
  reports exactly the transfers made for it, that a select makes at most one, and that no task waits for something that is there.
\<close>

section \<open>Interleavings\<close>

datatype channel_ret =
    RetSend u64 u64 "unit result"                                  \<comment> \<open>channel, value\<close>
  | RetRecv u64 "u64 result"
  | RetClose "unit result"
  | RetSelect "select_op list" "(nat \<times> errno \<times> u64) result"

text \<open>What one step shows: the transfers made and the call that returned.\<close>

type_synonym channel_event = "transfer list \<times> (u64 \<times> channel_ret) option"

datatype channel_move =
    DoSend u64 u64 u64 wait_env | DoTrySend u64 u64 u64 | DoRecv u64 u64 wait_env | DoTryRecv u64 u64 | DoClose u64 u64 "unit result"
  | DoSelect u64 "select_op list" u64 u64                          \<comment> \<open>task, operations, deadline, request deadline\<close>
  | Continue u64 wait_env                                          \<comment> \<open>the next step of a call\<close>
  | FailSetup u64 errno                                            \<comment> \<open>publishing the wait or setting up a timer fails\<close>
  | Resolve u64 errno                                              \<comment> \<open>timeout or cancellation of a plain wait\<close>
  | AbortSelect u64 errno                                          \<comment> \<open>timeout or cancellation of a select\<close>
  | AbortNext u64

definition scan_index :: "nat \<Rightarrow> nat \<Rightarrow> nat \<Rightarrow> nat" where
  "scan_index count start i = (if start + i \<ge> count then start + i - count else start + i)"

definition scan_next :: "nat \<Rightarrow> (nat \<Rightarrow> nat \<Rightarrow> channel_pc) \<Rightarrow> nat \<Rightarrow> nat \<Rightarrow> channel_pc" where
  "scan_next count place start i = (if Suc i < count then place start (Suc i) else SelectEnter start)"

definition select_start :: "nat \<Rightarrow> nat \<Rightarrow> channel_pc" where
  "select_start count start = (if count \<le> LLAM_CHANNEL_SELECT_INLINE_OPS then SelectProbe start 0 else SelectScan start 0)"

definition selected :: "u64 \<Rightarrow> nat \<Rightarrow> try_result \<Rightarrow> channel_system \<Rightarrow> channel_event \<times> channel_system" where
  "selected t index r s =
     (case r of TrySelected e value \<Rightarrow>
        ((try_transfers t (cs_ops s t ! index) r, Some (t, RetSelect (cs_ops s t) (Inr (index, e, value)))), at_pc t ChIdle s)
      | _ \<Rightarrow> (([], None), s))"

text \<open>The steps of a select that scans.\<close>

definition select_return :: "u64 \<Rightarrow> errno \<Rightarrow> channel_system \<Rightarrow> channel_event \<times> channel_system" where
  "select_return t e s = (([], Some (t, RetSelect (cs_ops s t) (Inl e))), at_pc t ChIdle s)"

definition goto :: "u64 \<Rightarrow> channel_pc \<Rightarrow> channel_system \<Rightarrow> channel_event \<times> channel_system" where
  "goto t pc s = (([], None), at_pc t pc s)"

definition select_expired :: "wait_env \<Rightarrow> u64 \<Rightarrow> bool" where
  "select_expired env deadline \<longleftrightarrow> deadline = 0 \<or> (deadline \<noteq> UINT64_MAX \<and> we_passed env)"

definition select_probe :: "wait_env \<Rightarrow> u64 \<Rightarrow> nat \<Rightarrow> nat \<Rightarrow> channel_system \<Rightarrow> channel_event \<times> channel_system" where
  "select_probe env t start i s =
     (let ops = cs_ops s t; count = length ops; index = scan_index count start i; pair = (count = 2 \<and> start = 0 \<and> i = 0) in
      if pair \<and> so_channel (ops ! 0) = so_channel (ops ! 1) then goto t (SelectScan start 0) s
      else case llam_channel_select_try_one_locked (ops ! index) s of
        (TryFallback, s) \<Rightarrow> goto t (SelectScan start 0) s
      | (TryNotReady, s) \<Rightarrow> goto t (if pair \<and> cs_deadline s t \<noteq> 0 \<and> we_prepare env then SelectPair else scan_next count SelectProbe start i) s
      | (r, s) \<Rightarrow> selected t index r s)"

definition llam_channel_select_prepare_pair :: "wait_env \<Rightarrow> u64 \<Rightarrow> channel_system \<Rightarrow> channel_event \<times> channel_system" where
  "llam_channel_select_prepare_pair env t s =
     (case llam_channel_select_try_one_locked (cs_ops s t ! 0) s of
        (TryFallback, s) \<Rightarrow> goto t (SelectScan 0 0) s
      | (TryNotReady, s) \<Rightarrow>
          (case llam_channel_select_try_one_locked (cs_ops s t ! 1) s of
             (TryFallback, s) \<Rightarrow> goto t (SelectScan 0 0) s
           | (TryNotReady, s) \<Rightarrow> if select_expired env (cs_deadline s t) then select_return t ETIMEDOUT s
                               else goto t SelectSetup (llam_channel_select_enqueue_nodes_locked t s)
           | (r, s) \<Rightarrow> selected t 1 r s)
      | (r, s) \<Rightarrow> selected t 0 r s)"

definition select_scan :: "u64 \<Rightarrow> nat \<Rightarrow> nat \<Rightarrow> channel_system \<Rightarrow> channel_event \<times> channel_system" where
  "select_scan t start i s =
     (let count = length (cs_ops s t); index = scan_index count start i in
      case llam_channel_select_try_one_locked (cs_ops s t ! index) s of
        (TryFallback, s) \<Rightarrow> goto t (SelectPeer start i) s
      | (TryNotReady, s) \<Rightarrow> goto t (scan_next count SelectScan start i) s
      | (r, s) \<Rightarrow> selected t index r s)"

definition select_peer :: "u64 \<Rightarrow> nat \<Rightarrow> nat \<Rightarrow> channel_system \<Rightarrow> channel_event \<times> channel_system" where
  "select_peer t start i s =
     (let count = length (cs_ops s t); index = scan_index count start i in
      case llam_channel_select_try_one t (cs_ops s t ! index) s of (transfers, r, s) \<Rightarrow>
        (case r of
           Inl e \<Rightarrow> ((transfers, Some (t, RetSelect (cs_ops s t) (Inl e))), at_pc t ChIdle s)
         | Inr (TrySelected e value) \<Rightarrow> ((transfers, Some (t, RetSelect (cs_ops s t) (Inr (index, e, value)))), at_pc t ChIdle s)
         | Inr _ \<Rightarrow> ((transfers, None), at_pc t (scan_next count SelectScan start i) s)))"

definition select_enter :: "wait_env \<Rightarrow> u64 \<Rightarrow> nat \<Rightarrow> channel_system \<Rightarrow> channel_event \<times> channel_system" where
  "select_enter env t start s =
     (if select_expired env (cs_deadline s t) then select_return t ETIMEDOUT s
      else if \<not> we_node_ok env then select_return t ENOMEM s
      else if llam_channel_select_any_ready_locked (cs_ops s t) s
      then goto t (select_start (length (cs_ops s t)) ((start + 1) mod length (cs_ops s t))) s
      else goto t SelectSetup (llam_channel_select_enqueue_nodes_locked t s))"

text \<open>The steps of a select that waits. A task that reads the completion word while it is being written reads again: no step.\<close>

definition set_parked :: "u64 \<Rightarrow> bool \<Rightarrow> channel_system \<Rightarrow> channel_system" where
  "set_parked t b s = s\<lparr>cs_parked := (cs_parked s)(t := b)\<rparr>"

definition select_park :: "u64 \<Rightarrow> channel_system \<Rightarrow> channel_event \<times> channel_system" where
  "select_park t s =
     (case llam_channel_select_arm_wait (cs_select s t) of (completed, st) \<Rightarrow>
        (let s = s\<lparr>cs_select := (cs_select s)(t := st)\<rparr> in
         if completed = SelectArmed \<or> completed = SelectQueued then goto t SelectParked s else goto t SelectFinishing (set_parked t False s)))"

definition select_finish :: "u64 \<Rightarrow> channel_system \<Rightarrow> channel_event \<times> channel_system" where
  "select_finish t s =
     (let s = llam_channel_select_cleanup_nodes t s; st = cs_select s t;
          s = (case ss_selected st of Some i \<Rightarrow> llam_channel_waiter_consumed (so_channel (cs_ops s t ! i)) s | None \<Rightarrow> s)
      in (([], Some (t, RetSelect (cs_ops s t) (llam_channel_select_finish (cs_ops s t) st))), at_pc t ChIdle s))"

definition select_give_up :: "u64 \<Rightarrow> channel_pc \<Rightarrow> channel_system \<Rightarrow> (channel_event \<times> channel_system) option" where
  "select_give_up t pc s =
     (case ss_completed (cs_select s t) of SelectCompleting \<Rightarrow> None | SelectPending \<Rightarrow> Some (goto t pc s) | _ \<Rightarrow> Some (goto t SelectReady s))"

fun channel_continue :: "wait_env \<Rightarrow> u64 \<Rightarrow> channel_pc \<Rightarrow> channel_system \<Rightarrow> (channel_event \<times> channel_system) option" where
  "channel_continue env t ChIdle s = None"
| "channel_continue env t (SendWaiting c value) s =
     (if cs_woken s t then case finish_wait t c s of (r, s) \<Rightarrow> Some (([], Some (t, RetSend c value (map_sum id (\<lambda>_. ()) r))), s) else None)"
| "channel_continue env t (SendLeaving c value e) s =
     (case leave_queue SelectSend c t s of (removed, s) \<Rightarrow>
        Some (if removed then (([], Some (t, RetSend c value (Inl e))), at_pc t ChIdle s) else goto t (SendWaiting c value) s))"
| "channel_continue env t (RecvWaiting c) s =
     (if cs_woken s t then case finish_wait t c s of (r, s) \<Rightarrow> Some (([], Some (t, RetRecv c r)), s) else None)"
| "channel_continue env t (RecvLeaving c e) s =
     (case leave_queue SelectRecv c t s of (removed, s) \<Rightarrow>
        Some (if removed then (([], Some (t, RetRecv c (Inl e))), at_pc t ChIdle s) else goto t (RecvWaiting c) s))"
| "channel_continue env t (SelectProbe start i) s = Some (select_probe env t start i s)"
| "channel_continue env t SelectPair s = Some (llam_channel_select_prepare_pair env t s)"
| "channel_continue env t (SelectScan start i) s = Some (select_scan t start i s)"
| "channel_continue env t (SelectPeer start i) s = Some (select_peer t start i s)"
| "channel_continue env t (SelectEnter start) s = Some (select_enter env t start s)"
| "channel_continue env t SelectSetup s = Some (goto t SelectTracked (set_parked t True s))"
| "channel_continue env t SelectTracked s = Some (goto t SelectReady s)"
| "channel_continue env t (SelectLeaving e) s = Some (goto t (SelectLeft e) (llam_channel_select_cleanup_nodes t s))"
| "channel_continue env t (SelectLeft e) s =
     (case ss_completed (cs_select s t) of
        SelectCompleting \<Rightarrow> None | SelectPending \<Rightarrow> Some (select_return t e (set_parked t False s)) | _ \<Rightarrow> Some (goto t SelectReady s))"
| "channel_continue env t SelectReady s = (if ss_completed (cs_select s t) = SelectCompleting then None else Some (select_park t s))"
| "channel_continue env t SelectParked s = (if cs_woken s t then Some (goto t SelectFinishing (set_parked t False s)) else None)"
| "channel_continue env t SelectFinishing s = Some (select_finish t s)"

fun fail_setup :: "u64 \<Rightarrow> errno \<Rightarrow> channel_pc \<Rightarrow> channel_system \<Rightarrow> (channel_event \<times> channel_system) option" where
  "fail_setup t e (SendWaiting c value) s = Some (goto t (if cs_woken s t then SendWaiting c value else SendLeaving c value e) s)"
| "fail_setup t e (RecvWaiting c) s = Some (goto t (if cs_woken s t then RecvWaiting c else RecvLeaving c e) s)"
| "fail_setup t e SelectSetup s = select_give_up t (SelectLeaving e) s"
| "fail_setup t e SelectTracked s = select_give_up t (SelectLeaving e) s"
| "fail_setup t e _ s = None"

fun resolve :: "u64 \<Rightarrow> errno \<Rightarrow> channel_pc \<Rightarrow> channel_system \<Rightarrow> channel_system option" where
  "resolve t e (SendWaiting c value) s = Some (resolve_wait SelectSend c t e s)"
| "resolve t e (SendLeaving c value _) s = Some (resolve_wait SelectSend c t e s)"
| "resolve t e (RecvWaiting c) s = Some (resolve_wait SelectRecv c t e s)"
| "resolve t e (RecvLeaving c _) s = Some (resolve_wait SelectRecv c t e s)"
| "resolve t e _ s = None"

definition tracked :: "channel_pc \<Rightarrow> bool" where
  "tracked pc \<longleftrightarrow> (case pc of SelectTracked \<Rightarrow> True | SelectLeaving _ \<Rightarrow> True | SelectLeft _ \<Rightarrow> True | SelectReady \<Rightarrow> True | SelectParked \<Rightarrow> True | _ \<Rightarrow> False)"

definition returning :: "u64 \<Rightarrow> ('a \<Rightarrow> channel_ret) \<Rightarrow> transfer list \<times> 'a option \<times> channel_system \<Rightarrow> channel_event \<times> channel_system" where
  "returning t ret x = (case x of (transfers, r, s) \<Rightarrow> ((transfers, map_option (\<lambda>r. (t, ret r)) r), s))"

fun move_channels :: "channel_move \<Rightarrow> channel_system \<Rightarrow> (channel_event \<times> channel_system) option" where
  "move_channels (DoSend t c value env) s =
     (if cs_pc s t = ChIdle then Some (returning t (RetSend c value) (llam_channel_send_impl env t c value s)) else None)"
| "move_channels (DoTrySend t c value) s =
     (if cs_pc s t = ChIdle then case llam_channel_try_send t c value s of (transfers, r, s) \<Rightarrow> Some ((transfers, Some (t, RetSend c value r)), s) else None)"
| "move_channels (DoRecv t c env) s =
     (if cs_pc s t = ChIdle then Some (returning t (RetRecv c) (llam_channel_recv_result_impl env t c s)) else None)"
| "move_channels (DoTryRecv t c) s =
     (if cs_pc s t = ChIdle then case llam_channel_try_recv_result True t c s of (transfers, r, s) \<Rightarrow> Some ((transfers, Some (t, RetRecv c r)), s) else None)"
| "move_channels (DoClose t c pin) s =
     (if cs_pc s t = ChIdle then case llam_channel_close pin c s of (r, s) \<Rightarrow> Some (([], Some (t, RetClose r)), s) else None)"
| "move_channels (DoSelect t ops deadline_ns budget) s =
     (if cs_pc s t \<noteq> ChIdle then None
      else if ops = [] \<or> LLAM_CHANNEL_SELECT_MAX_OPS < length ops then Some (([], Some (t, RetSelect ops (Inl EINVAL))), s)
      else Some (goto t (select_start (length ops) 0)
        (s\<lparr>cs_ops := (cs_ops s)(t := ops), cs_deadline := (cs_deadline s)(t := select_deadline budget deadline_ns)\<rparr>)))"
| "move_channels (Continue t env) s = channel_continue env t (cs_pc s t) s"
| "move_channels (FailSetup t e) s = fail_setup t e (cs_pc s t) s"
| "move_channels (Resolve t e) s = (if e = E_OK then None else map_option (\<lambda>s. (([], None), s)) (resolve t e (cs_pc s t) s))"
| "move_channels (AbortSelect t e) s = (if e \<noteq> E_OK \<and> tracked (cs_pc s t) then Some (([], None), abort_claim t e s) else None)"
| "move_channels (AbortNext t) s =
     (case cs_abort s t of
        AbortIdle \<Rightarrow> None
      | AbortCleanup e armed \<Rightarrow>
          Some (([], None), (llam_channel_select_cleanup_nodes t s)\<lparr>cs_abort := (cs_abort s)(t := AbortPublish e armed)\<rparr>)
      | AbortPublish e armed \<Rightarrow> Some (([], None), abort_publish t armed s))"

fun channel_run :: "channel_move list \<Rightarrow> channel_system \<Rightarrow> (channel_event list \<times> channel_system) option" where
  "channel_run [] s = Some ([], s)"
| "channel_run (m # ms) s = (case move_channels m s of None \<Rightarrow> None
     | Some (e, s1) \<Rightarrow> map_option (\<lambda>(es, s2). (e # es, s2)) (channel_run ms s1))"

text \<open>Channels just created and nobody using them.\<close>

definition fresh_channels :: "channel_system \<Rightarrow> bool" where
  "fresh_channels s \<longleftrightarrow> (\<forall>c. empty_channel (cs_channel s c)) \<and> (\<forall>t. cs_pc s t = ChIdle \<and> cs_abort s t = AbortIdle)"

section \<open>Histories\<close>

text \<open>What a bounded first-in first-out channel allows, and the values one channel transferred.\<close>

fun fifo :: "nat \<Rightarrow> (select_kind \<times> u64) list \<Rightarrow> u64 list \<Rightarrow> u64 list option" where
  "fifo cap [] q = Some q"
| "fifo cap ((SelectSend, v) # xs) q = (if length q < cap then fifo cap xs (q @ [v]) else None)"
| "fifo cap ((SelectRecv, v) # xs) q = (case q of [] \<Rightarrow> None | w # q \<Rightarrow> if w = v then fifo cap xs q else None)"

definition through :: "u64 \<Rightarrow> transfer list \<Rightarrow> (select_kind \<times> u64) list" where
  "through c ts = map (\<lambda>tr. case tr of Transfer t k d v \<Rightarrow> (k, v)) (filter (\<lambda>tr. case tr of Transfer t k d v \<Rightarrow> d = c) ts)"

text \<open>The transfers one task made, and those its calls reported.\<close>

definition made_by :: "u64 \<Rightarrow> transfer list \<Rightarrow> transfer list" where
  "made_by t ts = filter (\<lambda>tr. case tr of Transfer u k d v \<Rightarrow> u = t) ts"

fun reported :: "u64 \<Rightarrow> channel_ret \<Rightarrow> transfer list" where
  "reported t (RetSend c v (Inr _)) = [Transfer t SelectSend c v]"
| "reported t (RetRecv c (Inr v)) = [Transfer t SelectRecv c v]"
| "reported t (RetSelect ops (Inr (i, e, v))) =
     (if e = E_OK then [Transfer t (so_kind (ops ! i)) (so_channel (ops ! i)) (case so_kind (ops ! i) of SelectRecv \<Rightarrow> v | SelectSend \<Rightarrow> so_value (ops ! i))]
      else [])"
| "reported t _ = []"

definition reports :: "u64 \<Rightarrow> channel_event \<Rightarrow> transfer list" where
  "reports t e = (case snd e of Some (u, r) \<Rightarrow> if u = t then reported t r else [] | None \<Rightarrow> [])"

section \<open>The invariant of waiting tasks\<close>

definition plain_op :: "channel_pc \<Rightarrow> (select_kind \<times> u64 \<times> u64) option" where
  "plain_op pc = (case pc of SendWaiting c v \<Rightarrow> Some (SelectSend, c, v) | SendLeaving c v e \<Rightarrow> Some (SelectSend, c, v)
     | RecvWaiting c \<Rightarrow> Some (SelectRecv, c, 0) | RecvLeaving c e \<Rightarrow> Some (SelectRecv, c, 0) | _ \<Rightarrow> None)"

definition selecting :: "channel_pc \<Rightarrow> bool" where
  "selecting pc \<longleftrightarrow> (case pc of SelectSetup \<Rightarrow> True | SelectTracked \<Rightarrow> True | SelectLeaving e \<Rightarrow> True | SelectLeft e \<Rightarrow> True
     | SelectReady \<Rightarrow> True | SelectParked \<Rightarrow> True | SelectFinishing \<Rightarrow> True | _ \<Rightarrow> False)"

definition has_left :: "channel_pc \<Rightarrow> bool" where
  "has_left pc \<longleftrightarrow> (case pc of SelectLeft e \<Rightarrow> True | _ \<Rightarrow> False)"

text \<open>The queues a node is on.\<close>

definition on :: "channel_system \<Rightarrow> waiter \<Rightarrow> (select_kind \<times> u64) set" where
  "on s n = {(k, c). n \<in> set (waiters k (cs_channel s c))}"

definition op_place :: "select_op \<Rightarrow> select_kind \<times> u64" where
  "op_place op = (so_kind op, so_channel op)"

text \<open>The parameter \<open>wk\<close> says which tasks are woken, or will be at the end of the step under way.\<close>

definition plain_ok :: "(u64 \<Rightarrow> bool) \<Rightarrow> channel_system \<Rightarrow> u64 \<Rightarrow> bool" where
  "plain_ok wk s t \<longleftrightarrow>
     on s (PlainNode t) = (case plain_op (cs_pc s t) of None \<Rightarrow> {} | Some (k, c, v) \<Rightarrow> if wk t then {} else {(k, c)}) \<and>
     (\<forall>c v. plain_op (cs_pc s t) = Some (SelectSend, c, v) \<longrightarrow> wn_value (cs_node s (PlainNode t)) = v)"

definition phase_ok :: "bool \<Rightarrow> channel_pc \<Rightarrow> bool \<Rightarrow> abort_pc \<Rightarrow> select_phase \<Rightarrow> bool" where
  "phase_ok woken pc parked ab ph \<longleftrightarrow>
     (woken \<longleftrightarrow> ph = SelectQueued) \<and> (pc = SelectParked \<longrightarrow> parked) \<and>
     (case ph of
        SelectPending \<Rightarrow> ab = AbortIdle \<and> pc \<noteq> SelectParked \<and> pc \<noteq> SelectFinishing \<and> (pc = SelectTracked \<or> pc = SelectReady \<longrightarrow> parked)
      | SelectArmed \<Rightarrow> ab = AbortIdle \<and> pc = SelectParked
      | SelectCompleting \<Rightarrow> pc \<noteq> SelectFinishing \<and> (\<exists>e. ab = AbortCleanup e (pc = SelectParked) \<or> ab = AbortPublish e (pc = SelectParked))
      | SelectInline \<Rightarrow> ab = AbortIdle \<and> pc \<noteq> SelectParked
      | SelectQueued \<Rightarrow> ab = AbortIdle \<and> (pc = SelectParked \<or> pc = SelectFinishing))"

definition open_phase :: "select_phase \<Rightarrow> bool" where
  "open_phase ph \<longleftrightarrow> ph = SelectPending \<or> ph = SelectArmed"

definition result_ok :: "select_op list \<Rightarrow> select_state \<Rightarrow> bool" where
  "result_ok ops st \<longleftrightarrow> (ss_completed st = SelectCompleting \<longrightarrow> ss_selected st = None) \<and> (\<forall>i. ss_selected st = Some i \<and> ss_error st = E_OK \<and> (ss_completed st = SelectInline \<or> ss_completed st = SelectQueued) \<longrightarrow>
     i < length ops \<and> (so_kind (ops ! i) = SelectSend \<longrightarrow> ss_value st = so_value (ops ! i)))"

definition allowed :: "select_op list \<Rightarrow> nat \<Rightarrow> (select_kind \<times> u64) set" where
  "allowed ops i = (if i < length ops then {op_place (ops ! i)} else {})"

definition select_ok :: "(u64 \<Rightarrow> bool) \<Rightarrow> channel_system \<Rightarrow> u64 \<Rightarrow> bool" where
  "select_ok wk s t \<longleftrightarrow>
     (if selecting (cs_pc s t) then
        (\<forall>i. on s (SelectNode t i) \<subseteq> allowed (cs_ops s t) i) \<and>
        (\<forall>i < length (cs_ops s t). on s (SelectNode t i) \<noteq> {} \<and> so_kind (cs_ops s t ! i) = SelectSend \<longrightarrow>
           wn_value (cs_node s (SelectNode t i)) = so_value (cs_ops s t ! i)) \<and>
        (open_phase (ss_completed (cs_select s t)) \<and> \<not> has_left (cs_pc s t) \<longrightarrow>
           (\<forall>i < length (cs_ops s t). on s (SelectNode t i) = {op_place (cs_ops s t ! i)})) \<and>
        phase_ok (wk t) (cs_pc s t) (cs_parked s t) (cs_abort s t) (ss_completed (cs_select s t)) \<and>
        result_ok (cs_ops s t) (cs_select s t) \<and> (has_left (cs_pc s t) \<longrightarrow> (\<forall>i. on s (SelectNode t i) = {}))
      else (\<forall>i. on s (SelectNode t i) = {}) \<and> cs_abort s t = AbortIdle)"

definition wait_inv :: "(u64 \<Rightarrow> bool) \<Rightarrow> channel_system \<Rightarrow> bool" where
  "wait_inv wk s \<longleftrightarrow> (\<forall>t. plain_ok wk s t \<and> select_ok wk s t) \<and> (\<forall>k c. distinct (waiters k (cs_channel s c)))"

lemma select_okI:
  assumes "selecting (cs_pc s t)" "\<And>i. on s (SelectNode t i) \<subseteq> allowed (cs_ops s t) i"
    and "\<And>i. i < length (cs_ops s t) \<Longrightarrow> on s (SelectNode t i) \<noteq> {} \<Longrightarrow> so_kind (cs_ops s t ! i) = SelectSend \<Longrightarrow>
      wn_value (cs_node s (SelectNode t i)) = so_value (cs_ops s t ! i)"
    and "\<And>i. open_phase (ss_completed (cs_select s t)) \<Longrightarrow> \<not> has_left (cs_pc s t) \<Longrightarrow> i < length (cs_ops s t) \<Longrightarrow>
      on s (SelectNode t i) = {op_place (cs_ops s t ! i)}"
    and "phase_ok (wk t) (cs_pc s t) (cs_parked s t) (cs_abort s t) (ss_completed (cs_select s t))" "result_ok (cs_ops s t) (cs_select s t)"
    and "\<And>i. has_left (cs_pc s t) \<Longrightarrow> on s (SelectNode t i) = {}"
  shows "select_ok wk s t"
  using assms unfolding select_ok_def by simp

lemma select_okD:
  assumes "select_ok wk s t" "selecting (cs_pc s t)"
  shows "on s (SelectNode t i) \<subseteq> allowed (cs_ops s t) i"
    and "i < length (cs_ops s t) \<Longrightarrow> on s (SelectNode t i) \<noteq> {} \<Longrightarrow> so_kind (cs_ops s t ! i) = SelectSend \<Longrightarrow>
      wn_value (cs_node s (SelectNode t i)) = so_value (cs_ops s t ! i)"
    and "open_phase (ss_completed (cs_select s t)) \<Longrightarrow> \<not> has_left (cs_pc s t) \<Longrightarrow> i < length (cs_ops s t) \<Longrightarrow>
      on s (SelectNode t i) = {op_place (cs_ops s t ! i)}"
    and "phase_ok (wk t) (cs_pc s t) (cs_parked s t) (cs_abort s t) (ss_completed (cs_select s t))" "result_ok (cs_ops s t) (cs_select s t)"
    and "has_left (cs_pc s t) \<Longrightarrow> on s (SelectNode t i) = {}"
  using assms unfolding select_ok_def by simp_all

lemma select_ok_outside: "\<not> selecting (cs_pc s t) \<Longrightarrow> select_ok wk s t \<longleftrightarrow> (\<forall>i. on s (SelectNode t i) = {}) \<and> cs_abort s t = AbortIdle"
  by (simp add: select_ok_def)

text \<open>The transfer that was made for a task's call and that the call has still to report.\<close>

definition pend :: "(u64 \<Rightarrow> bool) \<Rightarrow> channel_system \<Rightarrow> u64 \<Rightarrow> transfer list" where
  "pend wk s t =
     (case plain_op (cs_pc s t) of
        Some (k, c, v) \<Rightarrow> if wk t \<and> wn_error_code (cs_node s (PlainNode t)) = E_OK then [Transfer t k c (wn_value (cs_node s (PlainNode t)))] else []
      | None \<Rightarrow>
          if selecting (cs_pc s t) \<and> (ss_completed (cs_select s t) = SelectInline \<or> ss_completed (cs_select s t) = SelectQueued) \<and> ss_error (cs_select s t) = E_OK
          then case ss_selected (cs_select s t) of Some i \<Rightarrow> [Transfer t (so_kind (cs_ops s t ! i)) (so_channel (cs_ops s t ! i)) (ss_value (cs_select s t))] | None \<Rightarrow> []
          else [])"

text \<open>A step leaves everything that concerns a task as it was.\<close>

definition untouched :: "(u64 \<Rightarrow> bool) \<Rightarrow> channel_system \<Rightarrow> (u64 \<Rightarrow> bool) \<Rightarrow> channel_system \<Rightarrow> u64 \<Rightarrow> bool" where
  "untouched wk s wk' s' t \<longleftrightarrow> wk' t = wk t \<and> cs_pc s' t = cs_pc s t \<and> cs_ops s' t = cs_ops s t \<and> cs_select s' t = cs_select s t \<and>
     cs_parked s' t = cs_parked s t \<and> cs_abort s' t = cs_abort s t \<and>
     (\<forall>n. waiter_task n = t \<longrightarrow> on s' n = on s n \<and> cs_node s' n = cs_node s n)"

lemma untouched_keeps:
  assumes "untouched wk s wk' s' t"
  shows "plain_ok wk' s' t = plain_ok wk s t" "select_ok wk' s' t = select_ok wk s t" "pend wk' s' t = pend wk s t"
proof -
  have e: "wk' t = wk t" "cs_pc s' t = cs_pc s t" "cs_ops s' t = cs_ops s t" "cs_select s' t = cs_select s t"
    "cs_parked s' t = cs_parked s t" "cs_abort s' t = cs_abort s t"
    and n: "on s' (PlainNode t) = on s (PlainNode t)" "cs_node s' (PlainNode t) = cs_node s (PlainNode t)"
    "\<And>i. on s' (SelectNode t i) = on s (SelectNode t i)" "\<And>i. cs_node s' (SelectNode t i) = cs_node s (SelectNode t i)"
    using assms by (simp_all add: untouched_def)
  show "plain_ok wk' s' t = plain_ok wk s t" unfolding plain_ok_def e n ..
  show "select_ok wk' s' t = select_ok wk s t" unfolding select_ok_def e n ..
  show "pend wk' s' t = pend wk s t" unfolding pend_def e n ..
qed

lemma wait_inv_at:
  assumes "wait_inv wk s" "\<And>u. u \<noteq> t \<Longrightarrow> untouched wk s wk' s' u" "\<And>k c. distinct (waiters k (cs_channel s' c))" "plain_ok wk' s' t" "select_ok wk' s' t"
  shows "wait_inv wk' s'"
  unfolding wait_inv_def
proof (intro conjI allI)
  show "distinct (waiters k (cs_channel s' c))" for k c by (rule assms(3))
  show "plain_ok wk' s' u" "select_ok wk' s' u" for u
    using assms(1,2,4,5) untouched_keeps [of wk s wk' s' u] by (cases "u = t"; simp add: wait_inv_def)+
qed

lemma wait_invD: "wait_inv wk s \<Longrightarrow> plain_ok wk s t" "wait_inv wk s \<Longrightarrow> select_ok wk s t" "wait_inv wk s \<Longrightarrow> distinct (waiters k (cs_channel s c))"
  by (simp_all add: wait_inv_def)

text \<open>Updates of the queues.\<close>

lemma waiters_set [simp]: "waiters k (set_waiters k' ns ch) = (if k = k' then ns else waiters k ch)"
  by (cases k; cases k') simp_all

lemma on_set: "on (at_channel c (set_waiters k ns) s) n = (if n \<in> set ns then insert (k, c) (on s n) else on s n - {(k, c)})"
  by (auto simp: on_def at_channel_def split: if_splits)

lemma on_update: "on (at_channel c (\<lambda>ch. set_waiters k (f ch) ch) s) n = on (at_channel c (set_waiters k (f (cs_channel s c))) s) n"
  by (simp add: on_def at_channel_def)

lemma on_fields [simp]:
  "on (s\<lparr>cs_node := a\<rparr>) = on s" "on (s\<lparr>cs_select := b\<rparr>) = on s" "on (s\<lparr>cs_ops := c\<rparr>) = on s" "on (s\<lparr>cs_deadline := d\<rparr>) = on s"
  "on (s\<lparr>cs_parked := e\<rparr>) = on s" "on (s\<lparr>cs_woken := f\<rparr>) = on s" "on (s\<lparr>cs_pc := g\<rparr>) = on s" "on (s\<lparr>cs_abort := h\<rparr>) = on s"
  by (simp_all add: on_def fun_eq_iff)

lemma on_cong: "cs_channel s' = cs_channel s \<Longrightarrow> on s' = on s"
  by (simp add: on_def fun_eq_iff)

lemma on_same: "(\<And>k c. waiters k (cs_channel s' c) = waiters k (cs_channel s c)) \<Longrightarrow> on s' = on s"
  by (simp add: on_def fun_eq_iff)

lemma on_channel:
  assumes "cs_channel s' = (cs_channel s)(c := ch)" "\<And>k'. waiters k' ch = (if k' = k then ns else waiters k' (cs_channel s c))"
  shows "on s' n = (if n \<in> set ns then insert (k, c) (on s n) else on s n - {(k, c)})"
  unfolding on_def assms(1) by (auto simp: assms(2) split: if_splits)

lemma waiters_inflight [simp]: "waiters k (ch\<lparr>ch_inflight := fl\<rparr>) = waiters k ch"
  by (cases k) simp_all

text \<open>A step that takes the first waiter off a queue, perhaps counting it.\<close>

definition takes_first :: "select_kind \<Rightarrow> u64 \<Rightarrow> waiter \<Rightarrow> waiter list \<Rightarrow> channel_system \<Rightarrow> channel_system \<Rightarrow> bool" where
  "takes_first k c n rest s s' \<longleftrightarrow> waiters k (cs_channel s c) = n # rest \<and>
     (\<exists>fl. cs_channel s' = (cs_channel s)(c := (set_waiters k rest (cs_channel s c))\<lparr>ch_inflight := fl\<rparr>))"

lemma takes_first_on:
  assumes "takes_first k c n rest s s'" "wait_inv wk s"
  shows "on s' m = (if m = n then on s m - {(k, c)} else on s m)" "(k, c) \<in> on s n" "distinct (waiters k' (cs_channel s' c'))"
proof -
  obtain fl where q: "waiters k (cs_channel s c) = n # rest" "cs_channel s' = (cs_channel s)(c := (set_waiters k rest (cs_channel s c))\<lparr>ch_inflight := fl\<rparr>)"
    using assms(1) by (auto simp: takes_first_def)
  have d: "distinct (waiters k (cs_channel s c))" "distinct (waiters k' (cs_channel s c'))" using assms(2) by (simp_all add: wait_inv_def)
  show "(k, c) \<in> on s n" using q(1) by (simp add: on_def)
  have "on s' m = (if m \<in> set rest then insert (k, c) (on s m) else on s m - {(k, c)})" by (rule on_channel [OF q(2)]) simp
  moreover have "m \<in> set rest \<Longrightarrow> (k, c) \<in> on s m" "m \<noteq> n \<Longrightarrow> m \<notin> set rest \<Longrightarrow> (k, c) \<notin> on s m" using q(1) by (auto simp: on_def)
  moreover have "n \<notin> set rest" using d(1) q(1) by simp
  ultimately show "on s' m = (if m = n then on s m - {(k, c)} else on s m)" by auto
  show "distinct (waiters k' (cs_channel s' c'))" using d q by (cases "c' = c"; cases "k' = k") auto
qed

lemma queued_plain:
  assumes "wait_inv wk s" "(k, c) \<in> on s (PlainNode t)"
  shows "\<exists>v. plain_op (cs_pc s t) = Some (k, c, v)" "\<not> wk t" "on s (PlainNode t) = {(k, c)}"
  using wait_invD(1) [OF assms(1), of t] assms(2) by (auto simp: plain_ok_def split: option.splits if_splits)

lemma queued_select:
  assumes "wait_inv wk s" "(k, c) \<in> on s (SelectNode t i)"
  shows "selecting (cs_pc s t)" "i < length (cs_ops s t)" "op_place (cs_ops s t ! i) = (k, c)" "on s (SelectNode t i) = {(k, c)}"
    "k = SelectSend \<Longrightarrow> wn_value (cs_node s (SelectNode t i)) = so_value (cs_ops s t ! i)"
proof -
  note ok = wait_invD(2) [OF assms(1), of t]
  show sel: "selecting (cs_pc s t)" using ok assms(2) by (metis empty_iff select_ok_outside)
  note sub = select_okD(1) [OF ok sel, of i]
  show i: "i < length (cs_ops s t)" using sub assms(2) by (auto simp: allowed_def split: if_splits)
  show p: "op_place (cs_ops s t ! i) = (k, c)" using sub assms(2) i by (auto simp: allowed_def)
  show "on s (SelectNode t i) = {(k, c)}" using sub assms(2) i p by (auto simp: allowed_def)
  show "wn_value (cs_node s (SelectNode t i)) = so_value (cs_ops s t ! i)" if "k = SelectSend"
    using select_okD(2) [OF ok sel i] assms(2) p that by (auto simp: op_place_def)
qed

text \<open>Fields that completing a waiter leaves alone.\<close>

definition framed :: "channel_system \<Rightarrow> channel_system \<Rightarrow> bool" where
  "framed s s' \<longleftrightarrow> cs_pc s' = cs_pc s \<and> cs_ops s' = cs_ops s \<and> cs_parked s' = cs_parked s \<and> cs_abort s' = cs_abort s \<and> cs_woken s' = cs_woken s"

lemma framed_refl: "framed s s" and framed_trans: "framed a b \<Longrightarrow> framed b c \<Longrightarrow> framed a c"
  by (simp_all add: framed_def)

lemma framedD:
  assumes "framed s s'"
  shows "cs_pc s' = cs_pc s" "cs_ops s' = cs_ops s" "cs_parked s' = cs_parked s" "cs_abort s' = cs_abort s" "cs_woken s' = cs_woken s"
  using assms by (simp_all add: framed_def)

lemma drop_lost:
  assumes inv: "wait_inv wk s" and take: "takes_first k c (SelectNode t i) rest s s'" and f: "framed s s'" "cs_node s' = cs_node s" "cs_select s' = cs_select s"
    and lost: "\<not> open_phase (ss_completed (cs_select s t))"
  shows "wait_inv wk s'" "pend wk s' = pend wk s"
proof -
  note on = takes_first_on(1) [OF take inv]
  have u: "untouched wk s wk s' u" if "u \<noteq> t" for u
    using f that on by (auto simp: untouched_def framed_def)
  note old = wait_invD(1,2) [OF inv, of t]
  show "wait_inv wk s'"
  proof (rule wait_inv_at [OF inv, where t = t])
    show "plain_ok wk s' t" using old(1) f on by (simp add: plain_ok_def framed_def)
    have sub: "on s' (SelectNode t j) \<subseteq> on s (SelectNode t j)" for j unfolding on by auto
    note sel = queued_select(1) [OF inv takes_first_on(2) [OF take inv]]
    note D = select_okD [OF old(2) sel]
    have eq: "cs_pc s' = cs_pc s" "cs_ops s' = cs_ops s" "cs_parked s' = cs_parked s" "cs_abort s' = cs_abort s" using f(1) by (simp_all add: framed_def)
    show "select_ok wk s' t"
      by (rule select_okI; unfold eq f(2,3)) (use sel sub D lost in \<open>blast+\<close>)
  qed (use u takes_first_on(3) [OF take inv] in auto)
  show "pend wk s' = pend wk s" unfolding fun_eq_iff pend_def framedD [OF f(1)] f(2,3) by simp
qed

lemma selecting_plain: "selecting pc \<Longrightarrow> plain_op pc = None"
  by (cases pc) (simp_all add: selecting_def plain_op_def)

text \<open>A peer completes a select through one of its queued nodes.\<close>

lemma complete_select:
  assumes inv: "wait_inv wk s" and take: "takes_first k c (SelectNode t i) rest s s'" and f: "framed s s'"
    and nodes: "cs_node s' = (cs_node s)(SelectNode t i := nd)" and sel: "cs_select s' = (cs_select s)(t := st)"
    and op: "open_phase (ss_completed (cs_select s t))" and st: "ss_selected st = Some i" "ss_value st = v" "ss_error st = e"
      "ss_completed st = (if ss_completed (cs_select s t) = SelectArmed \<and> cs_parked s t then SelectQueued else SelectInline)"
    and val: "k = SelectSend \<Longrightarrow> e = E_OK \<Longrightarrow> v = wn_value (cs_node s (SelectNode t i))"
    and wk': "wk' = (if ss_completed st = SelectQueued then wk(t := True) else wk)"
  shows "wait_inv wk' s'" "pend wk' s' = (pend wk s)(t := if e = E_OK then [Transfer t k c v] else [])" "pend wk s t = []" "selecting (cs_pc s t)"
proof -
  note on = takes_first_on(1) [OF take inv] and mem = takes_first_on(2) [OF take inv]
  note q = queued_select [OF inv mem] and old = wait_invD(1,2) [OF inv, of t]
  note D = select_okD [OF old(2) q(1)] and F = framedD [OF f] and np = selecting_plain [OF q(1)]
  show "selecting (cs_pc s t)" by (rule q(1))
  have u: "untouched wk s wk' s' u" if "u \<noteq> t" for u
    using that on nodes sel wk' F by (auto simp: untouched_def)
  have phase: "phase_ok (wk' t) (cs_pc s t) (cs_parked s t) (cs_abort s t) (ss_completed st)"
    using D(4) op st(4) wk' by (auto simp: phase_ok_def open_phase_def)
  have closed: "ss_completed st = SelectInline \<or> ss_completed st = SelectQueued" using st(4) by simp
  show "wait_inv wk' s'"
  proof (rule wait_inv_at [OF inv, where t = t])
    show "plain_ok wk' s' t" using old(1) np on F nodes by (simp add: plain_ok_def)
    show "select_ok wk' s' t"
    proof (rule select_okI; unfold F)
      show "on s' (SelectNode t j) \<subseteq> allowed (cs_ops s t) j" for j unfolding on using D(1) by auto
      show "wn_value (cs_node s' (SelectNode t j)) = so_value (cs_ops s t ! j)"
        if "j < length (cs_ops s t)" "on s' (SelectNode t j) \<noteq> {}" "so_kind (cs_ops s t ! j) = SelectSend" for j
        using that D(2) [of j] on q(4) nodes by (cases "j = i") auto
      show "phase_ok (wk' t) (cs_pc s t) (cs_parked s t) (cs_abort s t) (ss_completed (cs_select s' t))" using phase sel by simp
      show "result_ok (cs_ops s t) (cs_select s' t)" using q(2,3,5) val st sel by (auto simp: result_ok_def op_place_def)
      show "on s' (SelectNode t j) = {}" if "has_left (cs_pc s t)" for j using D(6) [OF that] on by simp
    qed (use q(1) sel closed in \<open>auto simp: open_phase_def\<close>)
  qed (use u takes_first_on(3) [OF take inv] in auto)
  show "pend wk s t = []" using np op by (auto simp: pend_def open_phase_def)
  have "pend wk' s' t = (if e = E_OK then [Transfer t k c v] else [])"
    using np F sel st q(1,3) closed by (auto simp: pend_def op_place_def)
  then show "pend wk' s' = (pend wk s)(t := if e = E_OK then [Transfer t k c v] else [])"
    using untouched_keeps(3) [OF u] by (auto simp: fun_eq_iff)
qed

text \<open>A peer, a close or a timer completes a plain waiter.\<close>

lemma complete_plain:
  assumes inv: "wait_inv wk s" and on: "\<And>m. on s' m = (if m = PlainNode t then on s m - {(k, c)} else on s m)" and mem: "(k, c) \<in> on s (PlainNode t)"
    and dist: "\<And>k c. distinct (waiters k (cs_channel s' c))" and f: "framed s s'"
    and nodes: "cs_node s' = (cs_node s)(PlainNode t := nd)" and sel: "cs_select s' = cs_select s"
    and val: "k = SelectSend \<Longrightarrow> wn_value nd = wn_value (cs_node s (PlainNode t))"
  shows "wait_inv (wk(t := True)) s'"
    "pend (wk(t := True)) s' = (pend wk s)(t := if wn_error_code nd = E_OK then [Transfer t k c (wn_value nd)] else [])"
    "pend wk s t = []" "plain_op (cs_pc s t) \<noteq> None"
proof -
  obtain v where v: "plain_op (cs_pc s t) = Some (k, c, v)" using queued_plain(1) [OF inv mem] by blast
  note q = queued_plain(2,3) [OF inv mem] and old = wait_invD(1,2) [OF inv, of t] and F = framedD [OF f]
  show "plain_op (cs_pc s t) \<noteq> None" using v by simp
  have ns: "\<not> selecting (cs_pc s t)" using v selecting_plain by fastforce
  have u: "untouched wk s (wk(t := True)) s' u" if "u \<noteq> t" for u
    using that on nodes sel F by (auto simp: untouched_def)
  show "wait_inv (wk(t := True)) s'"
  proof (rule wait_inv_at [OF inv, where t = t])
    show "plain_ok (wk(t := True)) s' t" using old(1) v q on F nodes val by (auto simp: plain_ok_def)
    show "select_ok (wk(t := True)) s' t" using old(2) ns on F by (simp add: select_ok_outside)
  qed (use u dist in auto)
  show "pend wk s t = []" using v q(1) by (simp add: pend_def)
  have "pend (wk(t := True)) s' t = (if wn_error_code nd = E_OK then [Transfer t k c (wn_value nd)] else [])"
    using v F nodes by (simp add: pend_def)
  then show "pend (wk(t := True)) s' = (pend wk s)(t := if wn_error_code nd = E_OK then [Transfer t k c (wn_value nd)] else [])"
    using untouched_keeps(3) [OF u] by (auto simp: fun_eq_iff)
qed

definition woke :: "waiter \<Rightarrow> bool \<Rightarrow> (u64 \<Rightarrow> bool) \<Rightarrow> u64 \<Rightarrow> bool" where
  "woke n w wk = (if w then wk(waiter_task n := True) else wk)"

text \<open>Waking will find what it checks for.\<close>

definition wakes :: "waiter \<Rightarrow> bool \<Rightarrow> channel_system \<Rightarrow> bool" where
  "wakes n w s \<longleftrightarrow> (case n of PlainNode t \<Rightarrow> w | SelectNode t i \<Rightarrow> w \<longrightarrow> llam_channel_select_node_should_wake t s)"

definition waiting :: "channel_pc \<Rightarrow> bool" where
  "waiting pc \<longleftrightarrow> plain_op pc \<noteq> None \<or> selecting pc"

lemma wake_if_woken: "wakes n w s \<Longrightarrow> wake_if w n s = s\<lparr>cs_woken := woke n w (cs_woken s)\<rparr>"
  by (cases n) (auto simp: wakes_def wake_if_def woke_def llam_wake_wait_node_def)

text \<open>A channel whose queue of one kind was shortened.\<close>

definition shortened :: "select_kind \<Rightarrow> u64 \<Rightarrow> waiter list \<Rightarrow> channel_system \<Rightarrow> channel_system \<Rightarrow> bool" where
  "shortened k c ns s s' \<longleftrightarrow> (\<exists>fl. cs_channel s' = (cs_channel s)(c := (set_waiters k ns (cs_channel s c))\<lparr>ch_inflight := fl\<rparr>))"

lemma set_waiters_twice [simp]:
  "set_waiters k ns ((set_waiters k ms ch)\<lparr>ch_inflight := fl\<rparr>) = (set_waiters k ns ch)\<lparr>ch_inflight := fl\<rparr>"
  by (cases k) simp_all

lemma set_waiters_id [simp]: "set_waiters k (waiters k ch) ch = ch"
  by (cases k) simp_all

lemma shortened_trans: "shortened k c ns s s' \<Longrightarrow> shortened k c ms s' s'' \<Longrightarrow> shortened k c ms s s''"
  unfolding shortened_def by fastforce

lemma inflight_id [simp]: "ch\<lparr>ch_inflight := ch_inflight ch\<rparr> = ch"
  by simp

definition pop_result :: "(u64 \<Rightarrow> bool) \<Rightarrow> select_kind \<Rightarrow> u64 \<Rightarrow> channel_system \<Rightarrow> (waiter \<times> u64 \<times> bool) option \<Rightarrow> channel_system \<Rightarrow> bool" where
  "pop_result wk k c s r s' \<longleftrightarrow> framed s s' \<and>
     (case r of
        None \<Rightarrow> shortened k c [] s s' \<and> wait_inv wk s' \<and> pend wk s' = pend wk s
      | Some (n, v, w) \<Rightarrow> waiters k (cs_channel s c) \<noteq> [] \<and> (\<exists>ns. shortened k c ns s s') \<and> wakes n w s' \<and> wait_inv (woke n w wk) s' \<and>
          pend (woke n w wk) s' = (pend wk s)(waiter_task n := [Transfer (waiter_task n) k c v]) \<and> pend wk s (waiter_task n) = [] \<and>
          waiting (cs_pc s (waiter_task n)))"

lemma pop_result_step:
  assumes "pop_result wk k c s1 r s'" "framed s s1" "shortened k c ns s s1" "pend wk s1 = pend wk s" "waiters k (cs_channel s c) \<noteq> []"
  shows "pop_result wk k c s r s'"
  using assms unfolding pop_result_def
  by (auto simp: framedD split: option.splits intro: framed_trans shortened_trans)

lemma at_channel_takes:
  assumes "waiters k (cs_channel s c) = n # rest" "cs_channel s' = cs_channel (at_channel c (set_waiters k rest) s)"
  shows "takes_first k c n rest s s'" "shortened k c rest s s'"
  using assms by (auto simp: takes_first_def shortened_def at_channel_def intro!: exI [of _ "ch_inflight (set_waiters k rest (cs_channel s c))"])

lemma popped_fields:
  "cs_pc (llam_channel_waiter_popped c n s) = cs_pc s" "cs_ops (llam_channel_waiter_popped c n s) = cs_ops s"
  "cs_parked (llam_channel_waiter_popped c n s) = cs_parked s" "cs_abort (llam_channel_waiter_popped c n s) = cs_abort s"
  "cs_woken (llam_channel_waiter_popped c n s) = cs_woken s" "cs_select (llam_channel_waiter_popped c n s) = cs_select s"
  by (simp_all add: llam_channel_waiter_popped_def at_channel_def Let_def split: waiter.split)

lemma popped_channel:
  "\<exists>fl. cs_channel (llam_channel_waiter_popped c n s) = (cs_channel s)(c := (cs_channel s c)\<lparr>ch_inflight := fl\<rparr>)"
  by (cases n) (auto simp: llam_channel_waiter_popped_def at_channel_def Let_def)

lemma popped_takes:
  assumes "waiters k (cs_channel s c) = n # rest" "cs_channel s1 = cs_channel (at_channel c (set_waiters k rest) s)"
  shows "takes_first k c n rest s (llam_channel_waiter_popped c m s1)" "shortened k c rest s (llam_channel_waiter_popped c m s1)"
proof -
  obtain fl where "cs_channel (llam_channel_waiter_popped c m s1) = (cs_channel s1)(c := (cs_channel s1 c)\<lparr>ch_inflight := fl\<rparr>)"
    using popped_channel by blast
  then show "takes_first k c n rest s (llam_channel_waiter_popped c m s1)" "shortened k c rest s (llam_channel_waiter_popped c m s1)"
    using assms by (auto simp: takes_first_def shortened_def at_channel_def)
qed

text \<open>What completing a queued select node does, in the two cases.\<close>

lemma complete_node_cases:
  assumes "llam_channel_select_complete_node (SelectNode t i) v e s = (r, s')"
  obtains (lost) "\<not> open_phase (ss_completed (cs_select s t))" "r = CompletionLost" "s' = s"
  | (won) st where "open_phase (ss_completed (cs_select s t))"
      "ss_completed st = (if ss_completed (cs_select s t) = SelectArmed \<and> cs_parked s t then SelectQueued else SelectInline)"
      "ss_selected st = Some i" "ss_value st = v" "ss_error st = e" "ss_completed st = SelectQueued \<Longrightarrow> ss_wake_queued st"
      "r = (if ss_completed st = SelectQueued then CompletionQueued else CompletionInline)"
      "s' = s\<lparr>cs_select := (cs_select s)(t := st),
              cs_node := (cs_node s)(SelectNode t i := (cs_node s (SelectNode t i))\<lparr>wn_value := v, wn_error_code := e\<rparr>)\<rparr>"
proof (cases "open_phase (ss_completed (cs_select s t))")
  case True
  then show thesis using assms
    by (intro won [of "(cs_select s t)\<lparr>ss_selected := Some i, ss_value := v, ss_error := e,
           ss_wake_queued := (ss_wake_queued (cs_select s t) \<or> ss_completed (cs_select s t) = SelectArmed \<and> cs_parked s t),
           ss_completed := (if ss_completed (cs_select s t) = SelectArmed \<and> cs_parked s t then SelectQueued else SelectInline)\<rparr>"])
      (auto simp: open_phase_def llam_channel_select_complete_node_def llam_channel_select_begin_completion_def Let_def split: if_splits)
next
  case False
  then show thesis using assms
    by (intro lost) (auto simp: open_phase_def llam_channel_select_complete_node_def llam_channel_select_begin_completion_def Let_def split: if_splits)
qed

lemma at_channel_fields [simp]:
  "cs_pc (at_channel c f s) = cs_pc s" "cs_ops (at_channel c f s) = cs_ops s" "cs_parked (at_channel c f s) = cs_parked s"
  "cs_abort (at_channel c f s) = cs_abort s" "cs_woken (at_channel c f s) = cs_woken s" "cs_select (at_channel c f s) = cs_select s"
  "cs_node (at_channel c f s) = cs_node s" "cs_deadline (at_channel c f s) = cs_deadline s" "cs_shard (at_channel c f s) = cs_shard s"
  by (simp_all add: at_channel_def)

text \<open>The step in which a queued select node is completed and counted.\<close>

lemma won_select:
  assumes inv: "wait_inv wk s" and q: "waiters k (cs_channel s c) = SelectNode t i # rest"
    and op: "open_phase (ss_completed (cs_select s t))"
    and st: "ss_selected st = Some i" "ss_value st = v" "ss_error st = e"
      "ss_completed st = (if ss_completed (cs_select s t) = SelectArmed \<and> cs_parked s t then SelectQueued else SelectInline)"
      "ss_completed st = SelectQueued \<Longrightarrow> ss_wake_queued st"
    and val: "k = SelectSend \<Longrightarrow> e = E_OK \<Longrightarrow> v = wn_value (cs_node s (SelectNode t i))"
    and s': "s' = llam_channel_waiter_popped c (SelectNode t i) ((at_channel c (set_waiters k rest) s)\<lparr>cs_select := (cs_select s)(t := st),
       cs_node := (cs_node s)(SelectNode t i := nd)\<rparr>)" and w: "w = (ss_completed st = SelectQueued)"
  shows "framed s s'" "shortened k c rest s s'" "wakes (SelectNode t i) w s'" "wait_inv (woke (SelectNode t i) w wk) s'"
    "pend (woke (SelectNode t i) w wk) s' = (pend wk s)(t := if e = E_OK then [Transfer t k c v] else [])" "pend wk s t = []" "waiting (cs_pc s t)"
proof -
  have fr: "framed s s'" by (simp add: s' framed_def popped_fields)
  have t: "takes_first k c (SelectNode t i) rest s s'" and sh: "shortened k c rest s s'"
    unfolding s' by (rule popped_takes [OF q]; simp add: at_channel_def)+
  have nodes: "cs_node s' = (cs_node s)(SelectNode t i := nd)" by (simp add: s' llam_channel_waiter_popped_def)
  have sel: "cs_select s' = (cs_select s)(t := st)" by (simp add: s' popped_fields)
  note C = complete_select [OF inv t fr nodes sel op st(1-4) val, of "woke (SelectNode t i) w wk"]
  show "framed s s'" "shortened k c rest s s'" by (fact fr sh)+
  show "wakes (SelectNode t i) w s'" using st(4,5) w sel framedD(3) [OF fr]
    by (auto simp: wakes_def llam_channel_select_node_should_wake_def split: if_splits)
  show "wait_inv (woke (SelectNode t i) w wk) s'" "pend (woke (SelectNode t i) w wk) s' = (pend wk s)(t := if e = E_OK then [Transfer t k c v] else [])"
    "pend wk s t = []" using C w by (auto simp: woke_def)
  show "waiting (cs_pc s t)" using C(4) w by (simp add: waiting_def woke_def)
qed

lemma won_plain:
  assumes inv: "wait_inv wk s" and q: "waiters k (cs_channel s c) = PlainNode t # rest"
    and val: "k = SelectSend \<Longrightarrow> wn_value nd = wn_value (cs_node s (PlainNode t))"
    and s': "s' = llam_channel_waiter_popped c (PlainNode t) ((at_channel c (set_waiters k rest) s)\<lparr>cs_node := (cs_node s)(PlainNode t := nd)\<rparr>)"
  shows "framed s s'" "shortened k c rest s s'" "wait_inv (wk(t := True)) s'"
    "pend (wk(t := True)) s' = (pend wk s)(t := if wn_error_code nd = E_OK then [Transfer t k c (wn_value nd)] else [])" "pend wk s t = []" "waiting (cs_pc s t)"
proof -
  have fr: "framed s s'" by (simp add: s' framed_def popped_fields)
  have t: "takes_first k c (PlainNode t) rest s s'" and sh: "shortened k c rest s s'"
    unfolding s' by (rule popped_takes [OF q]; simp add: at_channel_def)+
  have nodes: "cs_node s' = (cs_node s)(PlainNode t := nd\<lparr>wn_scalar_value := 1\<rparr>)" by (simp add: s' llam_channel_waiter_popped_def)
  have sel: "cs_select s' = cs_select s" by (simp add: s' popped_fields)
  note C = complete_plain [OF inv takes_first_on(1) [OF t inv] takes_first_on(2) [OF t inv] takes_first_on(3) [OF t inv] fr nodes sel]
  show "framed s s'" "shortened k c rest s s'" by (fact fr sh)+
  show "wait_inv (wk(t := True)) s'"
    "pend (wk(t := True)) s' = (pend wk s)(t := if wn_error_code nd = E_OK then [Transfer t k c (wn_value nd)] else [])" "pend wk s t = []" "waiting (cs_pc s t)"
    using C val by (auto simp: waiting_def)
qed

lemma lost_select:
  assumes "wait_inv wk s" "waiters k (cs_channel s c) = SelectNode t i # rest" "\<not> open_phase (ss_completed (cs_select s t))"
  shows "wait_inv wk (at_channel c (set_waiters k rest) s)" "pend wk (at_channel c (set_waiters k rest) s) = pend wk s"
    "framed s (at_channel c (set_waiters k rest) s)" "shortened k c rest s (at_channel c (set_waiters k rest) s)"
proof -
  note T = at_channel_takes [OF assms(2) refl]
  show f: "framed s (at_channel c (set_waiters k rest) s)" by (simp add: framed_def)
  show "wait_inv wk (at_channel c (set_waiters k rest) s)" "pend wk (at_channel c (set_waiters k rest) s) = pend wk s"
    by (rule drop_lost [OF assms(1) T(1) f _ _ assms(3)]; simp)+
  show "shortened k c rest s (at_channel c (set_waiters k rest) s)" by (rule T(2))
qed

lemma waiters_at [simp]: "waiters k (cs_channel (at_channel c (set_waiters k ns) s) c) = ns"
  by (simp add: at_channel_def)

lemma pop_live_result:
  assumes "wait_inv wk s" "waiters k (cs_channel s c) = ns" "given = None \<longleftrightarrow> k = SelectSend" "pop_live k c given ns s = (r, s')"
  shows "pop_result wk k c s r s'"
  using assms
proof (induction ns arbitrary: s)
  case Nil
  have "shortened k c [] s s"
    unfolding shortened_def by (rule exI [of _ "ch_inflight (cs_channel s c)"]) (use Nil.prems(2) set_waiters_id [of k "cs_channel s c"] in simp)
  then show ?case using Nil.prems by (auto simp: pop_result_def framed_refl)
next
  case (Cons n ns)
  define v where "v = (case given of Some v \<Rightarrow> v | None \<Rightarrow> wn_value (cs_node s n))"
  let ?s = "at_channel c (set_waiters k ns) s"
  have ve: "(case given of Some v \<Rightarrow> v | None \<Rightarrow> wn_value (cs_node ?s n)) = v" by (simp add: v_def split: option.split)
  have val: "k = SelectSend \<Longrightarrow> v = wn_value (cs_node s n)" using Cons.prems(3) by (auto simp: v_def)
  show ?case
  proof (cases n)
    case (PlainNode t)
    have r: "r = Some (PlainNode t, v, True)" and s': "s' = llam_channel_waiter_popped c (PlainNode t)
        (?s\<lparr>cs_node := (cs_node s)(PlainNode t := (cs_node s (PlainNode t))\<lparr>wn_value := v, wn_error_code := E_OK\<rparr>)\<rparr>)"
      using Cons.prems(4) ve [unfolded PlainNode] PlainNode by (auto simp: Let_def)
    have "k = SelectSend \<Longrightarrow> wn_value ((cs_node s (PlainNode t))\<lparr>wn_value := v, wn_error_code := E_OK\<rparr>) = wn_value (cs_node s (PlainNode t))"
      using val PlainNode by simp
    note W = won_plain [OF Cons.prems(1) Cons.prems(2) [unfolded PlainNode] this s']
    show ?thesis using W Cons.prems(2) unfolding pop_result_def r by (auto simp: woke_def wakes_def)
  next
    case (SelectNode t i)
    obtain x s2 where c: "llam_channel_select_complete_node (SelectNode t i) v E_OK ?s = (x, s2)" by (metis prod.exhaust)
    note q = Cons.prems(2) [unfolded SelectNode] and run = Cons.prems(4) [unfolded SelectNode]
    from c show ?thesis
    proof (cases rule: complete_node_cases)
      case lost
      then have "\<not> open_phase (ss_completed (cs_select s t))" by simp
      note L = lost_select [OF Cons.prems(1) q this]
      have "pop_live k c given ns ?s = (r, s')" using run c lost ve [unfolded SelectNode] by (simp add: Let_def)
      from Cons.IH [OF L(1) waiters_at Cons.prems(3) this] show ?thesis by (rule pop_result_step) (use L q in auto)
    next
      case (won st)
      have r: "r = Some (SelectNode t i, v, ss_completed st = SelectQueued)" and s': "s' = llam_channel_waiter_popped c (SelectNode t i) s2"
        using run c won(7) ve [unfolded SelectNode] by (auto simp: Let_def split: if_splits)
      have s2: "s' = llam_channel_waiter_popped c (SelectNode t i) (?s\<lparr>cs_select := (cs_select s)(t := st),
          cs_node := (cs_node s)(SelectNode t i := (cs_node s (SelectNode t i))\<lparr>wn_value := v, wn_error_code := E_OK\<rparr>)\<rparr>)"
        using s' won(8) by simp
      have o: "open_phase (ss_completed (cs_select s t))" "ss_completed st = (if ss_completed (cs_select s t) = SelectArmed \<and> cs_parked s t then SelectQueued else SelectInline)"
        using won(1,2) by simp_all
      have "k = SelectSend \<Longrightarrow> E_OK = E_OK \<Longrightarrow> v = wn_value (cs_node s (SelectNode t i))" using val SelectNode by simp
      note W = won_select [OF Cons.prems(1) q o(1) won(3-5) o(2) won(6) this s2 refl]
      show ?thesis using W q unfolding pop_result_def r by auto
    qed
  qed
qed

text \<open>Detaching a whole queue with an error transfers nothing; the tasks listed are to be woken.\<close>

definition also_woken :: "waiter list \<Rightarrow> (u64 \<Rightarrow> bool) \<Rightarrow> u64 \<Rightarrow> bool" where
  "also_woken L wk t \<longleftrightarrow> wk t \<or> t \<in> waiter_task ` set L"

definition detach_result :: "(u64 \<Rightarrow> bool) \<Rightarrow> select_kind \<Rightarrow> u64 \<Rightarrow> channel_system \<Rightarrow> waiter list \<Rightarrow> channel_system \<Rightarrow> bool" where
  "detach_result wk k c s L s' \<longleftrightarrow> framed s s' \<and> shortened k c [] s s' \<and> wait_inv (also_woken L wk) s' \<and> pend (also_woken L wk) s' = pend wk s \<and>
     (\<forall>n \<in> set L. wakes n True s') \<and> (\<forall>t. \<not> open_phase (ss_completed (cs_select s t)) \<longrightarrow> cs_select s' t = cs_select s t)"

lemma also_woken_Nil [simp]: "also_woken [] wk = wk"
  by (simp add: also_woken_def fun_eq_iff)

lemma wakes_woken [simp]: "wakes n w (s\<lparr>cs_woken := x\<rparr>) = wakes n w s"
  by (cases n) (simp_all add: wakes_def llam_channel_select_node_should_wake_def)

lemma also_woken_Cons: "also_woken (n # L) wk = also_woken L (wk(waiter_task n := True))"
  by (auto simp: also_woken_def fun_eq_iff)

lemma detach_result_step:
  assumes D: "detach_result wk1 k c s1 L s'" and f: "framed s s1" "shortened k c ns s s1" "pend wk1 s1 = pend wk s" "wk1 = (if w then wk(waiter_task n := True) else wk)"
    and w: "w \<Longrightarrow> wakes n True s1" and c: "\<And>t i. n = SelectNode t i \<Longrightarrow> w \<Longrightarrow> \<not> open_phase (ss_completed (cs_select s1 t))"
    and keep: "\<And>t. \<not> open_phase (ss_completed (cs_select s t)) \<Longrightarrow> cs_select s1 t = cs_select s t"
  shows "detach_result wk k c s (if w then n # L else L) s'"
proof -
  have a: "also_woken (if w then n # L else L) wk = also_woken L wk1" using f(4) by (simp add: also_woken_Cons)
  have k: "cs_select s' t = cs_select s1 t" if "\<not> open_phase (ss_completed (cs_select s1 t))" for t using D that by (simp add: detach_result_def)
  have p: "cs_parked s' = cs_parked s1" using D by (simp add: detach_result_def framed_def)
  have "wakes n True s'" if "w"
    using w [OF that] c [OF _ that] k p by (cases n) (auto simp: wakes_def llam_channel_select_node_should_wake_def)
  then show ?thesis using D f k keep unfolding detach_result_def a by (auto intro: framed_trans shortened_trans)
qed

lemma detach_all_result:
  assumes "wait_inv wk s" "waiters k (cs_channel s c) = ns" "e \<noteq> E_OK" "detach_all k c e ns s = (L, s')"
  shows "detach_result wk k c s L s'"
  using assms
proof (induction ns arbitrary: s wk L)
  case Nil
  have "shortened k c [] s s"
    unfolding shortened_def by (rule exI [of _ "ch_inflight (cs_channel s c)"]) (use Nil.prems(2) set_waiters_id [of k "cs_channel s c"] in simp)
  then show ?case using Nil.prems by (auto simp: detach_result_def framed_refl)
next
  case (Cons n ns)
  let ?s = "at_channel c (set_waiters k ns) s"
  have sh: "waiters k (cs_channel s1 c) = ns" if "shortened k c ns s s1" for s1 using that by (auto simp: shortened_def)
  show ?case
  proof (cases n)
    case (PlainNode t)
    define s1 where "s1 = llam_channel_waiter_popped c (PlainNode t)
        (?s\<lparr>cs_node := (cs_node s)(PlainNode t := (cs_node s (PlainNode t))\<lparr>wn_error_code := e\<rparr>)\<rparr>)"
    obtain L' where L: "detach_all k c e ns s1 = (L', s')" "L = PlainNode t # L'"
      using Cons.prems(4) PlainNode by (auto simp: Let_def s1_def split: prod.splits)
    have "k = SelectSend \<Longrightarrow> wn_value ((cs_node s (PlainNode t))\<lparr>wn_error_code := e\<rparr>) = wn_value (cs_node s (PlainNode t))" by simp
    note W = won_plain [OF Cons.prems(1) Cons.prems(2) [unfolded PlainNode] this s1_def]
    have sel: "cs_select s1 = cs_select s" by (simp add: s1_def popped_fields)
    have "wn_error_code ((cs_node s (PlainNode t))\<lparr>wn_error_code := e\<rparr>) \<noteq> E_OK" using Cons.prems(3) by simp
    with W(4,5) have p: "pend (wk(t := True)) s1 = pend wk s" by (simp only: if_False fun_upd_idem simp_thms)
    have "detach_result wk k c s (if True then PlainNode t # L' else L') s'"
      by (rule detach_result_step [OF Cons.IH [OF W(3) sh [OF W(2)] Cons.prems(3) L(1)] W(1,2) p]) (simp_all add: wakes_def sel)
    then show ?thesis using L(2) by simp
  next
    case (SelectNode t i)
    obtain x s2 where c: "llam_channel_select_complete_node (SelectNode t i) 0 e ?s = (x, s2)" by (metis prod.exhaust)
    note q = Cons.prems(2) [unfolded SelectNode] and run = Cons.prems(4) [unfolded SelectNode]
    from c show ?thesis
    proof (cases rule: complete_node_cases)
      case lost
      then have "\<not> open_phase (ss_completed (cs_select s t))" by simp
      note L = lost_select [OF Cons.prems(1) q this]
      have d: "detach_all k c e ns ?s = (L, s')" using run c lost by (simp add: Let_def)
      have "detach_result wk k c s (if False then SelectNode t i # L else L) s'"
        by (rule detach_result_step [OF Cons.IH [OF L(1) waiters_at Cons.prems(3) d] L(3,4,2)]) simp_all
      then show ?thesis by simp
    next
      case (won st)
      define s1 where "s1 = llam_channel_waiter_popped c (SelectNode t i) (?s\<lparr>cs_select := (cs_select s)(t := st),
          cs_node := (cs_node s)(SelectNode t i := (cs_node s (SelectNode t i))\<lparr>wn_value := 0, wn_error_code := e\<rparr>)\<rparr>)"
      obtain L' where L: "detach_all k c e ns s1 = (L', s')" "L = (if ss_completed st = SelectQueued then SelectNode t i # L' else L')"
        using run c won(7,8) by (auto simp: Let_def s1_def split: if_splits prod.splits)
      have o: "open_phase (ss_completed (cs_select s t))" "ss_completed st = (if ss_completed (cs_select s t) = SelectArmed \<and> cs_parked s t then SelectQueued else SelectInline)"
        using won(1,2) by simp_all
      have "k = SelectSend \<Longrightarrow> e = E_OK \<Longrightarrow> 0 = wn_value (cs_node s (SelectNode t i))" using Cons.prems(3) by simp
      note W' = won_select [OF Cons.prems(1) q o(1) won(3-5) o(2) won(6) this s1_def refl]
      have s1: "cs_select s1 = (cs_select s)(t := st)" by (simp add: s1_def popped_fields)
      have fin: "\<not> open_phase (ss_completed st)" using o(2) by (simp add: open_phase_def)
      have p: "pend (woke (SelectNode t i) (ss_completed st = SelectQueued) wk) s1 = pend wk s"
        using W'(5,6) Cons.prems(3) by (simp only: if_False fun_upd_idem)
      have "detach_result wk k c s (if ss_completed st = SelectQueued then SelectNode t i # L' else L') s'"
      proof (rule detach_result_step [OF Cons.IH [OF W'(4) sh [OF W'(2)] Cons.prems(3) L(1)] W'(1,2) p])
        show "wakes (SelectNode t i) True s1" if "ss_completed st = SelectQueued" using W'(3) unfolding that by (simp only: simp_thms)
        show "cs_select s1 u = cs_select s u" if "\<not> open_phase (ss_completed (cs_select s u))" for u using that o(1) s1 by auto
      qed (use s1 fin in \<open>auto simp: woke_def\<close>)
      then show ?thesis using L(2) by simp
    qed
  qed
qed

lemma wake_all:
  "(\<And>n. n \<in> set L \<Longrightarrow> wakes n True s) \<Longrightarrow> llam_channel_wake_detached_waiters L s = s\<lparr>cs_woken := also_woken L (cs_woken s)\<rparr>"
proof (induction L arbitrary: s)
  case (Cons n L)
  have n: "llam_wake_wait_node n s = s\<lparr>cs_woken := (cs_woken s)(waiter_task n := True)\<rparr>"
    using wake_if_woken [of n True s] Cons.prems [of n] by (simp add: wake_if_def woke_def)
  have "llam_channel_wake_detached_waiters L (llam_wake_wait_node n s) = (llam_wake_wait_node n s)\<lparr>cs_woken := also_woken L (cs_woken (llam_wake_wait_node n s))\<rparr>"
    by (rule Cons.IH) (use Cons.prems n in simp)
  then show ?case by (simp add: llam_channel_wake_detached_waiters_def n also_woken_Cons)
qed (simp add: llam_channel_wake_detached_waiters_def also_woken_def)

section \<open>The invariant of the system\<close>

definition chan_ok :: "channel \<Rightarrow> bool" where
  "chan_ok ch \<longleftrightarrow> ring_ok ch \<and> (ch_recv_waiters ch \<noteq> [] \<longrightarrow> ch_count ch = 0 \<and> \<not> ch_closed ch) \<and>
     (ch_send_waiters ch \<noteq> [] \<longrightarrow> ch_count ch = ch_capacity ch \<and> \<not> ch_closed ch)"

definition system_inv :: "channel_system \<Rightarrow> bool" where
  "system_inv s \<longleftrightarrow> wait_inv (cs_woken s) s \<and> (\<forall>c. chan_ok (cs_channel s c)) \<and> (\<forall>t. cs_pc s t = SelectPair \<longrightarrow> length (cs_ops s t) = 2)"

text \<open>What a step does to the channels, and to the accounts of the tasks.\<close>

definition flows :: "channel_system \<Rightarrow> transfer list \<Rightarrow> channel_system \<Rightarrow> bool" where
  "flows s ts s' \<longleftrightarrow> (\<forall>c. ch_capacity (cs_channel s' c) = ch_capacity (cs_channel s c) \<and>
     fifo (unat (ch_capacity (cs_channel s c))) (through c ts) (contents (cs_channel s c)) = Some (contents (cs_channel s' c)))"

definition balances :: "channel_system \<Rightarrow> transfer list \<Rightarrow> u64 \<Rightarrow> transfer list \<Rightarrow> channel_system \<Rightarrow> bool" where
  "balances s ts t xs s' \<longleftrightarrow>
     (\<forall>u. pend (cs_woken s) s u @ made_by u ts = (if u = t then xs else []) @ pend (cs_woken s') s' u)"

lemma system_invD:
  "system_inv s \<Longrightarrow> wait_inv (cs_woken s) s" "system_inv s \<Longrightarrow> chan_ok (cs_channel s c)" "system_inv s \<Longrightarrow> cs_pc s t = SelectPair \<Longrightarrow> length (cs_ops s t) = 2"
  by (simp_all add: system_inv_def)

lemma through_simps [simp]: "through c [] = []" "through c (Transfer t k d v # ts) = (if d = c then (k, v) # through c ts else through c ts)"
  by (simp_all add: through_def)

lemma made_by_simps [simp]: "made_by t [] = []" "made_by t (Transfer u k d v # ts) = (if u = t then Transfer u k d v # made_by t ts else made_by t ts)"
  by (simp_all add: made_by_def)

lemma not_waitingD: "\<not> waiting pc \<Longrightarrow> plain_op pc = None" "\<not> waiting pc \<Longrightarrow> \<not> selecting pc"
  unfolding waiting_def by blast+

lemma pend_quiet: "\<not> waiting (cs_pc s t) \<Longrightarrow> pend wk s t = []"
  by (simp add: pend_def not_waitingD)

lemma fifo_append: "fifo cap (xs @ ys) q = (case fifo cap xs q of None \<Rightarrow> None | Some q \<Rightarrow> fifo cap ys q)"
  by (induction cap xs q rule: fifo.induct) (auto split: list.splits)

text \<open>Updates of a channel that leave its queues alone.\<close>

lemma untouched_channels:
  assumes "framed s s'" "cs_node s' = cs_node s" "cs_select s' = cs_select s" "\<And>k c. waiters k (cs_channel s' c) = waiters k (cs_channel s c)"
  shows "wait_inv wk s' = wait_inv wk s" "pend wk s' = pend wk s"
proof -
  note F = framedD [OF assms(1)] and o = on_same [OF assms(4)]
  show "wait_inv wk s' = wait_inv wk s" unfolding wait_inv_def plain_ok_def select_ok_def F o assms(2-4) ..
  show "pend wk s' = pend wk s" unfolding fun_eq_iff pend_def F assms(2,3) by simp
qed

lemma waiters_put [simp]: "waiters k (buffer_put v ch) = waiters k ch"
  by (cases k) simp_all

lemma waiters_take [simp]: "waiters k (snd (buffer_take ch)) = waiters k ch"
  by (cases k) simp_all

lemma waiters_closed [simp]: "waiters k (ch\<lparr>ch_closed := b\<rparr>) = waiters k ch"
  by (cases k) simp_all

lemma set_waiters_fields [simp]:
  "ch_count (set_waiters k ns ch) = ch_count ch" "ch_capacity (set_waiters k ns ch) = ch_capacity ch" "ch_closed (set_waiters k ns ch) = ch_closed ch"
  "contents (set_waiters k ns ch) = contents ch" "ring_ok (set_waiters k ns ch) = ring_ok ch"
  by (cases k; simp add: contents_def ring_ok_def)+

lemma inflight_fields [simp]: "contents (ch\<lparr>ch_inflight := fl\<rparr>) = contents ch" "ring_ok (ch\<lparr>ch_inflight := fl\<rparr>) = ring_ok ch"
  by (simp_all add: contents_def ring_ok_def)

lemma shortenedD:
  assumes "shortened k c ns s s'"
  shows "d \<noteq> c \<Longrightarrow> cs_channel s' d = cs_channel s d" "waiters k (cs_channel s' c) = ns" "k' \<noteq> k \<Longrightarrow> waiters k' (cs_channel s' c) = waiters k' (cs_channel s c)"
    "ch_count (cs_channel s' d) = ch_count (cs_channel s d)" "ch_capacity (cs_channel s' d) = ch_capacity (cs_channel s d)"
    "ch_closed (cs_channel s' d) = ch_closed (cs_channel s d)" "contents (cs_channel s' d) = contents (cs_channel s d)"
    "ring_ok (cs_channel s' d) = ring_ok (cs_channel s d)"
  using assms by (auto simp: shortened_def split: if_splits)

text \<open>A quiet task may move between places at which it does not wait.\<close>

lemma wait_inv_quiet:
  assumes inv: "wait_inv wk s" and q: "\<not> waiting (cs_pc s t)" "\<not> waiting (cs_pc s' t)" and u: "\<And>u. u \<noteq> t \<Longrightarrow> untouched wk s wk' s' u"
    and c: "cs_channel s' = cs_channel s" and a: "cs_abort s' t = cs_abort s t"
  shows "wait_inv wk' s'" "pend wk' s' = pend wk s"
proof -
  note o = on_cong [OF c] and old = wait_invD(1,2) [OF inv, of t]
  show "wait_inv wk' s'"
  proof (rule wait_inv_at [OF inv u])
    show "distinct (waiters k (cs_channel s' d))" for k d using wait_invD(3) [OF inv] c by simp
    show "plain_ok wk' s' t" using old(1) q by (simp add: plain_ok_def not_waitingD o)
    show "select_ok wk' s' t" using old(2) q a by (simp add: select_ok_outside not_waitingD o)
  qed
  show "pend wk' s' = pend wk s"
  proof
    fix x show "pend wk' s' x = pend wk s x"
      using untouched_keeps(3) [OF u, of x] pend_quiet [OF q(1)] pend_quiet [OF q(2)] by (cases "x = t") simp_all
  qed
qed

lemma woken_irrelevant [simp]: "wait_inv wk (s\<lparr>cs_woken := x\<rparr>) = wait_inv wk s" "pend wk (s\<lparr>cs_woken := x\<rparr>) = pend wk s"
proof -
  have u: "untouched wk s wk (s\<lparr>cs_woken := x\<rparr>) t" for t by (simp add: untouched_def)
  show "wait_inv wk (s\<lparr>cs_woken := x\<rparr>) = wait_inv wk s" by (simp add: wait_inv_def untouched_keeps(1,2) [OF u])
  show "pend wk (s\<lparr>cs_woken := x\<rparr>) = pend wk s" using untouched_keeps(3) [OF u] by (rule ext)
qed

lemma chan_ok_shortened:
  assumes "\<And>d. chan_ok (cs_channel s d)" "shortened k c ns s s'" "ns \<noteq> [] \<Longrightarrow> waiters k (cs_channel s c) \<noteq> []"
  shows "chan_ok (cs_channel s' d)"
proof (cases "d = c")
  case True
  have "waiters k' (cs_channel s' c) \<noteq> [] \<Longrightarrow> waiters k' (cs_channel s c) \<noteq> []" for k'
    using shortenedD(2,3) [OF assms(2)] assms(3) by (cases "k' = k") auto
  from this [of SelectRecv] this [of SelectSend] show ?thesis
    using assms(1) [of c] shortenedD(4-8) [OF assms(2), of c] True by (simp add: chan_ok_def)
qed (use assms shortenedD(1) in simp)

lemma pop_live_given: "pop_live k c (Some v) ns s = (Some (n, v', w), s') \<Longrightarrow> v' = v"
proof (induction ns arbitrary: s)
  case (Cons m ns)
  then show ?case by (cases m) (auto simp: Let_def split: prod.splits completion.splits)
qed simp

lemma flows_one:
  assumes "\<And>d. d \<noteq> c \<Longrightarrow> cs_channel s' d = cs_channel s d" "\<And>d. d \<noteq> c \<Longrightarrow> through d ts = []" "ch_capacity (cs_channel s' c) = ch_capacity (cs_channel s c)"
    "fifo (unat (ch_capacity (cs_channel s c))) (through c ts) (contents (cs_channel s c)) = Some (contents (cs_channel s' c))"
  shows "flows s ts s'"
  unfolding flows_def
proof
  fix d show "ch_capacity (cs_channel s' d) = ch_capacity (cs_channel s d) \<and>
     fifo (unat (ch_capacity (cs_channel s d))) (through d ts) (contents (cs_channel s d)) = Some (contents (cs_channel s' d))"
    using assms by (cases "d = c") auto
qed

lemma count_zero_contents: "ch_count ch = 0 \<Longrightarrow> contents ch = []"
  by (simp add: contents_def)

fun send_done :: "u64 \<Rightarrow> u64 \<Rightarrow> u64 \<Rightarrow> send_outcome \<Rightarrow> transfer list" where
  "send_done t c v (SendHanded n w) = [Transfer t SelectSend c v]"
| "send_done t c v SendBuffered = [Transfer t SelectSend c v]"
| "send_done t c v _ = []"

fun send_wake :: "send_outcome \<Rightarrow> channel_system \<Rightarrow> channel_system" where
  "send_wake (SendHanded n w) s = wake_if w n s"
| "send_wake _ s = s"

text \<open>Everything about the places of the tasks stays as it was.\<close>

definition places_kept :: "channel_system \<Rightarrow> channel_system \<Rightarrow> bool" where
  "places_kept s s' \<longleftrightarrow> cs_pc s' = cs_pc s \<and> cs_ops s' = cs_ops s \<and> cs_parked s' = cs_parked s \<and> cs_abort s' = cs_abort s"

lemma framed_places: "framed s s' \<Longrightarrow> places_kept s s'"
  by (simp add: framed_def places_kept_def)

text \<open>A peer found by popping is served: it is woken, and its account is credited.\<close>

lemma served:
  assumes P: "pop_result (cs_woken s) k c s (Some (n, v, w)) s1" and q: "\<not> waiting (cs_pc s t)"
  shows "wait_inv (cs_woken (wake_if w n s1)) (wake_if w n s1)" "waiter_task n \<noteq> t" "cs_channel (wake_if w n s1) = cs_channel s1" "places_kept s (wake_if w n s1)"
    "pend (cs_woken (wake_if w n s1)) (wake_if w n s1) = (pend (cs_woken s) s)(waiter_task n := [Transfer (waiter_task n) k c v])"
    "pend (cs_woken s) s (waiter_task n) = []"
proof -
  have f: "framed s s1" and w: "wakes n w s1" and i: "wait_inv (woke n w (cs_woken s)) s1"
    and p: "pend (woke n w (cs_woken s)) s1 = (pend (cs_woken s) s)(waiter_task n := [Transfer (waiter_task n) k c v])"
    and z: "pend (cs_woken s) s (waiter_task n) = []" and wt: "waiting (cs_pc s (waiter_task n))"
    using P by (auto simp: pop_result_def)
  note W = wake_if_woken [OF w] and F = framedD [OF f]
  show "wait_inv (cs_woken (wake_if w n s1)) (wake_if w n s1)" "cs_channel (wake_if w n s1) = cs_channel s1" "places_kept s (wake_if w n s1)"
    "pend (cs_woken (wake_if w n s1)) (wake_if w n s1) = (pend (cs_woken s) s)(waiter_task n := [Transfer (waiter_task n) k c v])"
    using i p F by (simp_all add: W places_kept_def)
  show "waiter_task n \<noteq> t" "pend (cs_woken s) s (waiter_task n) = []" using wt q z by auto
qed

end
