(* ===== verification/Channel_Steps.thy ===== *)
theory Channel_Steps
  imports Channel_System
begin

text \<open>
  Every step of the system of theory \<open>Channel_System\<close> keeps its invariant, moves the channels as bounded first-in first-out queues would move, and
  balances the accounts of the tasks; the properties of whole histories follow.
\<close>

section \<open>The steps keep the invariant\<close>

text \<open>A step of task \<open>t\<close> that makes the transfers \<open>ts\<close> and reports \<open>xs\<close>.\<close>

definition step_ok :: "channel_system \<Rightarrow> transfer list \<Rightarrow> u64 \<Rightarrow> transfer list \<Rightarrow> channel_system \<Rightarrow> bool" where
  "step_ok s ts t xs s' \<longleftrightarrow> system_inv s' \<and> flows s ts s' \<and> balances s ts t xs s'"

lemma step_okD: "step_ok s ts t xs s' \<Longrightarrow> system_inv s'" "step_ok s ts t xs s' \<Longrightarrow> flows s ts s'" "step_ok s ts t xs s' \<Longrightarrow> balances s ts t xs s'"
  by (simp_all add: step_ok_def)

lemma through_append: "through c (xs @ ys) = through c xs @ through c ys" and made_by_append: "made_by t (xs @ ys) = made_by t xs @ made_by t ys"
  by (simp_all add: through_def made_by_def)

lemma flows_trans: "flows s ts s1 \<Longrightarrow> flows s1 us s' \<Longrightarrow> flows s (ts @ us) s'"
  by (simp add: flows_def through_append fifo_append)

lemma balances_trans: "balances s ts t xs s1 \<Longrightarrow> balances s1 us t ys s' \<Longrightarrow> balances s (ts @ us) t (xs @ ys) s'"
  unfolding balances_def
proof
  fix u assume a: "\<forall>u. pend (cs_woken s) s u @ made_by u ts = (if u = t then xs else []) @ pend (cs_woken s1) s1 u"
    and b: "\<forall>u. pend (cs_woken s1) s1 u @ made_by u us = (if u = t then ys else []) @ pend (cs_woken s') s' u"
  have "pend (cs_woken s) s u @ made_by u ts @ made_by u us = ((if u = t then xs else []) @ pend (cs_woken s1) s1 u) @ made_by u us"
    using spec [OF a, of u] by (simp only: append_assoc [symmetric])
  also have "\<dots> = (if u = t then xs else []) @ (if u = t then ys else []) @ pend (cs_woken s') s' u"
    using spec [OF b, of u] by (simp only: append_assoc)
  finally show "pend (cs_woken s) s u @ made_by u (ts @ us) = (if u = t then xs @ ys else []) @ pend (cs_woken s') s' u"
    by (simp add: made_by_append split: if_splits)
qed

lemma step_ok_trans: "step_ok s ts t xs s1 \<Longrightarrow> step_ok s1 us t ys s' \<Longrightarrow> step_ok s (ts @ us) t (xs @ ys) s'"
  unfolding step_ok_def using flows_trans balances_trans by blast

text \<open>A step that moves only a task which does not wait.\<close>

lemma quiet_step:
  assumes inv: "system_inv s" and q: "\<not> waiting (cs_pc s t)" "\<not> waiting (cs_pc s' t)" and u: "\<And>u. u \<noteq> t \<Longrightarrow> untouched (cs_woken s) s (cs_woken s') s' u"
    and c: "cs_channel s' = cs_channel s" and a: "cs_abort s' t = cs_abort s t" and p: "cs_pc s' t = SelectPair \<Longrightarrow> length (cs_ops s' t) = 2"
  shows "step_ok s [] t [] s'"
proof -
  note W = wait_inv_quiet [OF system_invD(1) [OF inv] q u c a]
  have "cs_pc s' x = SelectPair \<Longrightarrow> length (cs_ops s' x) = 2" for x
    using p system_invD(3) [OF inv] u [of x] by (cases "x = t") (auto simp: untouched_def)
  then have "system_inv s'" using W(1) inv c by (simp add: system_inv_def)
  then show ?thesis using W(2) c by (simp add: step_ok_def flows_def balances_def)
qed

lemma at_pc_fields [simp]:
  "cs_pc (at_pc t pc s) = (cs_pc s)(t := pc)" "cs_ops (at_pc t pc s) = cs_ops s" "cs_parked (at_pc t pc s) = cs_parked s"
  "cs_abort (at_pc t pc s) = cs_abort s" "cs_woken (at_pc t pc s) = cs_woken s" "cs_select (at_pc t pc s) = cs_select s"
  "cs_node (at_pc t pc s) = cs_node s" "cs_deadline (at_pc t pc s) = cs_deadline s" "cs_shard (at_pc t pc s) = cs_shard s"
  "cs_channel (at_pc t pc s) = cs_channel s" "on (at_pc t pc s) = on s"
  by (simp_all add: at_pc_def)

lemma quiet_move:
  assumes "system_inv s" "\<not> waiting (cs_pc s t)" "\<not> waiting pc" "pc = SelectPair \<Longrightarrow> length (cs_ops s t) = 2"
  shows "step_ok s [] t [] (at_pc t pc s)"
  by (rule quiet_step [OF assms(1,2)]) (use assms in \<open>auto simp: untouched_def\<close>)

lemma chan_okD:
  assumes "chan_ok ch"
  shows "ring_ok ch" "ch_recv_waiters ch \<noteq> [] \<Longrightarrow> ch_count ch = 0" "ch_recv_waiters ch \<noteq> [] \<Longrightarrow> \<not> ch_closed ch"
    "ch_send_waiters ch \<noteq> [] \<Longrightarrow> ch_count ch = ch_capacity ch" "ch_send_waiters ch \<noteq> [] \<Longrightarrow> \<not> ch_closed ch"
  using assms by (auto simp: chan_ok_def)

lemma ring_count: "ring_ok ch \<Longrightarrow> ch_count ch \<le> ch_capacity ch" "ring_ok ch \<Longrightarrow> 0 < ch_capacity ch" "ring_ok ch \<Longrightarrow> length (contents ch) = unat (ch_count ch)"
  by (auto simp: ring_ok_def contents_def)

text \<open>A step of a task on its own place and its own nodes.\<close>

lemma own_step:
  assumes inv: "system_inv s" and u: "\<And>u. u \<noteq> t \<Longrightarrow> untouched (cs_woken s) s (cs_woken s') s' u"
    and ok: "plain_ok (cs_woken s') s' t" "select_ok (cs_woken s') s' t" "cs_pc s' t \<noteq> SelectPair"
    and ch: "\<And>k d. distinct (waiters k (cs_channel s' d))" "\<And>d. chan_ok (cs_channel s' d)"
      "\<And>d. ch_capacity (cs_channel s' d) = ch_capacity (cs_channel s d)" "\<And>d. contents (cs_channel s' d) = contents (cs_channel s d)"
    and p: "pend (cs_woken s) s t = xs @ pend (cs_woken s') s' t"
  shows "step_ok s [] t xs s'"
proof -
  have "wait_inv (cs_woken s') s'" by (rule wait_inv_at [OF system_invD(1) [OF inv] u ch(1) ok(1,2)])
  moreover have "cs_pc s' x = SelectPair \<longrightarrow> length (cs_ops s' x) = 2" for x
    using ok(3) u [of x] system_invD(3) [OF inv, of x] by (cases "x = t") (auto simp: untouched_def)
  ultimately have "system_inv s'" using ch(2) by (simp add: system_inv_def)
  then show ?thesis using ch(3,4) p untouched_keeps(3) [OF u] by (simp add: step_ok_def flows_def balances_def)
qed

text \<open>What a step that serves a waiting peer or uses a buffer has to provide.\<close>

lemma system_invI:
  assumes "wait_inv (cs_woken s') s'" "\<And>d. chan_ok (cs_channel s' d)" "system_inv s" "places_kept s s'"
  shows "system_inv s'"
  using assms by (simp add: system_inv_def places_kept_def)

lemma balances_alone:
  assumes "pend (cs_woken s') s' = pend (cs_woken s) s" "pend (cs_woken s) s t = []" "\<And>u. u \<noteq> t \<Longrightarrow> made_by u ts = []" "made_by t ts = xs"
  shows "balances s ts t xs s'"
  using assms by (auto simp: balances_def)

lemma balances_peer:
  assumes "pend (cs_woken s') s' = (pend (cs_woken s) s)(p := [Transfer p k c v])" "pend (cs_woken s) s p = []" "pend (cs_woken s) s t = []" "p \<noteq> t"
    "\<And>u. u \<noteq> t \<Longrightarrow> u \<noteq> p \<Longrightarrow> made_by u ts = []" "made_by t ts = xs" "made_by p ts = [Transfer p k c v]"
  shows "balances s ts t xs s'"
  using assms by (auto simp: balances_def)

lemma put_channel:
  assumes inv: "system_inv s" and q: "\<not> waiting (cs_pc s t)" and r: "ch_count (cs_channel s c) < ch_capacity (cs_channel s c)" "ch_recv_waiters (cs_channel s c) = []"
  shows "step_ok s [Transfer t SelectSend c v] t [Transfer t SelectSend c v] (at_channel c (buffer_put v) s)"
proof -
  let ?s = "at_channel c (buffer_put v) s"
  note ok = chan_okD [OF system_invD(2) [OF inv, of c]] and U = untouched_channels [of s ?s]
  have f: "framed s ?s" by (simp add: framed_def)
  have w: "waiters k (cs_channel ?s d) = waiters k (cs_channel s d)" for k d by (simp add: at_channel_def)
  have nosend: "ch_send_waiters (cs_channel s c) = []" using ok(4) r(1) by (metis order_less_irrefl)
  note P = put_ring [OF ok(1) r(1), of v]
  have co: "chan_ok (cs_channel ?s d)" for d
    using system_invD(2) [OF inv, of d] P(1) r(2) nosend by (simp add: at_channel_def chan_ok_def)
  have i: "system_inv ?s" by (rule system_invI [OF _ co inv framed_places [OF f]])
      (use U(1) [OF f _ _ w] system_invD(1) [OF inv] in simp_all)
  have "flows s [Transfer t SelectSend c v] ?s"
    by (rule flows_one [of c]) (use P(2) r(1) in \<open>auto simp: at_channel_def word_less_nat_alt\<close>)
  moreover have "balances s [Transfer t SelectSend c v] t [Transfer t SelectSend c v] ?s"
    by (rule balances_alone) (use U(2) [OF f _ _ w] pend_quiet [OF q] in simp_all)
  ultimately show ?thesis using i by (simp add: step_ok_def)
qed

lemma step_ok_refl: "system_inv s \<Longrightarrow> step_ok s [] t [] s"
  by (simp add: step_ok_def flows_def balances_def)

lemma take_channel:
  assumes inv: "system_inv s" and q: "\<not> waiting (cs_pc s t)" and r: "0 < ch_count (cs_channel s c)" "ch_send_waiters (cs_channel s c) = []"
    and b: "buffer_take (cs_channel s c) = (v, ch)"
  shows "step_ok s [Transfer t SelectRecv c v] t [Transfer t SelectRecv c v] (at_channel c (\<lambda>_. ch) s)"
proof -
  let ?s = "at_channel c (\<lambda>_. ch) s"
  note ok = chan_okD [OF system_invD(2) [OF inv, of c]] and U = untouched_channels [of s ?s]
  have ch: "ch = snd (buffer_take (cs_channel s c))" using b by simp
  have f: "framed s ?s" by (simp add: framed_def)
  have w: "waiters k (cs_channel ?s d) = waiters k (cs_channel s d)" for k d by (simp add: at_channel_def ch)
  have norecv: "ch_recv_waiters (cs_channel s c) = []" using ok(2) r(1) by (metis order_less_irrefl)
  note P = take_ring [OF ok(1) r(1) b]
  have co: "chan_ok (cs_channel ?s d)" for d
    using system_invD(2) [OF inv, of d] P(1) norecv r(2) ch by (simp add: at_channel_def chan_ok_def)
  have i: "system_inv ?s" by (rule system_invI [OF _ co inv framed_places [OF f]])
      (use U(1) [OF f _ _ w] system_invD(1) [OF inv] in simp_all)
  have "flows s [Transfer t SelectRecv c v] ?s"
    by (rule flows_one [of c]) (use P(2) ch in \<open>auto simp: at_channel_def\<close>)
  moreover have "balances s [Transfer t SelectRecv c v] t [Transfer t SelectRecv c v] ?s"
    by (rule balances_alone) (use U(2) [OF f _ _ w] pend_quiet [OF q] in simp_all)
  ultimately show ?thesis using i by (simp add: step_ok_def)
qed

text \<open>Popping finds nobody: the queue held only nodes of selects completed elsewhere.\<close>

lemma nobody:
  assumes inv: "system_inv s" and P: "pop_result (cs_woken s) k c s None s1"
  shows "step_ok s [] t [] s1" "places_kept s s1" "waiters k (cs_channel s1 c) = []" "ch_count (cs_channel s1 c) = ch_count (cs_channel s c)"
    "ch_capacity (cs_channel s1 c) = ch_capacity (cs_channel s c)" "ch_closed (cs_channel s1 c) = ch_closed (cs_channel s c)"
proof -
  have f: "framed s s1" and sh: "shortened k c [] s s1" and w: "wait_inv (cs_woken s) s1" and p: "pend (cs_woken s) s1 = pend (cs_woken s) s"
    using P by (simp_all add: pop_result_def)
  show pl: "places_kept s s1" by (rule framed_places [OF f])
  have "system_inv s1"
    by (rule system_invI [OF _ _ inv pl]) (use w framedD(5) [OF f] chan_ok_shortened [OF system_invD(2) [OF inv] sh] in simp_all)
  then show "step_ok s [] t [] s1" using p framedD(5) [OF f] shortenedD(5,7) [OF sh] by (simp add: step_ok_def flows_def balances_def)
  show "waiters k (cs_channel s1 c) = []" "ch_count (cs_channel s1 c) = ch_count (cs_channel s c)"
    "ch_capacity (cs_channel s1 c) = ch_capacity (cs_channel s c)" "ch_closed (cs_channel s1 c) = ch_closed (cs_channel s c)"
    using shortenedD [OF sh] by simp_all
qed

text \<open>A value is handed to a waiting receiver.\<close>

lemma hand_over:
  assumes inv: "system_inv s" and q: "\<not> waiting (cs_pc s t)" and P: "pop_result (cs_woken s) SelectRecv c s (Some (n, v, w)) s2"
  shows "step_ok s [Transfer t SelectSend c v, Transfer (waiter_task n) SelectRecv c v] t [Transfer t SelectSend c v] (wake_if w n s2)" "places_kept s (wake_if w n s2)"
proof -
  note ok = chan_okD [OF system_invD(2) [OF inv, of c]] and S = served [OF P q]
  obtain ns where ns: "ch_recv_waiters (cs_channel s c) \<noteq> []" "shortened SelectRecv c ns s s2" using P by (auto simp: pop_result_def)
  have co: "chan_ok (cs_channel s2 d)" for d by (rule chan_ok_shortened [OF system_invD(2) [OF inv] ns(2)]) (use ns(1) in simp)
  have i: "system_inv (wake_if w n s2)" by (rule system_invI [OF S(1) _ inv S(4)]) (use S(3) co in simp)
  have "contents (cs_channel s c) = []" using ok(2) [OF ns(1)] by (simp add: count_zero_contents)
  then have "flows s [Transfer t SelectSend c v, Transfer (waiter_task n) SelectRecv c v] (wake_if w n s2)"
    using ring_count(2) [OF ok(1)] shortenedD [OF ns(2)] S(3) by (intro flows_one [of c]) (simp_all add: word_less_nat_alt)
  moreover have "balances s [Transfer t SelectSend c v, Transfer (waiter_task n) SelectRecv c v] t [Transfer t SelectSend c v] (wake_if w n s2)"
    by (rule balances_peer [OF S(5,6) pend_quiet [OF q] S(2)]) (use S(2) in auto)
  ultimately show "step_ok s [Transfer t SelectSend c v, Transfer (waiter_task n) SelectRecv c v] t [Transfer t SelectSend c v] (wake_if w n s2)"
    using i by (simp add: step_ok_def)
  show "places_kept s (wake_if w n s2)" by (rule S(4))
qed

definition send_result :: "channel_system \<Rightarrow> u64 \<Rightarrow> u64 \<Rightarrow> u64 \<Rightarrow> send_outcome \<Rightarrow> channel_system \<Rightarrow> bool" where
  "send_result s t c v r s1 \<longleftrightarrow> step_ok s (send_transfers t c v r) t (send_done t c v r) (send_wake r s1) \<and> places_kept s (send_wake r s1) \<and>
    (r = SendFull \<longrightarrow> ch_count (cs_channel s1 c) = ch_capacity (cs_channel s1 c) \<and> \<not> ch_closed (cs_channel s1 c) \<and> ch_recv_waiters (cs_channel s1 c) = [])"

lemma send_locked_result:
  assumes inv: "system_inv s" and q: "\<not> waiting (cs_pc s t)" and run: "send_locked c v s = (r, s1)"
  shows "send_result s t c v r s1"
proof (cases "ch_closed (cs_channel s c)")
  case True
  then show ?thesis using run step_ok_refl [OF inv] by (auto simp: send_locked_def send_result_def places_kept_def)
next
  case False
  note ok = chan_okD [OF system_invD(2) [OF inv, of c]]
  obtain x s2 where p: "pop_live SelectRecv c (Some v) (ch_recv_waiters (cs_channel s c)) s = (x, s2)" by (metis prod.exhaust)
  have P: "pop_result (cs_woken s) SelectRecv c s x s2"
    by (rule pop_live_result [OF system_invD(1) [OF inv] _ _ p]) simp_all
  show ?thesis
  proof (cases x)
    case None
    note N = nobody [OF inv P [unfolded None]]
    have q2: "\<not> waiting (cs_pc s2 t)" using q N(2) by (simp add: places_kept_def)
    show ?thesis
    proof (cases "ch_count (cs_channel s2 c) < ch_capacity (cs_channel s2 c)")
      case True
      have "step_ok s ([] @ [Transfer t SelectSend c v]) t ([] @ [Transfer t SelectSend c v]) (at_channel c (buffer_put v) s2)"
        by (rule step_ok_trans [OF N(1) put_channel [OF step_okD(1) [OF N(1)] q2 True]]) (use N(3) in simp)
      moreover have "r = SendBuffered" "s1 = at_channel c (buffer_put v) s2"
        using run p None False True by (simp_all add: send_locked_def llam_channel_pop_live_receiver_def)
      ultimately show ?thesis using N(2) by (simp add: send_result_def places_kept_def)
    next
      case full: False
      have "r = SendFull" "s1 = s2" using run p None False full by (simp_all add: send_locked_def llam_channel_pop_live_receiver_def)
      moreover have "ch_count (cs_channel s2 c) = ch_capacity (cs_channel s2 c)" using full ring_count(1) [OF ok(1)] N(4,5) by simp
      ultimately show ?thesis using N False by (simp add: send_result_def)
    qed
  next
    case (Some y)
    obtain n v' w where y: "y = (n, v', w)" using prod_cases3 by blast
    have v: "v' = v" using pop_live_given [OF p [unfolded Some y]] .
    have "r = SendHanded n w" "s1 = s2" using run p Some y False by (simp_all add: send_locked_def llam_channel_pop_live_receiver_def)
    then show ?thesis using hand_over [OF inv q P [unfolded Some y v]] by (simp add: send_result_def)
  qed
qed

fun recv_done :: "u64 \<Rightarrow> u64 \<Rightarrow> recv_outcome \<Rightarrow> transfer list" where
  "recv_done t c (RecvBuffered v x) = [Transfer t SelectRecv c v]"
| "recv_done t c (RecvDirect n v w) = [Transfer t SelectRecv c v]"
| "recv_done t c _ = []"

lemma wake_if_at_channel: "wake_if w n (at_channel c f s) = at_channel c f (wake_if w n s)"
  by (cases n) (simp_all add: wake_if_def llam_wake_wait_node_def llam_channel_select_node_should_wake_def at_channel_def)

text \<open>A value is taken from a full buffer and a waiting sender refills it.\<close>

lemma take_refill:
  assumes inv: "system_inv s" and q: "\<not> waiting (cs_pc s t)" and b: "0 < ch_count (cs_channel s c)" "buffer_take (cs_channel s c) = (v, ch)"
    and P: "pop_result (cs_woken s) SelectSend c (at_channel c (\<lambda>_. ch) s) (Some (n, v', w)) s2"
  shows "step_ok s [Transfer t SelectRecv c v, Transfer (waiter_task n) SelectSend c v'] t [Transfer t SelectRecv c v] (wake_if w n (at_channel c (buffer_put v') s2))"
    "places_kept s (wake_if w n (at_channel c (buffer_put v') s2))"
proof -
  let ?s0 = "at_channel c (\<lambda>_. ch) s" and ?s3 = "wake_if w n s2" and ?s' = "at_channel c (buffer_put v') (wake_if w n s2)"
  note ok = chan_okD [OF system_invD(2) [OF inv, of c]]
  have ch: "ch = snd (buffer_take (cs_channel s c))" using b(2) by simp
  have f: "framed s ?s0" by (simp add: framed_def)
  have w0: "waiters k (cs_channel ?s0 d) = waiters k (cs_channel s d)" for k d by (simp add: at_channel_def ch)
  have p0: "pend (cs_woken s) ?s0 = pend (cs_woken s) s" by (rule untouched_channels(2) [OF f _ _ w0]) simp_all
  have q0: "\<not> waiting (cs_pc ?s0 t)" and P0: "pop_result (cs_woken ?s0) SelectSend c ?s0 (Some (n, v', w)) s2" using q P by simp_all
  note S = served [OF P0 q0]
  obtain ns where ns: "ch_send_waiters (cs_channel s c) \<noteq> []" "shortened SelectSend c ns ?s0 s2" using P w0 [of SelectSend c] by (auto simp: pop_result_def)
  note sh = shortenedD [OF ns(2)] and T = take_ring [OF ok(1) b]
  have cap: "ch_capacity ch = ch_capacity (cs_channel s c)" and cnt: "ch_count ch = ch_count (cs_channel s c) - 1" and cl: "ch_closed ch = ch_closed (cs_channel s c)"
    using ch by simp_all
  have c2: "cs_channel s2 d = cs_channel s d" if "d \<noteq> c" for d using sh(1) [OF that] that by (simp add: at_channel_def)
  have e2: "contents (cs_channel s2 c) = contents ch" "ring_ok (cs_channel s2 c)" "ch_count (cs_channel s2 c) = ch_count (cs_channel s c) - 1"
    "ch_capacity (cs_channel s2 c) = ch_capacity (cs_channel s c)" "ch_closed (cs_channel s2 c) = ch_closed (cs_channel s c)"
    using sh(4-8) [of c] T(1) cap cnt cl by (simp_all add: at_channel_def)
  have less: "ch_count (cs_channel s c) - 1 < ch_capacity (cs_channel s c)" using ok(4) [OF ns(1)] word_gt_0 [THEN iffD1, OF b(1)] by (simp add: word_less_nat_alt unat_minus_one unat_gt_0)
  note R = put_ring [OF e2(2), unfolded e2(3,4), OF less, of v']
  have norecv: "ch_recv_waiters (cs_channel s2 c) = []" using sh(3) [of SelectRecv] w0 [of SelectRecv c] ok(2) b(1) by (metis order_less_irrefl select_kind.distinct(1) waiters.simps(1))
  have co: "chan_ok (cs_channel ?s' d)" for d
    using system_invD(2) [OF inv, of d] c2 [of d] S(3) R(1) norecv e2(3-5) ok(4,5) [OF ns(1)] by (simp add: at_channel_def chan_ok_def)
  have f3: "framed ?s3 ?s'" by (simp add: framed_def)
  have w3: "waiters k (cs_channel ?s' d) = waiters k (cs_channel ?s3 d)" for k d by (simp add: at_channel_def)
  note U = untouched_channels [OF f3 _ _ w3]
  have pl: "places_kept s ?s'" using S(4) by (simp add: places_kept_def)
  have i: "system_inv ?s'" by (rule system_invI [OF _ co inv pl]) (use U(1) S(1) in simp)
  have fl: "flows s [Transfer t SelectRecv c v, Transfer (waiter_task n) SelectSend c v'] ?s'"
    using T(2) R(2) e2 c2 S(3) less cnt by (intro flows_one [of c]) (simp_all add: at_channel_def word_less_nat_alt)
  have "balances s [Transfer t SelectRecv c v, Transfer (waiter_task n) SelectSend c v'] t [Transfer t SelectRecv c v] ?s'"
    by (rule balances_peer [OF _ _ pend_quiet [OF q] S(2)]) (use U(2) S(2,5,6) p0 in auto)
  then show "step_ok s [Transfer t SelectRecv c v, Transfer (waiter_task n) SelectSend c v'] t [Transfer t SelectRecv c v] (wake_if w n (at_channel c (buffer_put v') s2))"
    "places_kept s (wake_if w n (at_channel c (buffer_put v') s2))"
    using i fl pl by (simp_all add: step_ok_def wake_if_at_channel)
qed

text \<open>A value is taken and nobody is there to refill the buffer.\<close>

lemma take_alone:
  assumes inv: "system_inv s" and q: "\<not> waiting (cs_pc s t)" and b: "0 < ch_count (cs_channel s c)" "buffer_take (cs_channel s c) = (v, ch)"
    and P: "pop_result (cs_woken s) SelectSend c (at_channel c (\<lambda>_. ch) s) None s2"
  shows "step_ok s [Transfer t SelectRecv c v] t [Transfer t SelectRecv c v] s2" "places_kept s s2"
proof -
  let ?s0 = "at_channel c (\<lambda>_. ch) s"
  note ok = chan_okD [OF system_invD(2) [OF inv, of c]]
  have ch: "ch = snd (buffer_take (cs_channel s c))" using b(2) by simp
  have f: "framed s ?s0" by (simp add: framed_def)
  have w0: "waiters k (cs_channel ?s0 d) = waiters k (cs_channel s d)" for k d by (simp add: at_channel_def ch)
  have p0: "pend (cs_woken s) ?s0 = pend (cs_woken s) s" by (rule untouched_channels(2) [OF f _ _ w0]) simp_all
  have f2: "framed s s2" and sh2: "shortened SelectSend c [] ?s0 s2" and w2: "wait_inv (cs_woken s) s2" and p2: "pend (cs_woken s) s2 = pend (cs_woken s) s"
    using P p0 framed_trans [OF f] by (auto simp: pop_result_def)
  note sh = shortenedD [OF sh2] and T = take_ring [OF ok(1) b]
  have c2: "cs_channel s2 d = cs_channel s d" if "d \<noteq> c" for d using sh(1) [OF that] that by (simp add: at_channel_def)
  have e2: "contents (cs_channel s2 c) = contents ch" "ring_ok (cs_channel s2 c)" "ch_capacity (cs_channel s2 c) = ch_capacity (cs_channel s c)"
    using sh(4-8) [of c] T(1) ch by (simp_all add: at_channel_def)
  have none: "ch_recv_waiters (cs_channel s2 c) = []" "ch_send_waiters (cs_channel s2 c) = []"
    using sh(2) sh(3) [of SelectRecv] w0 [of SelectRecv c] ok(2) b(1) by (metis order_less_irrefl select_kind.distinct(1) waiters.simps)+
  have co: "chan_ok (cs_channel s2 d)" for d
    using system_invD(2) [OF inv, of d] c2 [of d] e2(2) none by (cases "d = c") (simp_all add: chan_ok_def)
  show pl: "places_kept s s2" by (rule framed_places [OF f2])
  have i: "system_inv s2" by (rule system_invI [OF _ co inv pl]) (use w2 framedD(5) [OF f2] in simp)
  have "flows s [Transfer t SelectRecv c v] s2" using T(2) e2 c2 by (intro flows_one [of c]) simp_all
  moreover have "balances s [Transfer t SelectRecv c v] t [Transfer t SelectRecv c v] s2"
    by (rule balances_alone) (use p2 framedD(5) [OF f2] pend_quiet [OF q] in simp_all)
  ultimately show "step_ok s [Transfer t SelectRecv c v] t [Transfer t SelectRecv c v] s2" using i by (simp add: step_ok_def)
qed

lemma recv_locked_result:
  assumes inv: "system_inv s" and q: "\<not> waiting (cs_pc s t)" and run: "recv_locked c s = (r, s1)"
  shows "step_ok s (recv_transfers t c r) t (recv_done t c r) (recv_wake r s1) \<and> places_kept s (recv_wake r s1) \<and>
    (r = RecvEmpty \<longrightarrow> ch_count (cs_channel s1 c) = 0 \<and> \<not> ch_closed (cs_channel s1 c) \<and> ch_send_waiters (cs_channel s1 c) = [])"
proof (cases "0 < ch_count (cs_channel s c)")
  case True
  obtain v ch where b: "buffer_take (cs_channel s c) = (v, ch)" by (metis prod.exhaust)
  let ?s0 = "at_channel c (\<lambda>_. ch) s"
  have ch: "ch = snd (buffer_take (cs_channel s c))" using b by simp
  have f: "framed s ?s0" by (simp add: framed_def)
  have w0: "waiters k (cs_channel ?s0 d) = waiters k (cs_channel s d)" for k d by (simp add: at_channel_def ch)
  have i0: "wait_inv (cs_woken s) ?s0" using untouched_channels(1) [OF f _ _ w0] system_invD(1) [OF inv] by simp
  obtain x s2 where p: "pop_live SelectSend c None (ch_send_waiters (cs_channel ?s0 c)) ?s0 = (x, s2)" by (metis prod.exhaust)
  have P: "pop_result (cs_woken s) SelectSend c ?s0 x s2" by (rule pop_live_result [OF i0 _ _ p]) simp_all
  show ?thesis
  proof (cases x)
    case None
    have "r = RecvBuffered v None" "s1 = s2" using run p None True b by (simp_all add: recv_locked_def llam_channel_pop_live_sender_def)
    then show ?thesis using take_alone [OF inv q True b P [unfolded None]] by simp
  next
    case (Some y)
    obtain n v' w where y: "y = (n, v', w)" using prod_cases3 by blast
    have "r = RecvBuffered v (Some (n, v', w))" "s1 = at_channel c (buffer_put v') s2"
      using run p Some y True b by (simp_all add: recv_locked_def llam_channel_pop_live_sender_def)
    then show ?thesis using take_refill [OF inv q True b P [unfolded Some y]] by simp
  qed
next
  case False
  note ok = chan_okD [OF system_invD(2) [OF inv, of c]]
  have z: "ch_count (cs_channel s c) = 0" using False by (simp add: word_gt_0)
  have e: "ch_send_waiters (cs_channel s c) = []" using ok(4) ring_count(2) [OF ok(1)] z by (metis word_gt_0)
  show ?thesis using run False e z step_ok_refl [OF inv]
    by (auto simp: recv_locked_def llam_channel_pop_live_sender_def places_kept_def split: if_splits)
qed

text \<open>A task queues itself and waits.\<close>

lemma push_fields [simp]:
  "cs_pc (push_waiter k c n nd s) = cs_pc s" "cs_ops (push_waiter k c n nd s) = cs_ops s" "cs_parked (push_waiter k c n nd s) = cs_parked s"
  "cs_abort (push_waiter k c n nd s) = cs_abort s" "cs_woken (push_waiter k c n nd s) = cs_woken s" "cs_select (push_waiter k c n nd s) = cs_select s"
  "cs_node (push_waiter k c n nd s) = (cs_node s)(n := nd)" "cs_shard (push_waiter k c n nd s) = cs_shard s" "cs_deadline (push_waiter k c n nd s) = cs_deadline s"
  by (simp_all add: push_waiter_def)

lemma push_channel:
  "cs_channel (push_waiter k c n nd s) d = (if d = c then set_waiters k (waiters k (cs_channel s c) @ [n]) (cs_channel s c) else cs_channel s d)"
  by (simp add: push_waiter_def at_channel_def)

lemma on_push: "on (push_waiter k c n nd s) m = (if m = n then insert (k, c) (on s m) else on s m)"
  by (auto simp: on_def push_channel split: if_splits)

lemma distinct_push: "(k, c) \<notin> on s n \<Longrightarrow> (\<And>k c. distinct (waiters k (cs_channel s c))) \<Longrightarrow> distinct (waiters k' (cs_channel (push_waiter k c n nd s) d))"
  by (auto simp: push_channel on_def)

text \<open>The state of the channel in which waiting makes sense.\<close>

definition must_wait :: "select_kind \<Rightarrow> channel \<Rightarrow> bool" where
  "must_wait k ch \<longleftrightarrow> \<not> ch_closed ch \<and> (case k of SelectRecv \<Rightarrow> ch_count ch = 0 | SelectSend \<Rightarrow> ch_count ch = ch_capacity ch)"

lemma chan_ok_push: "chan_ok ch \<Longrightarrow> must_wait k ch \<Longrightarrow> chan_ok (set_waiters k ns ch)"
  by (cases k) (auto simp: chan_ok_def must_wait_def ring_ok_def)

lemma push_plain:
  assumes inv: "system_inv s" and q: "\<not> waiting (cs_pc s t)" and pc: "plain_op pc = Some (k, c, v)" and v: "k = SelectSend \<Longrightarrow> wn_value nd = v" and m: "must_wait k (cs_channel s c)"
  shows "step_ok s [] t [] (at_pc t pc (push_waiter k c (PlainNode t) nd (s\<lparr>cs_woken := (cs_woken s)(t := False)\<rparr>)))" (is "step_ok s [] t [] ?s")
proof -
  note w = system_invD(1) [OF inv]
  note old = wait_invD(1,2) [OF w, of t] and nq = not_waitingD [OF q]
  have ns: "\<not> selecting pc" using pc selecting_plain by fastforce
  have on: "on ?s n = (if n = PlainNode t then insert (k, c) (on s n) else on s n)" for n by (simp add: on_push)
  have e: "on s (PlainNode t) = {}" using old(1) nq(1) by (simp add: plain_ok_def)
  have u: "untouched (cs_woken s) s (cs_woken ?s) ?s x" if "x \<noteq> t" for x using that on by (auto simp: untouched_def)
  show ?thesis
  proof (rule own_step [OF inv u])
    show "plain_ok (cs_woken ?s) ?s t" using e pc v on by (simp add: plain_ok_def)
    show "select_ok (cs_woken ?s) ?s t" using old(2) nq(2) ns on by (simp add: select_ok_outside)
    show "distinct (waiters k' (cs_channel ?s d))" for k' d
      using distinct_push [of k c "s\<lparr>cs_woken := (cs_woken s)(t := False)\<rparr>" "PlainNode t"] e wait_invD(3) [OF w] by simp
    show "chan_ok (cs_channel ?s d)" for d
      using system_invD(2) [OF inv, of d] chan_ok_push [OF system_invD(2) [OF inv, of c] m] by (simp add: push_channel)
    show "cs_pc ?s t \<noteq> SelectPair" using pc by (auto simp: plain_op_def)
    show "pend (cs_woken s) s t = [] @ pend (cs_woken ?s) ?s t" using pend_quiet [OF q] pc by (simp add: pend_def)
  qed (simp_all add: push_channel)
qed

section \<open>Calls on one channel\<close>

text \<open>What a step that ends with an event has to satisfy.\<close>

definition event_ok :: "u64 \<Rightarrow> channel_system \<Rightarrow> channel_event \<times> channel_system \<Rightarrow> bool" where
  "event_ok t s x \<longleftrightarrow> (case x of (ev, s') \<Rightarrow> step_ok s (fst ev) t (reports t ev) s' \<and> (\<forall>u r. snd ev = Some (u, r) \<longrightarrow> u = t))"

lemma try_send_ok:
  assumes "system_inv s" "\<not> waiting (cs_pc s t)" "llam_channel_try_send t c v s = (ts, r, s')"
  shows "step_ok s ts t (case r of Inr _ \<Rightarrow> [Transfer t SelectSend c v] | Inl _ \<Rightarrow> []) s'" "places_kept s s'"
    "r = Inl e \<Longrightarrow> ts = []" "r = Inl e \<Longrightarrow> e = EPIPE \<or> e = EAGAIN"
proof -
  obtain x s1 where x: "send_locked c v s = (x, s1)" by (metis prod.exhaust)
  note L = send_locked_result [OF assms(1,2) x, unfolded send_result_def]
  show "step_ok s ts t (case r of Inr _ \<Rightarrow> [Transfer t SelectSend c v] | Inl _ \<Rightarrow> []) s'" "places_kept s s'" "r = Inl e \<Longrightarrow> ts = []" "r = Inl e \<Longrightarrow> e = EPIPE \<or> e = EAGAIN"
    using L assms(3) x by (cases x; auto simp: llam_channel_try_send_def)+
qed

lemma try_recv_ok:
  assumes "system_inv s" "\<not> waiting (cs_pc s t)" "llam_channel_try_recv_result True t c s = (ts, r, s')"
  shows "step_ok s ts t (case r of Inr v \<Rightarrow> [Transfer t SelectRecv c v] | Inl _ \<Rightarrow> []) s'" "places_kept s s'"
    "r = Inl e \<Longrightarrow> ts = []" "r = Inl e \<Longrightarrow> e = EPIPE \<or> e = EAGAIN"
proof -
  obtain x s1 where x: "recv_locked c s = (x, s1)" by (metis prod.exhaust)
  note L = recv_locked_result [OF assms(1,2) x]
  show "step_ok s ts t (case r of Inr v \<Rightarrow> [Transfer t SelectRecv c v] | Inl _ \<Rightarrow> []) s'" "places_kept s s'" "r = Inl e \<Longrightarrow> ts = []" "r = Inl e \<Longrightarrow> e = EPIPE \<or> e = EAGAIN"
    using L assms(3) x by (cases x; auto simp: llam_channel_try_recv_result_def)+
qed

lemma send_ok:
  assumes "system_inv s" "\<not> waiting (cs_pc s t)"
  shows "event_ok t s (returning t (RetSend c v) (llam_channel_send_impl env t c v s))"
proof -
  obtain x s1 where x: "send_locked c v s = (x, s1)" by (metis prod.exhaust)
  note L = send_locked_result [OF assms x, unfolded send_result_def]
  let ?nd = "plain_node t v (we_cancellable env) s1"
  have w: "step_ok s ([] @ []) t ([] @ []) (at_pc t (SendWaiting c v) (push_waiter SelectSend c (PlainNode t) ?nd (s1\<lparr>cs_woken := (cs_woken s1)(t := False)\<rparr>)))"
    if "x = SendFull"
  proof (rule step_ok_trans)
    show s: "step_ok s [] t [] s1" using L that by simp
    show "step_ok s1 [] t [] (at_pc t (SendWaiting c v) (push_waiter SelectSend c (PlainNode t) ?nd (s1\<lparr>cs_woken := (cs_woken s1)(t := False)\<rparr>)))"
    proof (rule push_plain [OF step_okD(1) [OF s]])
      show "\<not> waiting (cs_pc s1 t)" using assms(2) L that by (simp add: places_kept_def)
      show "must_wait SelectSend (cs_channel s1 c)" using L that by (simp add: must_wait_def)
    qed (simp_all add: plain_op_def plain_node_def)
  qed
  show ?thesis
    using L w x by (cases x) (auto simp: send_fast_same send_slow_def returning_def event_ok_def reports_def)
qed

lemma recv_ok:
  assumes "system_inv s" "\<not> waiting (cs_pc s t)"
  shows "event_ok t s (returning t (RetRecv c) (llam_channel_recv_result_impl env t c s))"
proof -
  obtain x s1 where x: "recv_locked c s = (x, s1)" by (metis prod.exhaust)
  note L = recv_locked_result [OF assms x]
  let ?nd = "plain_node t 0 (we_cancellable env) s1"
  have w: "step_ok s ([] @ []) t ([] @ []) (at_pc t (RecvWaiting c) (push_waiter SelectRecv c (PlainNode t) ?nd (s1\<lparr>cs_woken := (cs_woken s1)(t := False)\<rparr>)))"
    if "x = RecvEmpty"
  proof (rule step_ok_trans)
    show s: "step_ok s [] t [] s1" using L that by simp
    show "step_ok s1 [] t [] (at_pc t (RecvWaiting c) (push_waiter SelectRecv c (PlainNode t) ?nd (s1\<lparr>cs_woken := (cs_woken s1)(t := False)\<rparr>)))"
    proof (rule push_plain [OF step_okD(1) [OF s]])
      show "\<not> waiting (cs_pc s1 t)" using assms(2) L that by (simp add: places_kept_def)
      show "must_wait SelectRecv (cs_channel s1 c)" using L that by (simp add: must_wait_def)
    qed (simp_all add: plain_op_def plain_node_def)
  qed
  show ?thesis
    using L w x by (cases x) (auto simp: llam_channel_recv_result_impl_def Let_def returning_def event_ok_def reports_def)
qed

lemma detach_keeps_wakes:
  assumes "detach_result wk k c s L s'" "wakes n True s"
  shows "wakes n True s'"
proof (cases n)
  case (SelectNode t i)
  have "\<not> open_phase (ss_completed (cs_select s t))" using assms(2) SelectNode by (simp add: wakes_def llam_channel_select_node_should_wake_def open_phase_def)
  then have "cs_select s' t = cs_select s t" "cs_parked s' = cs_parked s" using assms(1) by (simp_all add: detach_result_def framed_def)
  then show ?thesis using assms(2) SelectNode by (simp add: wakes_def llam_channel_select_node_should_wake_def)
qed (simp add: wakes_def)

text \<open>Closing a channel takes every waiter off, with an error and nothing transferred, and wakes them.\<close>

lemma close_step:
  assumes inv: "system_inv s" and d1: "detach_all SelectSend c EPIPE (waiters SelectSend (cs_channel s c)) (at_channel c (\<lambda>ch. ch\<lparr>ch_closed := True\<rparr>) s) = (L1, s1)"
    and d2: "detach_all SelectRecv c EPIPE (waiters SelectRecv (cs_channel s1 c)) s1 = (L2, s2)"
  shows "step_ok s [] t [] (llam_channel_wake_detached_waiters L2 (llam_channel_wake_detached_waiters L1 s2))" (is "step_ok s [] t [] ?s")
proof -
  let ?z = "at_channel c (\<lambda>ch. ch\<lparr>ch_closed := True\<rparr>) s" and ?w1 = "also_woken L1 (cs_woken s)"
  have f0: "framed s ?z" by (simp add: framed_def)
  have w0: "waiters k (cs_channel ?z d) = waiters k (cs_channel s d)" for k d by (simp add: at_channel_def)
  note U = untouched_channels [OF f0 _ _ w0, simplified]
  have D1: "detach_result (cs_woken s) SelectSend c ?z L1 s1"
    by (rule detach_all_result [OF _ _ _ d1]) (use U system_invD(1) [OF inv] w0 [of SelectSend c] in simp_all)
  then have wi1: "wait_inv ?w1 s1" and p1: "pend ?w1 s1 = pend (cs_woken s) s" and sh1: "shortened SelectSend c [] ?z s1" and f1: "framed ?z s1"
    and n1: "n \<in> set L1 \<Longrightarrow> wakes n True s1" for n using U by (simp_all add: detach_result_def)
  have D2: "detach_result ?w1 SelectRecv c s1 L2 s2" by (rule detach_all_result [OF wi1 refl _ d2]) simp
  then have wi2: "wait_inv (also_woken L2 ?w1) s2" and p2: "pend (also_woken L2 ?w1) s2 = pend (cs_woken s) s" and sh2: "shortened SelectRecv c [] s1 s2" and f2: "framed s1 s2"
    and n2: "n \<in> set L2 \<Longrightarrow> wakes n True s2" for n using p1 by (simp_all add: detach_result_def)
  have f: "framed s s2" using f0 f1 f2 framed_trans by blast
  have s': "?s = s2\<lparr>cs_woken := also_woken L2 ?w1\<rparr>"
    using wake_all [of L1 s2] wake_all [of L2 "s2\<lparr>cs_woken := ?w1\<rparr>"] n1 n2 detach_keeps_wakes [OF D2] framedD(5) [OF f] by simp
  note a = shortenedD [OF sh1] and b = shortenedD [OF sh2]
  have oth: "cs_channel ?s d = cs_channel s d" if "d \<noteq> c" for d using a(1) [OF that] b(1) [OF that] that by (simp add: s' at_channel_def)
  have e: "ch_recv_waiters (cs_channel ?s c) = []" "ch_send_waiters (cs_channel ?s c) = []"
    using b(2) b(3) [of SelectSend] a(2) by (simp_all add: s')
  have g: "ring_ok (cs_channel ?s c) = ring_ok (cs_channel s c)" "contents (cs_channel ?s c) = contents (cs_channel s c)" "ch_capacity (cs_channel ?s c) = ch_capacity (cs_channel s c)"
    using a(5,7,8) [of c] b(5,7,8) [of c] by (simp_all add: s' at_channel_def ring_ok_def contents_def)
  have co: "chan_ok (cs_channel ?s d)" for d using system_invD(2) [OF inv, of d] oth e g by (cases "d = c") (simp_all add: chan_ok_def)
  have pl: "places_kept s ?s" using framedD [OF f] by (simp add: s' places_kept_def)
  have "system_inv ?s" by (rule system_invI [OF _ co inv pl]) (use wi2 in \<open>simp add: s'\<close>)
  moreover have "flows s [] ?s" using oth g by (intro flows_one [of c]) simp_all
  moreover have "balances s [] t [] ?s" using p2 by (simp add: balances_def s')
  ultimately show ?thesis by (simp add: step_ok_def)
qed

lemma close_ok:
  assumes "system_inv s" "llam_channel_close pin c s = (r, s')"
  shows "event_ok t s (([], Some (t, RetClose r)), s')"
proof -
  let ?z = "at_channel c (\<lambda>ch. ch\<lparr>ch_closed := True\<rparr>) s"
  obtain L1 s1 where d1: "detach_all SelectSend c EPIPE (waiters SelectSend (cs_channel s c)) ?z = (L1, s1)" by (metis prod.exhaust)
  obtain L2 s2 where d2: "detach_all SelectRecv c EPIPE (waiters SelectRecv (cs_channel s1 c)) s1 = (L2, s2)" by (metis prod.exhaust)
  have "llam_channel_detach_all_waiters_locked SelectSend c EPIPE ?z = (L1, s1)" "llam_channel_detach_all_waiters_locked SelectRecv c EPIPE s1 = (L2, s2)"
    using d1 d2 by (simp_all add: llam_channel_detach_all_waiters_locked_def at_channel_def)
  then have "s' = s \<or> s' = llam_channel_wake_detached_waiters L2 (llam_channel_wake_detached_waiters L1 s2)"
    using assms(2) by (simp add: llam_channel_close_def Let_def split: if_splits sum.splits)
  then have "step_ok s [] t [] s'" using step_ok_refl [OF assms(1)] close_step [OF assms(1) d1 d2] by auto
  then show ?thesis by (simp add: event_ok_def reports_def)
qed

text \<open>A task that waits alone: moving between the places of one wait changes nothing.\<close>

lemma waiting_move:
  assumes inv: "system_inv s" and p: "plain_op pc = plain_op (cs_pc s t)" "plain_op pc \<noteq> None"
  shows "step_ok s [] t [] (at_pc t pc s)"
proof -
  let ?t = "at_pc t pc s"
  note w = system_invD(1) [OF inv]
  note old = wait_invD(1,2) [OF w, of t]
  have ns: "\<not> selecting pc" "\<not> selecting (cs_pc s t)" using p selecting_plain by force+
  have u: "untouched (cs_woken s) s (cs_woken s) ?t x" if "x \<noteq> t" for x using that by (simp add: untouched_def)
  have e: "cs_woken ?t = cs_woken s" "cs_pc ?t t = pc" "on ?t = on s" "cs_node ?t = cs_node s" "cs_abort ?t = cs_abort s" by simp_all
  show ?thesis
  proof (rule own_step [OF inv])
    show "plain_ok (cs_woken ?t) ?t t" using old(1) unfolding plain_ok_def e p(1) .
    show "select_ok (cs_woken ?t) ?t t" using old(2) ns select_ok_outside [of ?t t] select_ok_outside [of s t] unfolding e by blast
    show "cs_pc ?t t \<noteq> SelectPair" using p(2) by (auto simp: plain_op_def)
    show "pend (cs_woken s) s t = [] @ pend (cs_woken ?t) ?t t" using p ns by (auto simp: pend_def split: option.splits)
  qed (use u wait_invD(3) [OF w] system_invD(2) [OF inv] in simp_all)
qed

lemma consumed_channel: "\<exists>fl. cs_channel (llam_channel_waiter_consumed c s) = (cs_channel s)(c := (cs_channel s c)\<lparr>ch_inflight := fl\<rparr>)"
  by (auto simp: llam_channel_waiter_consumed_def at_channel_def)

lemma chan_ok_inflight [simp]: "chan_ok (ch\<lparr>ch_inflight := fl\<rparr>) = chan_ok ch"
  by (simp add: chan_ok_def)

lemma consumed_step:
  assumes "system_inv s"
  shows "step_ok s [] t [] (llam_channel_waiter_consumed c s)" (is "step_ok s [] t [] ?s")
proof -
  obtain fl where ch: "cs_channel ?s = (cs_channel s)(c := (cs_channel s c)\<lparr>ch_inflight := fl\<rparr>)" using consumed_channel by blast
  have f: "framed s ?s" "cs_node ?s = cs_node s" "cs_select ?s = cs_select s" by (simp_all add: framed_def llam_channel_waiter_consumed_def)
  have w: "waiters k (cs_channel ?s d) = waiters k (cs_channel s d)" for k d by (simp add: ch)
  note U = untouched_channels [OF f w]
  have "system_inv ?s" by (rule system_invI [OF _ _ assms framed_places [OF f(1)]])
      (use U(1) framedD(5) [OF f(1)] system_invD(1,2) [OF assms] in \<open>simp_all add: ch\<close>)
  then show ?thesis using U(2) framedD(5) [OF f(1)] by (simp add: step_ok_def flows_def balances_def ch)
qed

lemma finish_ok:
  assumes inv: "system_inv s" and p: "plain_op (cs_pc s t) = Some (k, c, v)" and w: "cs_woken s t" and run: "finish_wait t c s = (r, s')"
  shows "step_ok s [] t (case r of Inr x \<Rightarrow> [Transfer t k c (if k = SelectSend then v else x)] | Inl e \<Rightarrow> []) s'"
proof -
  define s1 where "s1 = (if wn_scalar_value (cs_node s (PlainNode t)) \<noteq> 0 then llam_channel_waiter_consumed c s else s)"
  have s1: "step_ok s [] t [] s1" using consumed_step [OF inv] step_ok_refl [OF inv] by (simp add: s1_def)
  have s': "s' = at_pc t ChIdle s1" and r: "r = (let nd = cs_node s (PlainNode t) in if wn_error_code nd \<noteq> E_OK then Inl (wn_error_code nd) else Inr (wn_value nd))"
    using run by (auto simp: finish_wait_def s1_def Let_def)
  have k1: "cs_pc s1 = cs_pc s" "cs_node s1 = cs_node s" "cs_woken s1 = cs_woken s" by (simp_all add: s1_def llam_channel_waiter_consumed_def)
  note i1 = step_okD(1) [OF s1]
  note w1 = system_invD(1) [OF i1]
  note old = wait_invD(1,2) [OF w1, of t]
  have ns: "\<not> selecting (cs_pc s1 t)" using p k1 selecting_plain by fastforce
  have u: "untouched (cs_woken s1) s1 (cs_woken s') s' x" if "x \<noteq> t" for x using that by (simp add: untouched_def s')
  have idle: "plain_op ChIdle = None" "\<not> selecting ChIdle" by (simp_all add: plain_op_def selecting_def)
  have e: "cs_pc s' t = ChIdle" "on s' = on s1" "cs_abort s' = cs_abort s1" by (simp_all add: s')
  have "step_ok s1 [] t (case r of Inr x \<Rightarrow> [Transfer t k c (if k = SelectSend then v else x)] | Inl e \<Rightarrow> []) s'"
  proof (rule own_step [OF i1 u])
    show "plain_ok (cs_woken s') s' t" using old(1) p w k1 by (simp add: plain_ok_def e idle)
    show "select_ok (cs_woken s') s' t" using old(2) ns idle(2) select_ok_outside [of s' t] select_ok_outside [of s1 t] unfolding e by blast
    show "pend (cs_woken s1) s1 t = (case r of Inr x \<Rightarrow> [Transfer t k c (if k = SelectSend then v else x)] | Inl e \<Rightarrow> []) @ pend (cs_woken s') s' t"
      using p w k1 old(1) by (auto simp: pend_def r Let_def plain_ok_def e idle)
  qed (use wait_invD(3) [OF w1] system_invD(2) [OF i1] in \<open>simp_all add: s'\<close>)
  from step_ok_trans [OF s1 this] show ?thesis by simp
qed

text \<open>A node leaves a queue by itself.\<close>

definition without :: "select_kind \<Rightarrow> u64 \<Rightarrow> waiter \<Rightarrow> channel_system \<Rightarrow> channel_system" where
  "without k c n s = at_channel c (\<lambda>ch. set_waiters k (remove1 n (waiters k ch)) ch) s"

lemma without_fields [simp]:
  "cs_pc (without k c n s) = cs_pc s" "cs_ops (without k c n s) = cs_ops s" "cs_parked (without k c n s) = cs_parked s"
  "cs_abort (without k c n s) = cs_abort s" "cs_woken (without k c n s) = cs_woken s" "cs_select (without k c n s) = cs_select s"
  "cs_node (without k c n s) = cs_node s" "cs_shard (without k c n s) = cs_shard s" "cs_deadline (without k c n s) = cs_deadline s"
  by (simp_all add: without_def)

lemma on_without: "distinct (waiters k (cs_channel s c)) \<Longrightarrow> on (without k c n s) m = (if m = n then on s m - {(k, c)} else on s m)"
  by (auto simp: on_def without_def at_channel_def split: if_splits)

lemma without_channel: "\<exists>ns. shortened k c ns s (without k c n s) \<and> (ns \<noteq> [] \<longrightarrow> waiters k (cs_channel s c) \<noteq> [])"
proof (intro exI conjI)
  show "shortened k c (remove1 n (waiters k (cs_channel s c))) s (without k c n s)"
    unfolding shortened_def without_def at_channel_def
    by (rule exI [of _ "ch_inflight (set_waiters k (remove1 n (waiters k (cs_channel s c))) (cs_channel s c))"]) simp
qed auto

lemma distinct_without: "(\<And>k c. distinct (waiters k (cs_channel s c))) \<Longrightarrow> distinct (waiters k' (cs_channel (without k c n s) d))"
  by (auto simp: without_def at_channel_def)

lemma without_id: "n \<notin> set (waiters k (cs_channel s c)) \<Longrightarrow> without k c n s = s"
  by (simp add: without_def at_channel_def remove1_idem)

lemma leave_without: "leave_queue k c t s = ((k, c) \<in> on s (PlainNode t), without k c (PlainNode t) s)"
  by (simp add: leave_queue_def without_def on_def)

text \<open>What holds of the channels after nodes have left queues.\<close>

lemma chan_ok_without: "(\<And>d. chan_ok (cs_channel s d)) \<Longrightarrow> chan_ok (cs_channel (without k c n s) d)"
  using without_channel [of k c s n] chan_ok_shortened by blast

lemma flows_without: "ch_capacity (cs_channel (without k c n s) d) = ch_capacity (cs_channel s d)" "contents (cs_channel (without k c n s) d) = contents (cs_channel s d)"
  using without_channel [of k c s n] shortenedD(5,7) by blast+

lemma leave_ok:
  assumes inv: "system_inv s" and p: "plain_op (cs_pc s t) = Some (k, c, v)" and m: "(k, c) \<in> on s (PlainNode t)"
  shows "step_ok s [] t [] (at_pc t ChIdle (without k c (PlainNode t) s))" (is "step_ok s [] t [] ?s")
proof -
  note w = system_invD(1) [OF inv]
  note old = wait_invD(1,2) [OF w, of t] and q = queued_plain(2,3) [OF w m]
  have ns: "\<not> selecting (cs_pc s t)" using p selecting_plain by fastforce
  have idle: "plain_op ChIdle = None" "\<not> selecting ChIdle" by (simp_all add: plain_op_def selecting_def)
  have on: "on ?s n = (if n = PlainNode t then on s n - {(k, c)} else on s n)" for n using on_without [OF wait_invD(3) [OF w]] by simp
  have u: "untouched (cs_woken s) s (cs_woken s) ?s x" if "x \<noteq> t" for x using that on by (auto simp: untouched_def)
  have e: "cs_pc ?s t = ChIdle" "cs_abort ?s = cs_abort s" by simp_all
  show ?thesis
  proof (rule own_step [OF inv])
    show "plain_ok (cs_woken ?s) ?s t" using on q(2) by (simp add: plain_ok_def idle)
    show "select_ok (cs_woken ?s) ?s t" using old(2) ns idle(2) on select_ok_outside [of ?s t] select_ok_outside [of s t] unfolding e by auto
    show "distinct (waiters k' (cs_channel ?s d))" "chan_ok (cs_channel ?s d)" for k' d
      using distinct_without [of s] wait_invD(3) [OF w] chan_ok_without system_invD(2) [OF inv] by simp_all
    show "pend (cs_woken s) s t = [] @ pend (cs_woken ?s) ?s t" using p q(1) by (simp add: pend_def idle)
  qed (use u flows_without in simp_all)
qed

lemma resolve_ok:
  assumes inv: "system_inv s" and p: "plain_op (cs_pc s t) = Some (k, c, v)" and e: "e \<noteq> E_OK"
  shows "step_ok s [] t [] (resolve_wait k c t e s)"
proof (cases "(k, c) \<in> on s (PlainNode t)")
  case False
  then show ?thesis using step_ok_refl [OF inv] by (simp add: resolve_wait_def leave_without without_id on_def)
next
  case True
  note w = system_invD(1) [OF inv]
  define s1 where "s1 = (without k c (PlainNode t) s)\<lparr>cs_node := (cs_node s)(PlainNode t := (cs_node s (PlainNode t))\<lparr>wn_error_code := e\<rparr>)\<rparr>"
  have s': "resolve_wait k c t e s = s1\<lparr>cs_woken := (cs_woken s)(t := True)\<rparr>"
    using True by (simp add: resolve_wait_def leave_without s1_def llam_wake_wait_node_def)
  have on: "on s1 n = (if n = PlainNode t then on s n - {(k, c)} else on s n)" for n using on_without [OF wait_invD(3) [OF w]] by (simp add: s1_def)
  have d: "distinct (waiters k' (cs_channel s1 c'))" for k' c' using distinct_without [of s] wait_invD(3) [OF w] by (simp add: s1_def)
  have f: "framed s s1" and nd: "cs_node s1 = (cs_node s)(PlainNode t := (cs_node s (PlainNode t))\<lparr>wn_error_code := e\<rparr>)" and sel: "cs_select s1 = cs_select s"
    by (simp_all add: s1_def framed_def)
  have val: "k = SelectSend \<Longrightarrow> wn_value ((cs_node s (PlainNode t))\<lparr>wn_error_code := e\<rparr>) = wn_value (cs_node s (PlainNode t))" by simp
  note C = complete_plain [OF w on True d f nd sel val]
  have pl: "places_kept s (resolve_wait k c t e s)" by (simp add: s' s1_def places_kept_def)
  have pe: "pend ((cs_woken s)(t := True)) s1 = pend (cs_woken s) s" using C(2,3) e by (simp add: fun_eq_iff)
  have "system_inv (resolve_wait k c t e s)"
    by (rule system_invI [OF _ _ inv pl]) (use C(1) chan_ok_without system_invD(2) [OF inv] in \<open>simp_all add: s' s1_def\<close>)
  moreover have "flows s [] (resolve_wait k c t e s)" using flows_without by (simp add: flows_def s' s1_def)
  moreover have "balances s [] t [] (resolve_wait k c t e s)" using pe by (simp add: balances_def s')
  ultimately show ?thesis by (simp add: step_ok_def)
qed

section \<open>The steps of a select\<close>

lemma not_waiting_simps [simp]:
  "\<not> waiting ChIdle" "\<not> waiting (SelectProbe a b)" "\<not> waiting SelectPair" "\<not> waiting (SelectScan a b)" "\<not> waiting (SelectPeer a b)" "\<not> waiting (SelectEnter a)"
  "\<not> waiting (scan_next n SelectProbe a b)" "\<not> waiting (scan_next n SelectScan a b)" "\<not> waiting (select_start n a)"
  "scan_next n SelectProbe a b \<noteq> SelectPair" "scan_next n SelectScan a b \<noteq> SelectPair" "select_start n a \<noteq> SelectPair"
  by (simp_all add: waiting_def plain_op_def selecting_def scan_next_def select_start_def)

definition op_transfer :: "u64 \<Rightarrow> select_op \<Rightarrow> errno \<Rightarrow> u64 \<Rightarrow> transfer list" where
  "op_transfer t op e v = (if e = E_OK then [Transfer t (so_kind op) (so_channel op) (case so_kind op of SelectRecv \<Rightarrow> v | SelectSend \<Rightarrow> so_value op)] else [])"

lemma try_locked_ok:
  assumes inv: "system_inv s" and q: "\<not> waiting (cs_pc s t)" and run: "llam_channel_select_try_one_locked op s = (r, s')"
  shows "r = TrySelected e v \<Longrightarrow> step_ok s (try_transfers t op r) t (op_transfer t op e v) s'" "places_kept s s'"
    "(\<And>e v. r \<noteq> TrySelected e v) \<Longrightarrow> s' = s" "r = TryNotReady \<Longrightarrow> must_wait (so_kind op) (cs_channel s (so_channel op))"
proof -
  let ?ch = "cs_channel s (so_channel op)"
  obtain x ch where b: "buffer_take ?ch = (x, ch)" by (metis prod.exhaust)
  note ok = chan_okD [OF system_invD(2) [OF inv, of "so_channel op"]]
  show "places_kept s s'" using run by (auto simp: llam_channel_select_try_one_locked_def Let_def b places_kept_def split: select_kind.splits if_splits)
  show "s' = s" if "\<And>e v. r \<noteq> TrySelected e v" using run that by (auto simp: llam_channel_select_try_one_locked_def Let_def b split: select_kind.splits if_splits)
  show "must_wait (so_kind op) ?ch" if "r = TryNotReady"
    using run that ring_count(1) [OF ok(1)] by (auto simp: llam_channel_select_try_one_locked_def Let_def b must_wait_def word_gt_0 not_less split: select_kind.splits if_splits)
  show "step_ok s (try_transfers t op r) t (op_transfer t op e v) s'" if r: "r = TrySelected e v"
  proof (cases "so_kind op")
    case SelectRecv
    show ?thesis
    proof (cases "0 < ch_count ?ch")
      case True
      then have "e = E_OK" "v = x" "s' = at_channel (so_channel op) (\<lambda>_. ch) s" "ch_send_waiters ?ch = []"
        using run r SelectRecv by (auto simp: llam_channel_select_try_one_locked_def Let_def b split: if_splits)
      then show ?thesis using take_channel [OF inv q True _ b] r SelectRecv by (simp add: op_transfer_def)
    next
      case False
      then have "e = EPIPE" "s' = s" using run r SelectRecv by (auto simp: llam_channel_select_try_one_locked_def Let_def split: if_splits)
      then show ?thesis using step_ok_refl [OF inv] r by (simp add: op_transfer_def)
    qed
  next
    case SelectSend
    show ?thesis
    proof (cases "ch_closed ?ch")
      case True
      then have "e = EPIPE" "s' = s" using run r SelectSend by (auto simp: llam_channel_select_try_one_locked_def Let_def)
      then show ?thesis using step_ok_refl [OF inv] r by (simp add: op_transfer_def)
    next
      case False
      then have "e = E_OK" "v = so_value op" "s' = at_channel (so_channel op) (buffer_put v) s" "ch_recv_waiters ?ch = []" "ch_count ?ch < ch_capacity ?ch"
        using run r SelectSend by (auto simp: llam_channel_select_try_one_locked_def Let_def split: if_splits)
      then show ?thesis using put_channel [OF inv q] r SelectSend by (simp add: op_transfer_def)
    qed
  qed
qed

lemma reports_select: "reports t (ts, Some (t, RetSelect ops (Inr (i, e, v)))) = op_transfer t (ops ! i) e v"
  by (simp add: reports_def op_transfer_def)

lemma then_move:
  assumes "step_ok s ts t xs s1" "\<not> waiting (cs_pc s1 t)" "\<not> waiting pc" "pc \<noteq> SelectPair"
  shows "step_ok s ts t xs (at_pc t pc s1)"
  using step_ok_trans [OF assms(1) quiet_move [OF step_okD(1) [OF assms(1)] assms(2,3)]] assms(4) by simp

lemma goto_ok:
  assumes "system_inv s" "\<not> waiting (cs_pc s t)" "\<not> waiting pc" "pc \<noteq> SelectPair \<or> length (cs_ops s t) = 2"
  shows "event_ok t s (goto t pc s)"
  using quiet_move [OF assms(1-3)] assms(4) by (simp add: goto_def event_ok_def reports_def)

lemma return_ok: "system_inv s \<Longrightarrow> \<not> waiting (cs_pc s t) \<Longrightarrow> event_ok t s (select_return t e s)"
  using quiet_move [of s t ChIdle] by (simp add: select_return_def event_ok_def reports_def)

lemma selected_ok:
  assumes inv: "system_inv s" and q: "\<not> waiting (cs_pc s t)" and run: "llam_channel_select_try_one_locked (cs_ops s t ! i) s = (TrySelected e v, s')"
  shows "event_ok t s (selected t i (TrySelected e v) s')"
proof -
  note T = try_locked_ok [OF inv q run]
  have p: "cs_ops s' = cs_ops s" "cs_pc s' = cs_pc s" using T(2) by (simp_all add: places_kept_def)
  have "step_ok s (try_transfers t (cs_ops s t ! i) (TrySelected e v)) t (op_transfer t (cs_ops s t ! i) e v) (at_pc t ChIdle s')"
    by (rule then_move [OF T(1) [OF refl]]) (use q p in simp_all)
  then show ?thesis by (simp add: selected_def event_ok_def reports_select p del: try_transfers.simps)
qed

lemma probe_ok:
  assumes inv: "system_inv s" and q: "\<not> waiting (cs_pc s t)"
  shows "event_ok t s (select_probe env t start i s)"
proof -
  let ?j = "scan_index (length (cs_ops s t)) start i"
  obtain r s' where r: "llam_channel_select_try_one_locked (cs_ops s t ! ?j) s = (r, s')" by (metis prod.exhaust)
  note T = try_locked_ok [OF inv q r]
  show ?thesis
  proof (cases r)
    case (TrySelected e v)
    then show ?thesis using selected_ok [OF inv q r [unfolded TrySelected]] goto_ok [OF inv q] r by (simp add: select_probe_def Let_def)
  next
    case TryNotReady
    then have "s' = s" using T(3) by simp
    then show ?thesis using goto_ok [OF inv q] r TryNotReady by (simp add: select_probe_def Let_def)
  next
    case TryFallback
    then have "s' = s" using T(3) by simp
    then show ?thesis using goto_ok [OF inv q] r TryFallback by (simp add: select_probe_def Let_def)
  qed
qed

lemma scan_ok:
  assumes inv: "system_inv s" and q: "\<not> waiting (cs_pc s t)"
  shows "event_ok t s (select_scan t start i s)"
proof -
  let ?j = "scan_index (length (cs_ops s t)) start i"
  obtain r s' where r: "llam_channel_select_try_one_locked (cs_ops s t ! ?j) s = (r, s')" by (metis prod.exhaust)
  note T = try_locked_ok [OF inv q r]
  show ?thesis
  proof (cases r)
    case (TrySelected e v)
    then show ?thesis using selected_ok [OF inv q r [unfolded TrySelected]] r by (simp add: select_scan_def Let_def)
  next
    case TryNotReady
    then have "s' = s" using T(3) by simp
    then show ?thesis using goto_ok [OF inv q] r TryNotReady by (simp add: select_scan_def Let_def)
  next
    case TryFallback
    then have "s' = s" using T(3) by simp
    then show ?thesis using goto_ok [OF inv q] r TryFallback by (simp add: select_scan_def Let_def)
  qed
qed

text \<open>An operation tried as a call of its own.\<close>

lemma try_one_ok:
  assumes inv: "system_inv s" and q: "\<not> waiting (cs_pc s t)" and run: "llam_channel_select_try_one t op s = (ts, r, s')"
  shows "(\<exists>e v. r = Inr (TrySelected e v) \<and> step_ok s ts t (op_transfer t op e v) s') \<or> ((\<exists>e. r = Inl e) \<or> r = Inr TryNotReady) \<and> step_ok s ts t [] s'" "places_kept s s'"
proof -
  have "((\<exists>e v. r = Inr (TrySelected e v) \<and> step_ok s ts t (op_transfer t op e v) s') \<or> ((\<exists>e. r = Inl e) \<or> r = Inr TryNotReady) \<and> step_ok s ts t [] s') \<and> places_kept s s'"
  proof (cases "so_kind op")
    case SelectRecv
    obtain us x s1 where x: "llam_channel_try_recv_result True t (so_channel op) s = (us, x, s1)" using prod_cases3 by blast
    note R = try_recv_ok [OF inv q x]
    show ?thesis using R(1,2) run x SelectRecv
      by (cases x) (auto simp: llam_channel_select_try_one_def op_transfer_def Let_def split: if_splits)
  next
    case SelectSend
    obtain us x s1 where x: "llam_channel_try_send t (so_channel op) (so_value op) s = (us, x, s1)" using prod_cases3 by blast
    note R = try_send_ok [OF inv q x]
    show ?thesis using R(1,2) run x SelectSend
      by (cases x) (auto simp: llam_channel_select_try_one_def op_transfer_def Let_def split: if_splits)
  qed
  then show "(\<exists>e v. r = Inr (TrySelected e v) \<and> step_ok s ts t (op_transfer t op e v) s') \<or> ((\<exists>e. r = Inl e) \<or> r = Inr TryNotReady) \<and> step_ok s ts t [] s'" "places_kept s s'"
    by blast+
qed

lemma peer_ok:
  assumes inv: "system_inv s" and q: "\<not> waiting (cs_pc s t)"
  shows "event_ok t s (select_peer t start i s)"
proof -
  let ?j = "scan_index (length (cs_ops s t)) start i"
  obtain ts r s' where r: "llam_channel_select_try_one t (cs_ops s t ! ?j) s = (ts, r, s')" using prod_cases3 by blast
  note T = try_one_ok [OF inv q r]
  have p: "cs_ops s' = cs_ops s" "\<not> waiting (cs_pc s' t)" using T(2) q by (simp_all add: places_kept_def)
  show ?thesis using T(1)
  proof (elim disjE exE conjE)
    fix e v assume "r = Inr (TrySelected e v)" "step_ok s ts t (op_transfer t (cs_ops s t ! ?j) e v) s'"
    with then_move [OF this(2) p(2)] r show ?thesis by (simp add: select_peer_def Let_def event_ok_def reports_select p)
  next
    fix e assume "r = Inl e" "step_ok s ts t [] s'"
    with then_move [OF this(2) p(2)] r show ?thesis by (simp add: select_peer_def Let_def event_ok_def reports_def p)
  next
    assume "r = Inr TryNotReady" "step_ok s ts t [] s'"
    with then_move [OF this(2) p(2)] r show ?thesis by (simp add: select_peer_def Let_def event_ok_def reports_def p)
  qed
qed

text \<open>Queueing the nodes of a select.\<close>

definition enqueue_from :: "u64 \<Rightarrow> (nat \<times> select_op) list \<Rightarrow> channel_system \<Rightarrow> channel_system" where
  "enqueue_from t xs s = fold (\<lambda>(i, op) s. push_waiter (so_kind op) (so_channel op) (SelectNode t i) (select_node t i op s) s) xs s"

lemma enqueue_simps [simp]: "enqueue_from t [] s = s"
  "enqueue_from t ((i, op) # xs) s = enqueue_from t xs (push_waiter (so_kind op) (so_channel op) (SelectNode t i) (select_node t i op s) s)"
  by (simp_all add: enqueue_from_def)

lemma enqueue_fields:
  "cs_pc (enqueue_from t xs s) = cs_pc s" "cs_ops (enqueue_from t xs s) = cs_ops s" "cs_parked (enqueue_from t xs s) = cs_parked s"
  "cs_abort (enqueue_from t xs s) = cs_abort s" "cs_woken (enqueue_from t xs s) = cs_woken s" "cs_select (enqueue_from t xs s) = cs_select s"
  by (induction xs arbitrary: s; auto)+

lemma enqueue_others:
  assumes "\<And>i. n \<noteq> SelectNode t i"
  shows "on (enqueue_from t xs s) n = on s n" "cs_node (enqueue_from t xs s) n = cs_node s n"
  using assms by (induction xs arbitrary: s; auto simp: on_push)+

lemma enqueue_on: "on (enqueue_from t xs s) (SelectNode t i) = on s (SelectNode t i) \<union> op_place ` {op. (i, op) \<in> set xs}"
  by (induction xs arbitrary: s) (auto simp: on_push op_place_def split: if_splits)

lemma enqueue_node_kept: "i \<notin> fst ` set xs \<Longrightarrow> cs_node (enqueue_from t xs s) (SelectNode t i) = cs_node s (SelectNode t i)"
  by (induction xs arbitrary: s) auto

lemma enqueue_node: "distinct (map fst xs) \<Longrightarrow> (i, op) \<in> set xs \<Longrightarrow> wn_value (cs_node (enqueue_from t xs s) (SelectNode t i)) = so_value op"
proof (induction xs arbitrary: s)
  case (Cons x xs)
  obtain j op' where x: "x = (j, op')" by (metis prod.exhaust)
  show ?case
  proof (cases "j = i")
    case True
    then have "op' = op" "i \<notin> fst ` set xs" using Cons.prems x by force+
    then show ?thesis using enqueue_node_kept x True by (simp add: select_node_def)
  qed (use Cons x in auto)
qed simp

lemma enqueue_channels:
  "ch_capacity (cs_channel (enqueue_from t xs s) d) = ch_capacity (cs_channel s d)" "contents (cs_channel (enqueue_from t xs s) d) = contents (cs_channel s d)"
  by (induction xs arbitrary: s; auto simp: push_channel)+

lemma must_wait_push: "must_wait k (cs_channel (push_waiter k' c n nd s) d) = must_wait k (cs_channel s d)"
  by (simp add: must_wait_def push_channel split: select_kind.split)

lemma enqueue_chan_ok:
  assumes "\<And>d. chan_ok (cs_channel s d)" "\<And>i op. (i, op) \<in> set xs \<Longrightarrow> must_wait (so_kind op) (cs_channel s (so_channel op))"
  shows "chan_ok (cs_channel (enqueue_from t xs s) d)"
  using assms
proof (induction xs arbitrary: s)
  case (Cons x xs)
  obtain i op where x: "x = (i, op)" by (metis prod.exhaust)
  have "must_wait (so_kind op) (cs_channel s (so_channel op))" using Cons.prems(2) [of i op] x by simp
  note c = chan_ok_push [OF Cons.prems(1) this]
  let ?s = "push_waiter (so_kind op) (so_channel op) (SelectNode t i) (select_node t i op s) s"
  have "chan_ok (cs_channel (enqueue_from t xs ?s) d)"
  proof (rule Cons.IH)
    show "chan_ok (cs_channel ?s d)" for d using Cons.prems(1) c by (simp add: push_channel)
    show "must_wait (so_kind op') (cs_channel ?s (so_channel op'))" if "(j, op') \<in> set xs" for j op' using Cons.prems(2) [of j op'] that by (simp add: must_wait_push)
  qed
  then show ?case using x by simp
qed simp

lemma enqueue_distinct:
  assumes "\<And>k d. distinct (waiters k (cs_channel s d))" "\<And>i. i \<in> fst ` set xs \<Longrightarrow> on s (SelectNode t i) = {}" "distinct (map fst xs)"
  shows "distinct (waiters k (cs_channel (enqueue_from t xs s) d))"
  using assms
proof (induction xs arbitrary: s)
  case (Cons x xs)
  obtain i op where x: "x = (i, op)" by (metis prod.exhaust)
  let ?s = "push_waiter (so_kind op) (so_channel op) (SelectNode t i) (select_node t i op s) s"
  have i: "on s (SelectNode t i) = {}" "i \<notin> fst ` set xs" using Cons.prems(2,3) x by auto
  have "distinct (waiters k (cs_channel (enqueue_from t xs ?s) d))"
  proof (rule Cons.IH)
    show "distinct (waiters k' (cs_channel ?s d'))" for k' d' using distinct_push [OF _ Cons.prems(1)] i(1) by simp
    show "on ?s (SelectNode t j) = {}" if "j \<in> fst ` set xs" for j using Cons.prems(2) [of j] that i(2) x by (auto simp: on_push)
  qed (use Cons.prems(3) in simp)
  then show ?case using x by simp
qed simp

lemma enumerate_facts:
  "distinct (map fst (enumerate 0 ops))" "(i, op) \<in> set (enumerate 0 ops) \<longleftrightarrow> i < length ops \<and> op = ops ! i"
  by (auto simp: in_set_enumerate_eq)

lemma enqueue_ok:
  assumes inv: "system_inv s" and q: "\<not> waiting (cs_pc s t)" and m: "\<And>op. op \<in> set (cs_ops s t) \<Longrightarrow> must_wait (so_kind op) (cs_channel s (so_channel op))"
  shows "event_ok t s (goto t SelectSetup (llam_channel_select_enqueue_nodes_locked t s))"
proof -
  define z where "z = s\<lparr>cs_select := (cs_select s)(t := \<lparr>ss_selected = None, ss_value = 0, ss_error = E_OK, ss_completed = SelectPending, ss_wake_queued = False\<rparr>),
    cs_woken := (cs_woken s)(t := False)\<rparr>"
  define xs where "xs = enumerate 0 (cs_ops s t)"
  define s' where "s' = at_pc t SelectSetup (enqueue_from t xs z)"
  have eq: "at_pc t SelectSetup (llam_channel_select_enqueue_nodes_locked t s) = s'"
    by (simp add: llam_channel_select_enqueue_nodes_locked_def s'_def enqueue_from_def xs_def z_def)
  note E = enqueue_fields and X = enumerate_facts [where ops = "cs_ops s t", folded xs_def]
  note w = system_invD(1) [OF inv] and nq = not_waitingD [OF q]
  note old = wait_invD(1,2) [OF w, of t]
  have z: "on z = on s" "cs_channel z = cs_channel s" "cs_node z = cs_node s" by (simp_all add: z_def on_def fun_eq_iff)
  have off: "on s (SelectNode t i) = {}" "cs_abort s t = AbortIdle" "on s (PlainNode t) = {}" for i
    using old nq by (simp_all add: select_ok_outside plain_ok_def)
  have on': "on s' (SelectNode t i) = (if i < length (cs_ops s t) then {op_place (cs_ops s t ! i)} else {})" for i
    using enqueue_on [of t xs z i] off(1) [of i] X(2) z(1) by (auto simp: s'_def)
  have pl: "on s' (PlainNode t) = on s (PlainNode t)" using enqueue_others [of "PlainNode t" t xs z] z by (simp add: s'_def)
  have pc: "cs_pc s' t = SelectSetup" "cs_ops s' = cs_ops s" "cs_abort s' = cs_abort s" by (simp_all add: s'_def E z_def)
  have st: "cs_select s' t = \<lparr>ss_selected = None, ss_value = 0, ss_error = E_OK, ss_completed = SelectPending, ss_wake_queued = False\<rparr>" "\<not> cs_woken s' t"
    by (simp_all add: s'_def E z_def)
  have sel: "selecting SelectSetup" "plain_op SelectSetup = None" by (simp_all add: selecting_def plain_op_def)
  have "step_ok s [] t [] s'"
  proof (rule own_step [OF inv])
    show "untouched (cs_woken s) s (cs_woken s') s' u" if "u \<noteq> t" for u
      unfolding untouched_def
    proof (intro conjI allI impI)
      fix n assume "waiter_task n = u"
      then have "\<And>i. n \<noteq> SelectNode t i" using that by auto
      from enqueue_others [OF this] show "on s' n = on s n" "cs_node s' n = cs_node s n" by (simp_all add: s'_def z)
    qed (use that in \<open>simp_all add: s'_def E z_def\<close>)
    show "plain_ok (cs_woken s') s' t" using pl off(3) by (simp add: plain_ok_def pc sel)
    show "select_ok (cs_woken s') s' t"
    proof (rule select_okI; unfold pc)
      show "wn_value (cs_node s' (SelectNode t i)) = so_value (cs_ops s t ! i)" if "i < length (cs_ops s t)" for i
        using enqueue_node [OF X(1)] X(2) that by (simp add: s'_def)
    qed (use sel on' st off(2) in \<open>simp_all add: allowed_def phase_ok_def result_ok_def has_left_def\<close>)
    show "distinct (waiters k (cs_channel s' d))" for k d
      using enqueue_distinct [of z xs t] wait_invD(3) [OF w] off(1) X(1) by (simp add: s'_def z)
    show "chan_ok (cs_channel s' d)" for d
      using enqueue_chan_ok [of z xs t d] system_invD(2) [OF inv] m X(2) by (simp add: s'_def z)
    show "ch_capacity (cs_channel s' d) = ch_capacity (cs_channel s d)" "contents (cs_channel s' d) = contents (cs_channel s d)" for d
      using enqueue_channels [of t xs z d] by (simp_all add: s'_def z)
    show "pend (cs_woken s) s t = [] @ pend (cs_woken s') s' t" using pend_quiet [OF q] by (simp add: pend_def pc sel st)
  qed (simp add: pc)
  then show ?thesis by (simp add: goto_def event_ok_def reports_def eq)
qed

lemma pair_ok:
  assumes inv: "system_inv s" and pc: "cs_pc s t = SelectPair"
  shows "event_ok t s (llam_channel_select_prepare_pair env t s)"
proof -
  have q: "\<not> waiting (cs_pc s t)" and len: "length (cs_ops s t) = 2" using pc system_invD(3) [OF inv] by simp_all
  have ops: "cs_ops s t = [cs_ops s t ! 0, cs_ops s t ! 1]" using len by (auto simp: numeral_2_eq_2 length_Suc_conv)
  obtain r0 s0 where r0: "llam_channel_select_try_one_locked (cs_ops s t ! 0) s = (r0, s0)" by (metis prod.exhaust)
  obtain r1 s1 where r1: "llam_channel_select_try_one_locked (cs_ops s t ! 1) s = (r1, s1)" by (metis prod.exhaust)
  note T0 = try_locked_ok [OF inv q r0] and T1 = try_locked_ok [OF inv q r1]
  show ?thesis
  proof (cases r0)
    case (TrySelected e v)
    then show ?thesis using selected_ok [OF inv q r0 [unfolded TrySelected]] r0 by (simp add: llam_channel_select_prepare_pair_def)
  next
    case TryFallback
    then have "s0 = s" using T0(3) by simp
    then show ?thesis using goto_ok [OF inv q] r0 TryFallback by (simp add: llam_channel_select_prepare_pair_def)
  next
    case nr: TryNotReady
    then have s0: "s0 = s" using T0(3) by simp
    show ?thesis
    proof (cases r1)
      case (TrySelected e v)
      then show ?thesis using selected_ok [OF inv q r1 [unfolded TrySelected]] r0 r1 s0 nr by (simp add: llam_channel_select_prepare_pair_def)
    next
      case TryFallback
      then have "s1 = s" using T1(3) by simp
      then show ?thesis using goto_ok [OF inv q] r0 r1 s0 nr TryFallback by (simp add: llam_channel_select_prepare_pair_def)
    next
      case TryNotReady
      then have s1: "s1 = s" using T1(3) by simp
      have m: "must_wait (so_kind op) (cs_channel s (so_channel op))" if "op \<in> set (cs_ops s t)" for op
      proof -
        have "op = cs_ops s t ! 0 \<or> op = cs_ops s t ! 1" using that ops by (metis empty_iff insert_iff list.set)
        then show ?thesis using T0(4) [OF nr] T1(4) [OF TryNotReady] by blast
      qed
      show ?thesis using enqueue_ok [OF inv q m] return_ok [OF inv q] r0 r1 s0 s1 nr TryNotReady by (simp add: llam_channel_select_prepare_pair_def)
    qed
  qed
qed

lemma not_ready: "chan_ok (cs_channel s (so_channel op)) \<Longrightarrow> \<not> llam_channel_select_op_may_run_locked op s \<Longrightarrow> must_wait (so_kind op) (cs_channel s (so_channel op))"
  using ring_count(1) [OF chan_okD(1)]
  by (fastforce simp: llam_channel_select_op_may_run_locked_def Let_def must_wait_def word_gt_0 not_less split: select_kind.splits)

lemma enter_ok:
  assumes inv: "system_inv s" and q: "\<not> waiting (cs_pc s t)"
  shows "event_ok t s (select_enter env t start s)"
proof -
  have "event_ok t s (goto t SelectSetup (llam_channel_select_enqueue_nodes_locked t s))" if "\<not> llam_channel_select_any_ready_locked (cs_ops s t) s"
    by (rule enqueue_ok [OF inv q]) (use that not_ready system_invD(2) [OF inv] in \<open>auto simp: llam_channel_select_any_ready_locked_def\<close>)
  then show ?thesis using return_ok [OF inv q] goto_ok [OF inv q] by (simp add: select_enter_def)
qed

text \<open>Taking the nodes of a select off the queues.\<close>

definition cleanup_from :: "u64 \<Rightarrow> (nat \<times> select_op) list \<Rightarrow> channel_system \<Rightarrow> channel_system" where
  "cleanup_from t xs s = fold (\<lambda>(i, op). without (so_kind op) (so_channel op) (SelectNode t i)) xs s"

lemma cleanup_simps [simp]: "cleanup_from t [] s = s"
  "cleanup_from t ((i, op) # xs) s = cleanup_from t xs (without (so_kind op) (so_channel op) (SelectNode t i) s)"
  by (simp_all add: cleanup_from_def)

lemma cleanup_nodes: "llam_channel_select_cleanup_nodes t s = cleanup_from t (enumerate 0 (cs_ops s t)) s"
  by (simp add: llam_channel_select_cleanup_nodes_def cleanup_from_def without_def [abs_def])

lemma cleanup_fields:
  "cs_pc (cleanup_from t xs s) = cs_pc s" "cs_ops (cleanup_from t xs s) = cs_ops s" "cs_parked (cleanup_from t xs s) = cs_parked s"
  "cs_abort (cleanup_from t xs s) = cs_abort s" "cs_woken (cleanup_from t xs s) = cs_woken s" "cs_select (cleanup_from t xs s) = cs_select s"
  "cs_node (cleanup_from t xs s) = cs_node s"
  by (induction xs arbitrary: s; auto)+

lemma cleanup_channels:
  "ch_capacity (cs_channel (cleanup_from t xs s) d) = ch_capacity (cs_channel s d)" "contents (cs_channel (cleanup_from t xs s) d) = contents (cs_channel s d)"
  by (induction xs arbitrary: s; auto simp: flows_without)+

lemma cleanup_chan_ok: "(\<And>d. chan_ok (cs_channel s d)) \<Longrightarrow> chan_ok (cs_channel (cleanup_from t xs s) d)"
  by (induction xs arbitrary: s) (auto simp: chan_ok_without)

lemma cleanup_distinct: "(\<And>k d. distinct (waiters k (cs_channel s d))) \<Longrightarrow> distinct (waiters k (cs_channel (cleanup_from t xs s) d))"
proof (induction xs arbitrary: s)
  case (Cons x xs)
  obtain i op where x: "x = (i, op)" by (metis prod.exhaust)
  show ?case unfolding x cleanup_simps by (rule Cons.IH) (use distinct_without [OF Cons.prems] in blast)
qed simp

lemma cleanup_on:
  assumes "\<And>k d. distinct (waiters k (cs_channel s d))"
  shows "on (cleanup_from t xs s) n = (case n of PlainNode u \<Rightarrow> on s n | SelectNode u i \<Rightarrow> if u = t then on s n - op_place ` {op. (i, op) \<in> set xs} else on s n)"
  using assms
proof (induction xs arbitrary: s)
  case (Cons x xs)
  obtain i op where x: "x = (i, op)" by (metis prod.exhaust)
  let ?s = "without (so_kind op) (so_channel op) (SelectNode t i) s"
  note IH = Cons.IH [of ?s, OF distinct_without [OF Cons.prems]]
  have "on ?s m = (if m = SelectNode t i then on s m - {op_place op} else on s m)" for m
    using on_without [OF Cons.prems] by (simp add: op_place_def)
  then show ?case unfolding x cleanup_simps IH by (cases n) auto
qed (simp split: waiter.split)

text \<open>After that none of them is queued, if they were only where they belong.\<close>

lemma cleaned:
  assumes "wait_inv wk s" "selecting (cs_pc s t)"
  shows "on (llam_channel_select_cleanup_nodes t s) (SelectNode t i) = {}"
    "(\<And>i. n \<noteq> SelectNode t i) \<Longrightarrow> on (llam_channel_select_cleanup_nodes t s) n = on s n"
proof -
  note C = cleanup_on [OF wait_invD(3) [OF assms(1)], of t "enumerate 0 (cs_ops s t)", folded cleanup_nodes]
  have "on s (SelectNode t i) \<subseteq> allowed (cs_ops s t) i" by (rule select_okD(1) [OF wait_invD(2) [OF assms(1)] assms(2)])
  then show "on (llam_channel_select_cleanup_nodes t s) (SelectNode t i) = {}" by (auto simp: C enumerate_facts allowed_def split: if_splits)
  show "on (llam_channel_select_cleanup_nodes t s) n = on s n" if "\<And>i. n \<noteq> SelectNode t i" using that by (cases n) (auto simp: C)
qed

text \<open>A waiting select moves on: first with its nodes where they are, then with its nodes taken off.\<close>

definition only_task :: "u64 \<Rightarrow> channel_system \<Rightarrow> channel_system \<Rightarrow> bool" where
  "only_task t s s' \<longleftrightarrow> cs_ops s' = cs_ops s \<and> cs_node s' = cs_node s \<and>
     (\<forall>u. u \<noteq> t \<longrightarrow> cs_pc s' u = cs_pc s u \<and> cs_select s' u = cs_select s u \<and> cs_parked s' u = cs_parked s u \<and> cs_abort s' u = cs_abort s u \<and> cs_woken s' u = cs_woken s u)"

abbreviation phase_at :: "channel_system \<Rightarrow> u64 \<Rightarrow> bool" where
  "phase_at s t \<equiv> phase_ok (cs_woken s t) (cs_pc s t) (cs_parked s t) (cs_abort s t) (ss_completed (cs_select s t))"

lemma select_plain_ok:
  assumes "plain_ok wk s t" "plain_op (cs_pc s t) = None" "plain_op (cs_pc s' t) = None" "on s' (PlainNode t) = on s (PlainNode t)"
  shows "plain_ok wk' s' t"
  using assms by (simp add: plain_ok_def)

lemma keep_step:
  assumes inv: "system_inv s" and sel: "selecting (cs_pc s t)" "selecting (cs_pc s' t)" and f: "only_task t s s'" "cs_channel s' = cs_channel s"
    and ph: "phase_at s' t" "result_ok (cs_ops s t) (cs_select s' t)"
    and l: "has_left (cs_pc s' t) \<Longrightarrow> has_left (cs_pc s t)"
      "open_phase (ss_completed (cs_select s' t)) \<Longrightarrow> \<not> has_left (cs_pc s' t) \<Longrightarrow> open_phase (ss_completed (cs_select s t)) \<and> \<not> has_left (cs_pc s t)"
    and p: "pend (cs_woken s') s' t = pend (cs_woken s) s t"
  shows "step_ok s [] t [] s'"
proof -
  note w = system_invD(1) [OF inv] and o = on_cong [OF f(2)]
  note old = wait_invD(1,2) [OF w, of t]
  note D = select_okD [OF old(2) sel(1)]
  have F: "cs_ops s' = cs_ops s" "cs_node s' = cs_node s" using f(1) by (simp_all add: only_task_def)
  show ?thesis
  proof (rule own_step [OF inv])
    show "untouched (cs_woken s) s (cs_woken s') s' u" if "u \<noteq> t" for u using f(1) that by (simp add: untouched_def only_task_def o)
    show "plain_ok (cs_woken s') s' t" by (rule select_plain_ok [OF old(1)]) (use sel selecting_plain o in auto)
    show "select_ok (cs_woken s') s' t"
      by (rule select_okI, unfold F o) (use D sel(2) ph l in \<open>blast+\<close>)
    show "cs_pc s' t \<noteq> SelectPair" using sel(2) by (auto simp: selecting_def)
  qed (use p f(2) wait_invD(3) [OF w] system_invD(2) [OF inv] in simp_all)
qed

lemma clean_step:
  assumes inv: "system_inv s" and sel: "selecting (cs_pc s t)" and f: "only_task t s s'" "cs_channel s' = cs_channel (llam_channel_select_cleanup_nodes t s)"
    and pc: "plain_op (cs_pc s' t) = None" "cs_pc s' t \<noteq> SelectPair"
    and wait: "selecting (cs_pc s' t) \<Longrightarrow> phase_at s' t \<and> result_ok (cs_ops s t) (cs_select s' t) \<and> (has_left (cs_pc s' t) \<or> \<not> open_phase (ss_completed (cs_select s' t)))"
    and quiet: "\<not> selecting (cs_pc s' t) \<Longrightarrow> cs_abort s' t = AbortIdle"
    and p: "pend (cs_woken s) s t = xs @ pend (cs_woken s') s' t"
  shows "step_ok s [] t xs s'"
proof -
  note w = system_invD(1) [OF inv] and o = on_cong [OF f(2)]
  note old = wait_invD(1,2) [OF w, of t] and C = cleaned [OF w sel, folded o]
  have F: "cs_ops s' = cs_ops s" "cs_node s' = cs_node s" using f(1) by (simp_all add: only_task_def)
  show ?thesis
  proof (rule own_step [OF inv])
    show "untouched (cs_woken s) s (cs_woken s') s' u" if "u \<noteq> t" for u
      unfolding untouched_def
    proof (intro conjI allI impI)
      fix n assume "waiter_task n = u"
      then have "\<And>i. n \<noteq> SelectNode t i" using that by auto
      from C(2) [OF this] show "on s' n = on s n" .
    qed (use f(1) that in \<open>simp_all add: only_task_def\<close>)
    show "plain_ok (cs_woken s') s' t" by (rule select_plain_ok [OF old(1)]) (use sel selecting_plain pc C(2) in auto)
    show "select_ok (cs_woken s') s' t"
    proof (cases "selecting (cs_pc s' t)")
      case True
      show ?thesis by (rule select_okI, unfold F) (use True wait [OF True] C(1) in auto)
    qed (use C(1) quiet in \<open>simp add: select_ok_outside\<close>)
    show "distinct (waiters k (cs_channel s' d))" "chan_ok (cs_channel s' d)" for k d
      using cleanup_distinct [OF wait_invD(3) [OF w]] cleanup_chan_ok [OF system_invD(2) [OF inv]] by (simp_all add: f(2) cleanup_nodes)
  qed (use p pc(2) f(2) in \<open>simp_all add: cleanup_nodes cleanup_channels\<close>)
qed

lemma pend_selecting:
  assumes "selecting (cs_pc s t)" "selecting (cs_pc s' t)" "cs_ops s' t = cs_ops s t" "cs_select s' t = cs_select s t"
  shows "pend wk' s' t = pend wk s t"
  unfolding pend_def selecting_plain [OF assms(1)] selecting_plain [OF assms(2)] assms(3,4) using assms(1,2) by simp

lemma phase_now: "system_inv s \<Longrightarrow> selecting (cs_pc s t) \<Longrightarrow> phase_at s t" "system_inv s \<Longrightarrow> selecting (cs_pc s t) \<Longrightarrow> result_ok (cs_ops s t) (cs_select s t)"
  using select_okD(4,5) wait_invD(2) system_invD(1) by blast+

lemma set_parked_fields [simp]:
  "cs_pc (set_parked t b s) = cs_pc s" "cs_ops (set_parked t b s) = cs_ops s" "cs_parked (set_parked t b s) = (cs_parked s)(t := b)"
  "cs_abort (set_parked t b s) = cs_abort s" "cs_woken (set_parked t b s) = cs_woken s" "cs_select (set_parked t b s) = cs_select s"
  "cs_node (set_parked t b s) = cs_node s" "cs_channel (set_parked t b s) = cs_channel s" "on (set_parked t b s) = on s"
  by (simp_all add: set_parked_def)

lemma event_goto: "event_ok t s (goto t pc s1) \<longleftrightarrow> step_ok s [] t [] (at_pc t pc s1)"
  by (simp add: goto_def event_ok_def reports_def)

lemma move_select:
  assumes inv: "system_inv s" and pc: "selecting (cs_pc s t)" "selecting pc" "\<not> has_left pc" "has_left (cs_pc s t) \<Longrightarrow> \<not> open_phase (ss_completed (cs_select s t))"
    and ph: "phase_ok (cs_woken s t) pc b (cs_abort s t) (ss_completed (cs_select s t))"
  shows "event_ok t s (goto t pc (set_parked t b s))"
  unfolding event_goto
proof (rule keep_step [OF inv pc(1)])
  show "only_task t s (at_pc t pc (set_parked t b s))" by (simp add: only_task_def)
  show "pend (cs_woken (at_pc t pc (set_parked t b s))) (at_pc t pc (set_parked t b s)) t = pend (cs_woken s) s t"
    by (rule pend_selecting) (use pc in simp_all)
qed (use pc ph phase_now(2) [OF inv pc(1)] in auto)

lemma set_parked_same: "set_parked t (cs_parked s t) s = s"
  by (simp add: set_parked_def)

lemmas stay_select = move_select [where b = "cs_parked s t" and s = s and t = t for s t, unfolded set_parked_same]

lemma continue_setup: "system_inv s \<Longrightarrow> cs_pc s t = SelectSetup \<Longrightarrow> event_ok t s (goto t SelectTracked (set_parked t True s))"
  by (rule move_select) (use phase_now(1) [of s t] in \<open>auto simp: selecting_def has_left_def phase_ok_def split: select_phase.splits\<close>)

lemma continue_tracked: "system_inv s \<Longrightarrow> cs_pc s t = SelectTracked \<Longrightarrow> event_ok t s (goto t SelectReady s)"
  by (rule stay_select) (use phase_now(1) [of s t] in \<open>auto simp: selecting_def has_left_def phase_ok_def split: select_phase.splits\<close>)

lemma continue_parked:
  "system_inv s \<Longrightarrow> cs_pc s t = SelectParked \<Longrightarrow> cs_woken s t \<Longrightarrow> event_ok t s (goto t SelectFinishing (set_parked t False s))"
  by (rule move_select) (use phase_now(1) [of s t] in \<open>auto simp: selecting_def has_left_def phase_ok_def split: select_phase.splits\<close>)

lemma give_up_ok:
  assumes inv: "system_inv s" and pc: "cs_pc s t = SelectSetup \<or> cs_pc s t = SelectTracked" and run: "select_give_up t (SelectLeaving e) s = Some x"
  shows "event_ok t s x"
proof -
  have sel: "selecting (cs_pc s t)" using pc by (auto simp: selecting_def)
  note ph = phase_now(1) [OF inv sel]
  have nl: "\<not> has_left (cs_pc s t)" using pc by (auto simp: has_left_def)
  have "event_ok t s (goto t (SelectLeaving e) s)" if "ss_completed (cs_select s t) = SelectPending"
    by (rule stay_select [OF inv sel]) (use ph that nl in \<open>simp_all add: selecting_def has_left_def phase_ok_def\<close>)
  moreover have "event_ok t s (goto t SelectReady s)" if "ss_completed (cs_select s t) = SelectInline"
    by (rule stay_select [OF inv sel]) (use ph that nl in \<open>simp_all add: selecting_def has_left_def phase_ok_def\<close>)
  moreover have "ss_completed (cs_select s t) \<noteq> SelectArmed" "ss_completed (cs_select s t) \<noteq> SelectQueued" using ph pc by (auto simp: phase_ok_def)
  ultimately show ?thesis using run by (auto simp: select_give_up_def split: select_phase.splits)
qed

lemma park_ok:
  assumes inv: "system_inv s" and pc: "cs_pc s t = SelectReady" and nc: "ss_completed (cs_select s t) \<noteq> SelectCompleting"
  shows "event_ok t s (select_park t s)"
proof -
  have sel: "selecting (cs_pc s t)" using pc by (simp add: selecting_def)
  note ph = phase_now(1) [OF inv sel, unfolded pc] and rs = phase_now(2) [OF inv sel]
  show ?thesis
  proof (cases "ss_completed (cs_select s t) = SelectPending")
    case True
    let ?z = "s\<lparr>cs_select := (cs_select s)(t := (cs_select s t)\<lparr>ss_completed := SelectArmed\<rparr>)\<rparr>"
    have "step_ok s [] t [] (at_pc t SelectParked ?z)"
    proof (rule keep_step [OF inv sel])
      show "pend (cs_woken (at_pc t SelectParked ?z)) (at_pc t SelectParked ?z) t = pend (cs_woken s) s t"
        using True pc by (simp add: pend_def plain_op_def selecting_def)
    qed (use True ph rs pc in \<open>simp_all add: only_task_def selecting_def has_left_def open_phase_def phase_ok_def result_ok_def\<close>)
    then show ?thesis using True by (simp add: select_park_def llam_channel_select_arm_wait_def event_goto)
  next
    case False
    then have i: "ss_completed (cs_select s t) = SelectInline" using ph nc by (cases "ss_completed (cs_select s t)") (simp_all add: phase_ok_def)
    have "event_ok t s (goto t SelectFinishing (set_parked t False s))"
      by (rule move_select [OF inv sel]) (use i ph pc in \<open>simp_all add: selecting_def has_left_def phase_ok_def open_phase_def\<close>)
    then show ?thesis using i by (simp add: select_park_def llam_channel_select_arm_wait_def)
  qed
qed

lemma cleanup_nodes_fields [simp]:
  "cs_pc (llam_channel_select_cleanup_nodes t s) = cs_pc s" "cs_ops (llam_channel_select_cleanup_nodes t s) = cs_ops s" "cs_parked (llam_channel_select_cleanup_nodes t s) = cs_parked s"
  "cs_abort (llam_channel_select_cleanup_nodes t s) = cs_abort s" "cs_woken (llam_channel_select_cleanup_nodes t s) = cs_woken s"
  "cs_select (llam_channel_select_cleanup_nodes t s) = cs_select s" "cs_node (llam_channel_select_cleanup_nodes t s) = cs_node s"
  by (simp_all add: cleanup_nodes cleanup_fields)

lemma leaving_ok:
  assumes inv: "system_inv s" and pc: "cs_pc s t = SelectLeaving e"
  shows "event_ok t s (goto t (SelectLeft e) (llam_channel_select_cleanup_nodes t s))"
  unfolding event_goto
proof (rule clean_step [OF inv])
  show sel: "selecting (cs_pc s t)" using pc by (simp add: selecting_def)
  let ?s = "at_pc t (SelectLeft e) (llam_channel_select_cleanup_nodes t s)"
  show "pend (cs_woken s) s t = [] @ pend (cs_woken ?s) ?s t"
    using pend_selecting [OF sel, of ?s "cs_woken ?s" "cs_woken s"] by (simp add: selecting_def)
  show "phase_at ?s t \<and> result_ok (cs_ops s t) (cs_select ?s t) \<and> (has_left (cs_pc ?s t) \<or> \<not> open_phase (ss_completed (cs_select ?s t)))"
    using phase_now [OF inv sel] pc by (auto simp: has_left_def phase_ok_def split: select_phase.splits)
qed (simp_all add: only_task_def plain_op_def selecting_def)

lemma left_ok:
  assumes inv: "system_inv s" and pc: "cs_pc s t = SelectLeft e" and run: "channel_continue env t (SelectLeft e) s = Some x"
  shows "event_ok t s x"
proof -
  have sel: "selecting (cs_pc s t)" and hl: "has_left (cs_pc s t)" using pc by (simp_all add: selecting_def has_left_def)
  note w = system_invD(1) [OF inv] and ph = phase_now(1) [OF inv sel]
  note old = wait_invD(1,2) [OF w, of t]
  have idle: "plain_op ChIdle = None" "\<not> selecting ChIdle" by (simp_all add: plain_op_def selecting_def)
  have "event_ok t s (select_return t e (set_parked t False s))" if pe: "ss_completed (cs_select s t) = SelectPending"
  proof -
    let ?s = "at_pc t ChIdle (set_parked t False s)"
    have "step_ok s [] t [] ?s"
    proof (rule own_step [OF inv])
      show "plain_ok (cs_woken ?s) ?s t" by (rule select_plain_ok [OF old(1)]) (use sel selecting_plain idle in auto)
      show "select_ok (cs_woken ?s) ?s t" using select_okD(6) [OF old(2) sel hl] ph pe idle(2) by (simp add: select_ok_outside phase_ok_def)
      show "pend (cs_woken s) s t = [] @ pend (cs_woken ?s) ?s t" using pe selecting_plain [OF sel] by (simp add: pend_def idle)
    qed (use wait_invD(3) [OF w] system_invD(2) [OF inv] in \<open>simp_all add: untouched_def\<close>)
    then show ?thesis by (simp add: select_return_def event_ok_def reports_def)
  qed
  moreover have "event_ok t s (goto t SelectReady s)" if "ss_completed (cs_select s t) = SelectInline"
    by (rule stay_select [OF inv sel]) (use ph pc that in \<open>simp_all add: selecting_def has_left_def phase_ok_def open_phase_def\<close>)
  moreover have "ss_completed (cs_select s t) \<noteq> SelectArmed" "ss_completed (cs_select s t) \<noteq> SelectQueued" using ph pc by (auto simp: phase_ok_def)
  ultimately show ?thesis using run by (auto split: select_phase.splits)
qed

lemma consumed_at_pc: "llam_channel_waiter_consumed c (at_pc t pc s) = at_pc t pc (llam_channel_waiter_consumed c s)"
  by (simp add: llam_channel_waiter_consumed_def at_channel_def at_pc_def)

lemma finishing_ok:
  assumes inv: "system_inv s" and pc: "cs_pc s t = SelectFinishing"
  shows "event_ok t s (select_finish t s)"
proof -
  have sel: "selecting (cs_pc s t)" using pc by (simp add: selecting_def)
  note ph = phase_now(1) [OF inv sel, unfolded pc] and rs = phase_now(2) [OF inv sel]
  have fin: "ss_completed (cs_select s t) = SelectInline \<or> ss_completed (cs_select s t) = SelectQueued" and ab: "cs_abort s t = AbortIdle"
    using ph by (cases "ss_completed (cs_select s t)"; simp add: phase_ok_def)+
  have idle: "plain_op ChIdle = None" "\<not> selecting ChIdle" by (simp_all add: plain_op_def selecting_def)
  define ret where "ret = (t, RetSelect (cs_ops s t) (llam_channel_select_finish (cs_ops s t) (cs_select s t)))"
  let ?s = "at_pc t ChIdle (llam_channel_select_cleanup_nodes t s)"
  have "pend (cs_woken s) s t = reports t ([], Some ret)"
    using fin rs selecting_plain [OF sel] sel
    by (auto simp: pend_def ret_def reports_def llam_channel_select_finish_def result_ok_def split: option.splits select_kind.splits)
  then have s1: "step_ok s [] t (reports t ([], Some ret)) ?s"
    by (intro clean_step [OF inv sel]) (simp_all add: only_task_def idle ab pend_def)
  have s2: "step_ok s [] t (reports t ([], Some ret)) (llam_channel_waiter_consumed c ?s)" for c
    using step_ok_trans [OF s1 consumed_step [OF step_okD(1) [OF s1]]] by simp
  show ?thesis using s1 s2 [unfolded consumed_at_pc]
    by (cases "ss_selected (cs_select s t)") (simp_all add: select_finish_def Let_def event_ok_def ret_def llam_channel_waiter_consumed_def)
qed

section \<open>Aborting a select\<close>

lemma abort_claim_ok:
  assumes inv: "system_inv s" and tr: "tracked (cs_pc s t)"
  shows "step_ok s [] t [] (abort_claim t e s)"
proof (cases "open_phase (ss_completed (cs_select s t))")
  case False
  then show ?thesis using step_ok_refl [OF inv] by (simp add: abort_claim_def llam_channel_select_begin_completion_def open_phase_def)
next
  case True
  have sel: "selecting (cs_pc s t)" using tr by (cases "cs_pc s t") (simp_all add: tracked_def selecting_def)
  have fin: "cs_pc s t \<noteq> SelectFinishing" using tr by (auto simp: tracked_def)
  note ph = phase_now(1) [OF inv sel]
  let ?s = "s\<lparr>cs_select := (cs_select s)(t := (cs_select s t)\<lparr>ss_completed := SelectCompleting, ss_selected := None, ss_value := 0, ss_error := e\<rparr>),
    cs_abort := (cs_abort s)(t := AbortCleanup e (ss_completed (cs_select s t) = SelectArmed))\<rparr>"
  have "step_ok s [] t [] ?s"
  proof (rule keep_step [OF inv sel])
    show "pend (cs_woken ?s) ?s t = pend (cs_woken s) s t" using True selecting_plain [OF sel] by (auto simp: pend_def open_phase_def)
    show "phase_at ?s t" using ph True fin by (auto simp: phase_ok_def open_phase_def)
  qed (use sel in \<open>simp_all add: only_task_def open_phase_def result_ok_def\<close>)
  then show ?thesis using True by (auto simp: abort_claim_def llam_channel_select_begin_completion_def open_phase_def)
qed

lemma aborting: "system_inv s \<Longrightarrow> cs_abort s t \<noteq> AbortIdle \<Longrightarrow> selecting (cs_pc s t) \<and> ss_completed (cs_select s t) = SelectCompleting"
  using wait_invD(2) [OF system_invD(1), of s t] phase_now(1) [of s t]
  by (cases "selecting (cs_pc s t)"; cases "ss_completed (cs_select s t)") (auto simp: select_ok_outside phase_ok_def)

lemma abort_cleanup_ok:
  assumes inv: "system_inv s" and ab: "cs_abort s t = AbortCleanup e armed"
  shows "step_ok s [] t [] ((llam_channel_select_cleanup_nodes t s)\<lparr>cs_abort := (cs_abort s)(t := AbortPublish e armed)\<rparr>)" (is "step_ok s [] t [] ?s")
proof -
  have sel: "selecting (cs_pc s t)" and c: "ss_completed (cs_select s t) = SelectCompleting" using aborting [OF inv, of t] ab by simp_all
  note ph = phase_now [OF inv sel]
  show ?thesis
  proof (rule clean_step [OF inv sel])
    show "pend (cs_woken s) s t = [] @ pend (cs_woken ?s) ?s t" using pend_selecting [OF sel, of ?s "cs_woken ?s" "cs_woken s"] sel by simp
    show "phase_at ?s t \<and> result_ok (cs_ops s t) (cs_select ?s t) \<and> (has_left (cs_pc ?s t) \<or> \<not> open_phase (ss_completed (cs_select ?s t)))"
      using ph c ab by (auto simp: phase_ok_def open_phase_def)
  qed (use sel selecting_plain [OF sel] in \<open>auto simp: only_task_def selecting_def\<close>)
qed

lemma abort_publish_ok:
  assumes inv: "system_inv s" and ab: "cs_abort s t = AbortPublish e armed"
  shows "step_ok s [] t [] (abort_publish t armed s)"
proof -
  have sel: "selecting (cs_pc s t)" and c: "ss_completed (cs_select s t) = SelectCompleting" using aborting [OF inv, of t] ab by simp_all
  note ph = phase_now [OF inv sel]
  have q: "(armed \<and> cs_parked s t) = (cs_pc s t = SelectParked)" and n: "ss_selected (cs_select s t) = None" and w: "\<not> cs_woken s t" and f: "cs_pc s t \<noteq> SelectFinishing"
    using ph c ab by (auto simp: phase_ok_def result_ok_def)
  show ?thesis
  proof (rule keep_step [OF inv sel])
    show "pend (cs_woken (abort_publish t armed s)) (abort_publish t armed s) t = pend (cs_woken s) s t"
      using n c selecting_plain [OF sel] by (simp add: pend_def abort_publish_def Let_def)
    show "phase_at (abort_publish t armed s) t" using ph(1) c q w f ab by (auto simp: abort_publish_def Let_def phase_ok_def)
  qed (use sel n in \<open>simp_all add: only_task_def open_phase_def result_ok_def abort_publish_def Let_def split: if_splits\<close>)
qed

section \<open>Every step\<close>

lemma waiting_ok:
  assumes inv: "system_inv s" and p: "plain_op (cs_pc s t) = Some (k, c, v)" and pc: "plain_op pc = Some (k, c, v)" and run: "leave_queue k c t s = (removed, s1)"
    and r: "reported t ret = []"
  shows "event_ok t s (if removed then (([], Some (t, ret)), at_pc t ChIdle s1) else goto t pc s1)"
proof (cases "(k, c) \<in> on s (PlainNode t)")
  case True
  then show ?thesis using leave_ok [OF inv p True] run r by (auto simp: leave_without event_ok_def reports_def)
next
  case False
  then have "removed = False" "s1 = s" using run by (auto simp: leave_without without_id on_def)
  then show ?thesis using waiting_move [OF inv, of pc t] p pc by (simp add: event_goto)
qed

lemma continue_ok:
  assumes inv: "system_inv s" and run: "channel_continue env t (cs_pc s t) s = Some x"
  shows "event_ok t s x"
proof (cases "cs_pc s t")
  case (SendWaiting c v)
  obtain r s1 where r: "finish_wait t c s = (r, s1)" by (metis prod.exhaust)
  have p: "plain_op (cs_pc s t) = Some (SelectSend, c, v)" using SendWaiting by (simp add: plain_op_def)
  have w: "cs_woken s t" and x: "x = (([], Some (t, RetSend c v (map_sum id (\<lambda>_. ()) r))), s1)" using run SendWaiting r by (auto split: if_splits)
  show ?thesis using finish_ok [OF inv p w r] x by (cases r) (auto simp: event_ok_def reports_def)
next
  case (RecvWaiting c)
  obtain r s1 where r: "finish_wait t c s = (r, s1)" by (metis prod.exhaust)
  have p: "plain_op (cs_pc s t) = Some (SelectRecv, c, 0)" using RecvWaiting by (simp add: plain_op_def)
  have w: "cs_woken s t" and x: "x = (([], Some (t, RetRecv c r)), s1)" using run RecvWaiting r by (auto split: if_splits)
  show ?thesis using finish_ok [OF inv p w r] x by (cases r) (auto simp: event_ok_def reports_def)
next
  case (SendLeaving c v e)
  have "plain_op (cs_pc s t) = Some (SelectSend, c, v)" "plain_op (SendWaiting c v) = Some (SelectSend, c, v)" using SendLeaving by (simp_all add: plain_op_def)
  from waiting_ok [OF inv this, of _ _ "RetSend c v (Inl e)"] show ?thesis using run SendLeaving by (auto split: prod.splits)
next
  case (RecvLeaving c e)
  have "plain_op (cs_pc s t) = Some (SelectRecv, c, 0)" "plain_op (RecvWaiting c) = Some (SelectRecv, c, 0)" using RecvLeaving by (simp_all add: plain_op_def)
  from waiting_ok [OF inv this, of _ _ "RetRecv c (Inl e)"] show ?thesis using run RecvLeaving by (auto split: prod.splits)
next
  case (SelectLeft e)
  then show ?thesis using left_ok [OF inv] run by metis
qed (use run probe_ok [OF inv] pair_ok [OF inv] scan_ok [OF inv] peer_ok [OF inv] enter_ok [OF inv] continue_setup [OF inv] continue_tracked [OF inv] leaving_ok [OF inv]
    park_ok [OF inv] continue_parked [OF inv] finishing_ok [OF inv] in \<open>auto split: if_splits\<close>)

lemma fail_ok:
  assumes inv: "system_inv s" and run: "fail_setup t e (cs_pc s t) s = Some x"
  shows "event_ok t s x"
proof (cases "cs_pc s t")
  case (SendWaiting c v)
  then show ?thesis using run waiting_move [OF inv, of _ t] by (auto simp: event_goto plain_op_def split: if_splits)
next
  case (RecvWaiting c)
  then show ?thesis using run waiting_move [OF inv, of _ t] by (auto simp: event_goto plain_op_def split: if_splits)
qed (use run give_up_ok [OF inv] in auto)

lemma event_quiet: "event_ok t s (([], None), s') \<longleftrightarrow> step_ok s [] t [] s'"
  by (simp add: event_ok_def reports_def)

lemma resolved_ok:
  assumes inv: "system_inv s" and e: "e \<noteq> E_OK" and run: "resolve t e (cs_pc s t) s = Some s'"
  shows "step_ok s [] t [] s'"
  using run resolve_ok [OF inv _ e, of t] by (cases "cs_pc s t") (auto simp: plain_op_def)

lemma select_starts_ok:
  assumes inv: "system_inv s" and pc: "cs_pc s t = ChIdle"
  shows "event_ok t s (goto t (select_start n 0) (s\<lparr>cs_ops := (cs_ops s)(t := ops), cs_deadline := d\<rparr>))"
  unfolding event_goto by (rule quiet_step [OF inv]) (use pc in \<open>simp_all add: untouched_def\<close>)

lemma move_ok:
  assumes inv: "system_inv s" and run: "move_channels m s = Some x"
  shows "\<exists>t. event_ok t s x"
proof (cases m)
  case (DoSend t c v env)
  then have "x = returning t (RetSend c v) (llam_channel_send_impl env t c v s)" "cs_pc s t = ChIdle" using run by (auto split: if_splits)
  then show ?thesis using send_ok [OF inv, of t] by (auto intro!: exI [of _ t])
next
  case (DoTrySend t c v)
  obtain ts r s1 where r: "llam_channel_try_send t c v s = (ts, r, s1)" using prod_cases3 by blast
  have "cs_pc s t = ChIdle" "x = ((ts, Some (t, RetSend c v r)), s1)" using run DoTrySend r by (auto split: if_splits)
  then show ?thesis using try_send_ok(1) [OF inv _ r] by (cases r) (auto simp: event_ok_def reports_def intro!: exI [of _ t])
next
  case (DoRecv t c env)
  then have "x = returning t (RetRecv c) (llam_channel_recv_result_impl env t c s)" "cs_pc s t = ChIdle" using run by (auto split: if_splits)
  then show ?thesis using recv_ok [OF inv, of t] by (auto intro!: exI [of _ t])
next
  case (DoTryRecv t c)
  obtain ts r s1 where r: "llam_channel_try_recv_result True t c s = (ts, r, s1)" using prod_cases3 by blast
  have "cs_pc s t = ChIdle" "x = ((ts, Some (t, RetRecv c r)), s1)" using run DoTryRecv r by (auto split: if_splits)
  then show ?thesis using try_recv_ok(1) [OF inv _ r] by (cases r) (auto simp: event_ok_def reports_def intro!: exI [of _ t])
next
  case (DoClose t c pin)
  obtain r s1 where r: "llam_channel_close pin c s = (r, s1)" by (metis prod.exhaust)
  then show ?thesis using close_ok [OF inv r] run DoClose by (auto split: if_splits)
next
  case (DoSelect t ops d b)
  show ?thesis
  proof (cases "ops = [] \<or> LLAM_CHANNEL_SELECT_MAX_OPS < length ops")
    case True
    then have "x = (([], Some (t, RetSelect ops (Inl EINVAL))), s)" using run DoSelect by (auto split: if_splits)
    then show ?thesis using step_ok_refl [OF inv] by (auto simp: event_ok_def reports_def)
  next
    case False
    then have "cs_pc s t = ChIdle" "x = goto t (select_start (length ops) 0) (s\<lparr>cs_ops := (cs_ops s)(t := ops), cs_deadline := (cs_deadline s)(t := select_deadline b d)\<rparr>)"
      using run DoSelect by (auto split: if_splits)
    then show ?thesis using select_starts_ok [OF inv, of t] by (auto intro!: exI [of _ t])
  qed
next
  case (Continue t env)
  then have "event_ok t s x" using run by (intro continue_ok [OF inv, of env]) simp
  then show ?thesis by blast
next
  case (FailSetup t e)
  then have "event_ok t s x" using run by (intro fail_ok [OF inv, of t e]) simp
  then show ?thesis by blast
next
  case (Resolve t e)
  then show ?thesis using resolved_ok [OF inv, of e t] run by (auto simp: event_quiet intro!: exI [of _ t] split: if_splits)
next
  case (AbortSelect t e)
  then show ?thesis using abort_claim_ok [OF inv, of t] run by (auto simp: event_quiet intro!: exI [of _ t] split: if_splits)
next
  case (AbortNext t)
  then show ?thesis using abort_cleanup_ok [OF inv, of t] abort_publish_ok [OF inv, of t] run
    by (auto simp: event_quiet intro!: exI [of _ t] split: abort_pc.splits)
qed

section \<open>Histories\<close>

definition transfers :: "channel_event list \<Rightarrow> transfer list" where
  "transfers es = concat (map fst es)"

definition all_reports :: "u64 \<Rightarrow> channel_event list \<Rightarrow> transfer list" where
  "all_reports t es = concat (map (reports t) es)"

lemma event_account:
  assumes "event_ok t s (ev, s')"
  shows "pend (cs_woken s) s u @ made_by u (fst ev) = reports u ev @ pend (cs_woken s') s' u"
proof -
  have "u \<noteq> t \<Longrightarrow> reports u ev = []" using assms by (auto simp: event_ok_def reports_def split: option.splits)
  then show ?thesis using assms by (cases "u = t") (auto simp: event_ok_def step_ok_def balances_def)
qed

lemma run_ok:
  assumes "channel_run ms s = Some (es, s')" "system_inv s"
  shows "system_inv s'" "flows s (transfers es) s'"
    "pend (cs_woken s) s u @ made_by u (transfers es) = all_reports u es @ pend (cs_woken s') s' u"
proof -
  have "system_inv s' \<and> flows s (transfers es) s' \<and> pend (cs_woken s) s u @ made_by u (transfers es) = all_reports u es @ pend (cs_woken s') s' u"
    using assms
  proof (induction ms arbitrary: s es)
    case Nil
    then show ?case by (auto simp: transfers_def all_reports_def flows_def)
  next
    case (Cons m ms)
    obtain ev s1 es1 where m: "move_channels m s = Some (ev, s1)" "channel_run ms s1 = Some (es1, s')" "es = ev # es1"
      using Cons.prems(1) by (auto split: option.splits)
    obtain t where t: "event_ok t s (ev, s1)" using move_ok [OF Cons.prems(2) m(1)] by blast
    then have s1: "system_inv s1" "flows s (fst ev) s1" by (auto simp: event_ok_def step_ok_def)
    note I = Cons.IH [OF m(2) s1(1)] and a = event_account [OF t, of u]
    have "pend (cs_woken s) s u @ made_by u (fst ev) @ made_by u (transfers es1) = (pend (cs_woken s) s u @ made_by u (fst ev)) @ made_by u (transfers es1)" by simp
    also have "\<dots> = reports u ev @ pend (cs_woken s1) s1 u @ made_by u (transfers es1)" unfolding a by simp
    also have "\<dots> = reports u ev @ all_reports u es1 @ pend (cs_woken s') s' u" using I by simp
    finally have b: "pend (cs_woken s) s u @ made_by u (transfers es) = all_reports u es @ pend (cs_woken s') s' u"
      by (simp add: m(3) transfers_def all_reports_def made_by_append)
    have "flows s (fst ev @ transfers es1) s'" using flows_trans [OF s1(2)] I by blast
    then show ?case using I b by (simp add: m(3) transfers_def)
  qed
  then show "system_inv s'" "flows s (transfers es) s'" "pend (cs_woken s) s u @ made_by u (transfers es) = all_reports u es @ pend (cs_woken s') s' u"
    by blast+
qed

lemma fresh_inv:
  assumes "fresh_channels s"
  shows "system_inv s" "pend (cs_woken s) s t = []" "contents (cs_channel s c) = []"
proof -
  have c: "empty_channel (cs_channel s c)" "cs_pc s t = ChIdle" "cs_abort s t = AbortIdle" for c t using assms by (simp_all add: fresh_channels_def)
  have w: "waiters k (cs_channel s c) = []" for k c using c(1) [of c] by (cases k) (simp_all add: empty_channel_def)
  have "on s n = {}" for n by (simp add: on_def w)
  then have "wait_inv (cs_woken s) s"
    by (simp add: wait_inv_def w plain_ok_def select_ok_def c plain_op_def selecting_def)
  moreover have "chan_ok (cs_channel s c)" for c using c(1) [of c] by (simp add: chan_ok_def empty_channel_def)
  ultimately show "system_inv s" by (simp add: system_inv_def c)
  show "pend (cs_woken s) s t = []" by (rule pend_quiet) (simp add: c)
  show "contents (cs_channel s c) = []" using c(1) [of c] by (simp add: empty_channel_def)
qed

lemma pend_short: "length (pend wk s t) \<le> 1"
  by (auto simp: pend_def split: option.split)

section \<open>Examples\<close>

definition one_slot :: channel where
  "one_slot = \<lparr>ch_buffer = [0], ch_capacity = 1, ch_ring_capacity = 1, ch_mask = 0, ch_head = 0, ch_tail = 0, ch_count = 0, ch_inflight = 0,
     ch_closed = False, ch_send_waiters = [], ch_recv_waiters = []\<rparr>"

definition at_rest :: channel_system where
  "at_rest = \<lparr>cs_channel = (\<lambda>_. one_slot), cs_node = (\<lambda>_. llam_wait_node_reset 0),
     cs_select = (\<lambda>_. \<lparr>ss_selected = None, ss_value = 0, ss_error = E_OK, ss_completed = SelectPending, ss_wake_queued = False\<rparr>),
     cs_ops = (\<lambda>_. []), cs_deadline = (\<lambda>_. 0), cs_shard = (\<lambda>_. 0), cs_parked = (\<lambda>_. False), cs_woken = (\<lambda>_. False),
     cs_pc = (\<lambda>_. ChIdle), cs_abort = (\<lambda>_. AbortIdle)\<rparr>"

definition usual :: wait_env where
  "usual = \<lparr>we_deadline = False, we_request = False, we_passed = False, we_node_ok = True, we_cancellable = False, we_prepare = True\<rparr>"

lemma at_rest_fresh: "fresh_channels at_rest"
  by (simp add: fresh_channels_def at_rest_def empty_channel_def one_slot_def ring_ok_def contents_def)

text \<open>Task 1 waits in a select for channels 5 and 6; then task 2 sends on channel 6, twice, and task 1 returns.\<close>

definition two_ops :: "select_op list" where
  "two_ops = [\<lparr>so_kind = SelectRecv, so_channel = 5, so_value = 0\<rparr>, \<lparr>so_kind = SelectRecv, so_channel = 6, so_value = 0\<rparr>]"

definition parking :: "channel_move list" where
  "parking = DoSelect 1 two_ops UINT64_MAX 0 # replicate 5 (Continue 1 usual)"

definition wakeup :: "channel_move list" where
  "wakeup = parking @ [DoSend 2 6 70 usual, DoSend 2 6 71 usual] @ replicate 2 (Continue 1 usual)"

lemma parking_result: "case channel_run parking at_rest of Some (es, s) \<Rightarrow> cs_pc s 1 = SelectParked \<and> \<not> cs_woken s 1 \<and> cs_abort s 1 = AbortIdle \<and> cs_ops s 1 = two_ops | None \<Rightarrow> False"
  by code_simp

lemma wakeup_result:
  "case channel_run wakeup at_rest of Some (es, s) \<Rightarrow> all_reports 1 es = [Transfer 1 SelectRecv 6 70] \<and> cs_pc s 1 = ChIdle \<and> contents (cs_channel s 6) = [71] | None \<Rightarrow> False"
  by code_simp

section \<open>Properties\<close>

text \<open>
  C1. Any number of tasks send, receive, close and select on channels that start out empty, in any interleaving of their locked sections and of the accesses to the
  completion words of the selects, with timeouts and cancellations at any time. Then every channel behaves as a bounded first-in first-out queue: the
  values put into and taken out of it, in order, are a legal history of such a queue and leave the queue holding what the channel's buffer holds.
  And the calls of every task report exactly the transfers made for it, in order; at most one has been made and not yet reported, and none if the task is in no
  call. In particular a select makes at most one transfer, the one it reports, and a call that fails has made none.
\<close>

theorem channels_fifo_exactly_once:
  assumes "fresh_channels s" "channel_run ms s = Some (es, s')"
  shows "(\<forall>c. fifo (unat (ch_capacity (cs_channel s c))) (through c (transfers es)) [] = Some (contents (cs_channel s' c))) \<and>
    (\<forall>t. \<exists>pending. made_by t (transfers es) = all_reports t es @ pending \<and> length pending \<le> 1 \<and> (cs_pc s' t = ChIdle \<longrightarrow> pending = []))"
proof (intro conjI allI)
  note F = fresh_inv [OF assms(1)]
  note R = run_ok [OF assms(2) F(1)]
  show "fifo (unat (ch_capacity (cs_channel s c))) (through c (transfers es)) [] = Some (contents (cs_channel s' c))" for c
    using R(2) unfolding flows_def F(3) [of c, symmetric] by blast
  fix t
  have "made_by t (transfers es) = all_reports t es @ pend (cs_woken s') s' t" using R(3) [of t] F(2) [of t] by simp
  moreover have "cs_pc s' t = ChIdle \<longrightarrow> pend (cs_woken s') s' t = []" using pend_quiet [of s' t] by simp
  ultimately show "\<exists>pending. made_by t (transfers es) = all_reports t es @ pending \<and> length pending \<le> 1 \<and> (cs_pc s' t = ChIdle \<longrightarrow> pending = [])"
    using pend_short by blast
qed

theorem channels_fifo_exactly_once_witness:
  "\<exists>es s. channel_run wakeup at_rest = Some (es, s) \<and> made_by 1 (transfers es) = [Transfer 1 SelectRecv 6 70] \<and>
     fifo 1 (through 6 (transfers es)) [] = Some [71]"
proof -
  obtain es s where r: "channel_run wakeup at_rest = Some (es, s)" "all_reports 1 es = [Transfer 1 SelectRecv 6 70]" "cs_pc s 1 = ChIdle" "contents (cs_channel s 6) = [71]"
    using wakeup_result by (auto split: option.splits)
  have "unat (ch_capacity (cs_channel at_rest 6)) = 1" by (simp add: at_rest_def one_slot_def)
  with channels_fifo_exactly_once [OF at_rest_fresh r(1)] r show ?thesis by (metis append_Nil2)
qed

text \<open>
  C2. Under the same conditions nobody waits for something that is there. A task waiting to send or receive has been woken, or it is queued on its channel and the
  channel is open and full, or empty, respectively. A select that has parked has been woken, or a timeout or cancellation has claimed it and is
  about to wake it, or each of its operations is queued on its channel and none could proceed. So no wake-up is lost between queueing and
  parking, closing wakes every waiter, and a sender and a receiver never both wait on one channel.
\<close>

theorem channels_no_lost_wakeup:
  assumes "fresh_channels s" "channel_run ms s = Some (es, s')"
  shows "(\<forall>t k c v. plain_op (cs_pc s' t) = Some (k, c, v) \<longrightarrow>
       cs_woken s' t \<or> PlainNode t \<in> set (waiters k (cs_channel s' c)) \<and> must_wait k (cs_channel s' c)) \<and>
    (\<forall>t. cs_pc s' t = SelectParked \<longrightarrow> cs_woken s' t \<or> cs_abort s' t \<noteq> AbortIdle \<or>
       (\<forall>(i, op) \<in> set (enumerate 0 (cs_ops s' t)).
          SelectNode t i \<in> set (waiters (so_kind op) (cs_channel s' (so_channel op))) \<and> must_wait (so_kind op) (cs_channel s' (so_channel op)))) \<and>
    (\<forall>c. ch_send_waiters (cs_channel s' c) = [] \<or> ch_recv_waiters (cs_channel s' c) = [])"
proof (intro conjI allI impI)
  note inv = run_ok(1) [OF assms(2) fresh_inv(1) [OF assms(1)]]
  note w = system_invD(1) [OF inv] and ok = chan_okD [OF system_invD(2) [OF inv]]
  have m: "must_wait k (cs_channel s' c)" if "n \<in> set (waiters k (cs_channel s' c))" for n k c
  proof -
    have "waiters k (cs_channel s' c) \<noteq> []" using that by auto
    then show ?thesis using ok(2-5) [of c] by (cases k) (auto simp: must_wait_def)
  qed
  show "cs_woken s' t \<or> PlainNode t \<in> set (waiters k (cs_channel s' c)) \<and> must_wait k (cs_channel s' c)"
    if "plain_op (cs_pc s' t) = Some (k, c, v)" for t k c v
    using wait_invD(1) [OF w, of t] that m [of "PlainNode t" k c] by (auto simp: plain_ok_def on_def split: if_splits)
  show "ch_send_waiters (cs_channel s' c) = [] \<or> ch_recv_waiters (cs_channel s' c) = []" for c
    using ok(2,4) [of c] ring_count(2) [OF ok(1), of c] by (metis word_gt_0)
  fix t assume pc: "cs_pc s' t = SelectParked"
  have sel: "selecting (cs_pc s' t)" "\<not> has_left (cs_pc s' t)" using pc by (simp_all add: selecting_def has_left_def)
  note D = select_okD [OF wait_invD(2) [OF w] sel(1)]
  have "cs_woken s' t \<or> cs_abort s' t \<noteq> AbortIdle \<or> ss_completed (cs_select s' t) = SelectArmed"
    using D(4) pc by (cases "ss_completed (cs_select s' t)") (auto simp: phase_ok_def)
  moreover have "SelectNode t i \<in> set (waiters (so_kind op) (cs_channel s' (so_channel op)))"
    if "ss_completed (cs_select s' t) = SelectArmed" "(i, op) \<in> set (enumerate 0 (cs_ops s' t))" for i op
  proof -
    have "i < length (cs_ops s' t)" "op = cs_ops s' t ! i" using enumerate_facts(2) [THEN iffD1, OF that(2)] by simp_all
    then have "(so_kind op, so_channel op) \<in> on s' (SelectNode t i)" using D(3) [of i] sel(2) that(1) by (simp add: open_phase_def op_place_def)
    then show ?thesis by (simp add: on_def)
  qed
  ultimately show "cs_woken s' t \<or> cs_abort s' t \<noteq> AbortIdle \<or> (\<forall>(i, op) \<in> set (enumerate 0 (cs_ops s' t)).
       SelectNode t i \<in> set (waiters (so_kind op) (cs_channel s' (so_channel op))) \<and> must_wait (so_kind op) (cs_channel s' (so_channel op)))"
    using m by blast
qed

theorem channels_no_lost_wakeup_witness:
  "\<exists>es s. channel_run parking at_rest = Some (es, s) \<and> cs_pc s 1 = SelectParked \<and> SelectNode 1 1 \<in> set (ch_recv_waiters (cs_channel s 6)) \<and> must_wait SelectRecv (cs_channel s 6)"
proof -
  obtain es s where r: "channel_run parking at_rest = Some (es, s)" "cs_pc s 1 = SelectParked" "\<not> cs_woken s 1" "cs_abort s 1 = AbortIdle" "cs_ops s 1 = two_ops"
    using parking_result by (auto split: option.splits)
  have "\<forall>(i, op) \<in> set (enumerate 0 (cs_ops s 1)).
      SelectNode 1 i \<in> set (waiters (so_kind op) (cs_channel s (so_channel op))) \<and> must_wait (so_kind op) (cs_channel s (so_channel op))"
    using channels_no_lost_wakeup [OF at_rest_fresh r(1)] r(2-4) by blast
  then show ?thesis using r by (auto simp: two_ops_def)
qed



end
